(* ===== verification/Prelude.thy ===== *)
theory Prelude
  imports Main "HOL-Library.Word" "HOL-Library.Multiset"
begin

text \<open>
  Shared vocabulary of the development: Go's byte slices, errors and panics, the fixed-width
  big-endian integers of \<^verbatim>\<open>encoding/binary\<close>, the hexadecimal text of \<^verbatim>\<open>encoding/hex\<close>, and the
  generic list lemmas that the component theories use.
\<close>

section \<open>Values, errors and panics\<close>

type_synonym byte = "8 word"
type_synonym bytes = "byte list"
type_synonym u16 = "16 word"
type_synonym u32 = "32 word"
type_synonym u64 = "64 word"

text \<open>
  An error is a message made by \<^verbatim>\<open>errors.New\<close> or \<^verbatim>\<open>errors.Errorf\<close> (the formatted operands are left
  out) or the wrapping of another one by \<^verbatim>\<open>errors.Wrap\<close>. A fault is a panic: an index out of range,
  a nil dereference or a call of \<^verbatim>\<open>panic\<close>.
\<close>

datatype error = ErrNew string | ErrWrap error string

fun errors_Is :: "error \<Rightarrow> error \<Rightarrow> bool" where
  "errors_Is (ErrNew m) t = (ErrNew m = t)"
| "errors_Is (ErrWrap e m) t = (ErrWrap e m = t \<or> errors_Is e t)"

datatype fault = IndexOutOfRange | NilDereference | Panicked string

named_theorems codec_simps \<open>length and round trip facts of the byte encodings\<close>
named_theorems frame_simps \<open>fields an operation leaves alone\<close>

section \<open>Mapping a fallible function over a list\<close>

fun map_res :: "('a \<Rightarrow> 'e + 'b) \<Rightarrow> 'a list \<Rightarrow> 'e + 'b list" where
  "map_res f [] = Inr []"
| "map_res f (x # xs) =
     (case f x of
        Inl e \<Rightarrow> Inl e
      | Inr y \<Rightarrow> (case map_res f xs of Inl e \<Rightarrow> Inl e | Inr ys \<Rightarrow> Inr (y # ys)))"

lemma map_res_Inr_all:
  "(\<And>x. x \<in> set xs \<Longrightarrow> f x = Inr (g x)) \<Longrightarrow> map_res f xs = Inr (map g xs)"
  by (induction xs) auto

lemma map_res_Inr_Cons:
  "map_res f (x # xs) = Inr zs \<longleftrightarrow> (\<exists>y ys. zs = y # ys \<and> f x = Inr y \<and> map_res f xs = Inr ys)"
  by (auto split: sum.splits)

lemma map_res_Inr_iff:
  "map_res f xs = Inr ys \<longleftrightarrow> list_all2 (\<lambda>x y. f x = Inr y) xs ys"
  by (induction xs arbitrary: ys) (auto simp: map_res_Inr_Cons list_all2_Cons1 simp del: map_res.simps(2))

lemma map_res_from: "map_res f xs = Inr ys \<Longrightarrow> y \<in> set ys \<Longrightarrow> \<exists>x\<in>set xs. f x = Inr y"
  unfolding map_res_Inr_iff list_all2_conv_all_nth in_set_conv_nth by (metis nth_mem)

lemma map_res_length: "map_res f xs = Inr ys \<Longrightarrow> length ys = length xs"
  by (simp add: map_res_Inr_iff list_all2_lengthD)

lemma map_res_map: "map_res f (map g xs) = map_res (\<lambda>x. f (g x)) xs"
  by (induction xs) (auto split: sum.split)

lemma map_res_id: "(\<And>x. x \<in> set xs \<Longrightarrow> f x = Inr x) \<Longrightarrow> map_res f xs = Inr xs"
  by (induction xs) auto

lemma map_res_back:
  assumes "\<And>x. x \<in> set xs \<Longrightarrow> \<exists>y. f x = Inr y \<and> g y = Inr x"
  obtains ys where "map_res f xs = Inr ys" "map_res g ys = Inr xs"
  using assms
proof (induction xs arbitrary: thesis)
  case (Cons x xs)
  obtain y where "f x = Inr y" "g y = Inr x"
    using Cons.prems(2) [of x] by auto
  moreover obtain ys where "map_res f xs = Inr ys" "map_res g ys = Inr xs"
    using Cons.IH Cons.prems(2) by (metis list.set_intros(2))
  ultimately show ?case
    by (intro Cons.prems(1) [of "y # ys"]) auto
qed simp

section \<open>Sequencing fallible calls\<close>

text \<open>
  \<open>res_bind m f\<close> is the early return of an error or panic of \<open>m\<close>; \<open>wrap_err\<close> changes the error on
  its way out.
\<close>

definition res_bind :: "'e + 'a \<Rightarrow> ('a \<Rightarrow> 'e + 'b) \<Rightarrow> 'e + 'b" where
  "res_bind m f = (case m of Inl e \<Rightarrow> Inl e | Inr x \<Rightarrow> f x)"

definition wrap_err :: "('e \<Rightarrow> 'd) \<Rightarrow> 'e + 'a \<Rightarrow> 'd + 'a" where
  "wrap_err w m = (case m of Inl e \<Rightarrow> Inl (w e) | Inr x \<Rightarrow> Inr x)"

lemma res_bind_simps [simp]: "res_bind (Inl e) f = Inl e" "res_bind (Inr x) f = f x"
  by (simp_all add: res_bind_def)

lemma wrap_err_simps [simp]: "wrap_err w (Inl e) = Inl (w e)" "wrap_err w (Inr x) = Inr x"
  by (simp_all add: wrap_err_def)

lemma res_bind_Inr_iff: "res_bind m f = Inr y \<longleftrightarrow> (\<exists>x. m = Inr x \<and> f x = Inr y)"
  by (cases m) auto

lemma wrap_err_Inr_iff [simp]: "wrap_err w m = Inr y \<longleftrightarrow> m = Inr y"
  by (cases m) auto

lemma res_bind_cong [fundef_cong]:
  "m = m' \<Longrightarrow> (\<And>x. m' = Inr x \<Longrightarrow> f x = f' x) \<Longrightarrow> res_bind m f = res_bind m' f'"
  by (cases m') auto

text \<open>
  A function that returns an error and may also panic has a result \<open>failure + 'a\<close>: \<open>Err e\<close> is
  returned, \<open>Fault f\<close> is the panic.
\<close>

datatype failure = Fault fault | Err error

abbreviation or_err :: "error + 'a \<Rightarrow> failure + 'a" where
  "or_err \<equiv> wrap_err Err"

abbreviation or_fault :: "fault + 'a \<Rightarrow> failure + 'a" where
  "or_fault \<equiv> wrap_err Fault"

abbreviation fail :: "string \<Rightarrow> failure + 'a" where
  "fail msg \<equiv> Inl (Err (ErrNew msg))"

abbreviation panic :: "string \<Rightarrow> failure + 'a" where
  "panic msg \<equiv> Inl (Fault (Panicked msg))"

text \<open>Success of a case distinction that fails in its error branches.\<close>

lemma case_sum_Inr_iff:
  "(case m of Inl e \<Rightarrow> Inl (g e) | Inr x \<Rightarrow> f x) = Inr y \<longleftrightarrow> (\<exists>x. m = Inr x \<and> f x = Inr y)"
  by (cases m) simp_all

lemma case_failure_Inr_iff:
  "(case m of Inl (Fault b) \<Rightarrow> Inl (g b) | Inl (Err e) \<Rightarrow> Inl (h e) | Inr x \<Rightarrow> f x) = Inr y \<longleftrightarrow>
     (\<exists>x. m = Inr x \<and> f x = Inr y)"
  by (auto split: sum.split failure.split)

lemmas success_iff = res_bind_Inr_iff case_sum_Inr_iff case_failure_Inr_iff

definition require :: "bool \<Rightarrow> string \<Rightarrow> failure + 'a \<Rightarrow> failure + 'a" where
  "require c msg k = (if c then k else fail msg)"

lemma require_Inr_iff [simp]: "require c msg k = Inr x \<longleftrightarrow> c \<and> k = Inr x"
  by (simp add: require_def)

lemma require_cong [fundef_cong]:
  "c = c' \<Longrightarrow> (c' \<Longrightarrow> k = k') \<Longrightarrow> require c msg k = require c' msg k'"
  by (simp add: require_def)

definition deref :: "'a option \<Rightarrow> failure + 'a" where
  "deref p = (case p of None \<Rightarrow> Inl (Fault NilDereference) | Some x \<Rightarrow> Inr x)"

lemma deref_Inr_iff [simp]: "deref p = Inr x \<longleftrightarrow> p = Some x"
  by (simp add: deref_def split: option.split)

lemma deref_Some [simp]: "deref (Some x) = Inr x"
  by (simp add: deref_def)

section \<open>Maps as association lists\<close>

text \<open>
  A Go map that is built up key by key: the entries in the order in which their keys first came.
  Go's iteration order is unspecified; what is proved of a loop over such a map does not depend on
  the order of the entries.
\<close>

fun alist_modify :: "'k \<Rightarrow> ('v option \<Rightarrow> 'v) \<Rightarrow> ('k \<times> 'v) list \<Rightarrow> ('k \<times> 'v) list" where
  "alist_modify k f [] = [(k, f None)]"
| "alist_modify k f ((k', v) # m) =
     (if k = k' then (k', f (Some v)) # m else (k', v) # alist_modify k f m)"

lemma map_of_alist_modify [simp]:
  "map_of (alist_modify k f m) = (map_of m)(k \<mapsto> f (map_of m k))"
  by (induction m) (auto simp: fun_upd_twist)

lemma keys_alist_modify:
  "map fst (alist_modify k f m) = map fst m @ (if k \<in> fst ` set m then [] else [k])"
  by (induction m) force+

lemma set_keys_alist_modify [simp]: "fst ` set (alist_modify k f m) = insert k (fst ` set m)"
  using arg_cong [OF keys_alist_modify [of k f m], of set] by (auto split: if_splits)

lemma distinct_alist_modify:
  "distinct (map fst m) \<Longrightarrow> distinct (map fst (alist_modify k f m))"
  by (simp add: keys_alist_modify)

definition nil_list :: "'a list option \<Rightarrow> 'a list" where
  "nil_list x = (case x of None \<Rightarrow> [] | Some xs \<Rightarrow> xs)"

lemma nil_list_simps [simp]: "nil_list None = []" "nil_list (Some xs) = xs"
  by (simp_all add: nil_list_def)

section \<open>Big-endian integers\<close>

primrec be_put :: "nat \<Rightarrow> nat \<Rightarrow> bytes" where
  "be_put 0 v = []"
| "be_put (Suc k) v = be_put k (v div 256) @ [of_nat (v mod 256)]"

definition be_get :: "bytes \<Rightarrow> nat" where
  "be_get bs = foldl (\<lambda>a b. 256 * a + unat b) 0 bs"

lemma be_get_snoc: "be_get (bs @ [b]) = 256 * be_get bs + unat b"
  by (simp add: be_get_def)

lemma be_get_Nil [simp]: "be_get [] = 0"
  by (simp add: be_get_def)

lemma unat_less_2p: "unat (w :: 'a::len word) < 2 ^ LENGTH('a)"
  by (rule unsigned_less)

lemma length_be_put [simp, codec_simps]: "length (be_put k v) = k"
  by (induction k arbitrary: v) auto

lemma unat_byte_of_nat_mod [simp]: "unat (of_nat (v mod 256) :: byte) = v mod 256"
  by (simp add: unat_of_nat)

lemma be_get_put: "v < 256 ^ k \<Longrightarrow> be_get (be_put k v) = v"
proof (induction k arbitrary: v)
  case 0
  then show ?case by simp
next
  case (Suc k)
  from Suc.prems have "v div 256 < 256 ^ k"
    by (simp add: less_mult_imp_div_less mult.commute)
  then show ?case
    using Suc.IH by (simp add: be_get_snoc)
qed

lemma be_get_less: "be_get bs < 256 ^ length bs"
proof (induction bs rule: rev_induct)
  case Nil
  then show ?case by simp
next
  case (snoc b bs)
  have "unat b < 256"
    using unat_less_2p [of b] by simp
  then have "256 * be_get bs + unat b < 256 * (be_get bs + 1)"
    by simp
  also have "\<dots> \<le> 256 * 256 ^ length bs"
    using snoc.IH by simp
  finally show ?case
    by (simp add: be_get_snoc)
qed

lemma be_put_get: "be_put (length bs) (be_get bs) = bs"
proof (induction bs rule: rev_induct)
  case Nil
  then show ?case by simp
next
  case (snoc b bs)
  have "unat b < 256"
    using unat_less_2p [of b] by simp
  then show ?case
    using snoc.IH by (simp add: be_get_snoc)
qed

lemma be_put_inj: "a < 256 ^ k \<Longrightarrow> b < 256 ^ k \<Longrightarrow> be_put k a = be_put k b \<longleftrightarrow> a = b"
  by (metis be_get_put)

text \<open>\<^verbatim>\<open>binary.BigEndian.PutUint16/32/64\<close> and \<^verbatim>\<open>Uint16/32/64\<close>; the readers take the leading bytes.\<close>

definition put16 :: "u16 \<Rightarrow> bytes" where
  "put16 w = be_put 2 (unat w)"

definition put32 :: "u32 \<Rightarrow> bytes" where
  "put32 w = be_put 4 (unat w)"

definition put64 :: "u64 \<Rightarrow> bytes" where
  "put64 w = be_put 8 (unat w)"

definition get16 :: "bytes \<Rightarrow> u16" where
  "get16 bs = of_nat (be_get (take 2 bs))"

definition get32 :: "bytes \<Rightarrow> u32" where
  "get32 bs = of_nat (be_get (take 4 bs))"

definition get64 :: "bytes \<Rightarrow> u64" where
  "get64 bs = of_nat (be_get (take 8 bs))"

lemma length_put [simp, codec_simps]:
  "length (put16 a) = 2" "length (put32 b) = 4" "length (put64 c) = 8"
  by (simp_all add: put16_def put32_def put64_def)

lemma be_get_put16 [simp]: "be_get (put16 w) = unat w"
  using unat_less_2p [of w] by (simp add: put16_def be_get_put)

lemma be_get_put32 [simp]: "be_get (put32 w) = unat w"
  using unat_less_2p [of w] by (simp add: put32_def be_get_put)

lemma be_get_put64 [simp]: "be_get (put64 w) = unat w"
  using unat_less_2p [of w] by (simp add: put64_def be_get_put)

lemma get_put16 [simp, codec_simps]: "get16 (put16 w @ xs) = w"
  by (simp add: get16_def)

lemma get_put32 [simp, codec_simps]: "get32 (put32 w @ xs) = w"
  by (simp add: get32_def)

lemma get_put64 [simp, codec_simps]: "get64 (put64 w @ xs) = w"
  by (simp add: get64_def)

lemmas get_put_end [simp, codec_simps] =
  get_put16 [where xs = "[]", simplified]
  get_put32 [where xs = "[]", simplified]
  get_put64 [where xs = "[]", simplified]

lemma put16_inject [simp]: "put16 a = put16 b \<longleftrightarrow> a = b"
  by (metis get_put_end(1))

lemma put32_inject [simp]: "put32 a = put32 b \<longleftrightarrow> a = b"
  by (metis get_put_end(2))

lemma put64_inject [simp]: "put64 a = put64 b \<longleftrightarrow> a = b"
  by (metis get_put_end(3))

text \<open>\<^verbatim>\<open>bytes[i:j]\<close>: the bounds are checked by the callers.\<close>

definition slice :: "nat \<Rightarrow> nat \<Rightarrow> 'a list \<Rightarrow> 'a list" where
  "slice i j xs = take (j - i) (drop i xs)"

lemma length_slice [simp, codec_simps]: "j \<le> length xs \<Longrightarrow> length (slice i j xs) = j - i"
  by (simp add: slice_def)

lemma slice_skip [codec_simps]:
  "length xs \<le> i \<Longrightarrow> slice i j (xs @ ys) = slice (i - length xs) (j - length xs) ys"
  by (cases "i \<le> j") (auto simp: slice_def)

lemma slice_here [codec_simps]: "length xs = j \<Longrightarrow> slice 0 j (xs @ ys) = xs"
  by (simp add: slice_def)

lemma slice_all [codec_simps]: "length xs = j \<Longrightarrow> slice 0 j xs = xs"
  by (simp add: slice_def)

section \<open>Hexadecimal text\<close>

definition hexdigit :: "nat \<Rightarrow> char" where
  "hexdigit n = (if n < 10 then char_of (48 + n) else char_of (87 + n))"

definition hex_EncodeToString :: "bytes \<Rightarrow> string" where
  "hex_EncodeToString bs =
     concat (map (\<lambda>b. [hexdigit (unat b div 16), hexdigit (unat b mod 16)]) bs)"

lemma hexdigit_inj: "a < 16 \<Longrightarrow> b < 16 \<Longrightarrow> hexdigit a = hexdigit b \<longleftrightarrow> a = b"
  by (auto simp: hexdigit_def char_of_eq_iff take_bit_eq_mod split: if_splits)

lemma byte_hex_inj:
  fixes a b :: byte
  assumes "hexdigit (unat a div 16) = hexdigit (unat b div 16)"
    and "hexdigit (unat a mod 16) = hexdigit (unat b mod 16)"
  shows "a = b"
proof -
  have "unat a < 256" "unat b < 256"
    using unat_less_2p [of a] unat_less_2p [of b] by simp_all
  then have "unat a div 16 < 16" "unat b div 16 < 16"
    by simp_all
  with assms have "unat a div 16 = unat b div 16" "unat a mod 16 = unat b mod 16"
    by (simp_all add: hexdigit_inj)
  then have "unat a = unat b"
    by (metis div_mult_mod_eq)
  then show ?thesis by (simp add: word_unat_eq_iff)
qed

lemma hex_EncodeToString_inj [simp]:
  "hex_EncodeToString a = hex_EncodeToString b \<longleftrightarrow> a = b"
proof (induction a arbitrary: b)
  case Nil
  then show ?case by (cases b) (auto simp: hex_EncodeToString_def)
next
  case (Cons x xs)
  show ?case
  proof (cases b)
    case Nil
    then show ?thesis by (simp add: hex_EncodeToString_def)
  next
    case (Cons y ys)
    then show ?thesis
      using Cons.IH [of ys] byte_hex_inj [of x y] by (auto simp: hex_EncodeToString_def)
  qed
qed

section \<open>Decimal text\<close>

text \<open>The text \<^verbatim>\<open>%d\<close> prints for a natural number.\<close>

definition dec_digit :: "nat \<Rightarrow> char" where
  "dec_digit n = char_of (48 + n)"

fun dec_string :: "nat \<Rightarrow> string" where
  "dec_string n =
     (if n < 10 then [dec_digit n] else dec_string (n div 10) @ [dec_digit (n mod 10)])"

declare dec_string.simps [simp del]

definition is_digit :: "char \<Rightarrow> bool" where
  "is_digit c \<longleftrightarrow> 48 \<le> (of_char c :: nat) \<and> (of_char c :: nat) \<le> 57"

definition digit_value :: "char \<Rightarrow> nat" where
  "digit_value c = of_char c - 48"

definition dec_value :: "string \<Rightarrow> nat" where
  "dec_value s = foldl (\<lambda>a c. 10 * a + digit_value c) 0 s"

lemma dec_digit_props [simp]:
  "n < 10 \<Longrightarrow> is_digit (dec_digit n)" "n < 10 \<Longrightarrow> digit_value (dec_digit n) = n"
  by (simp_all add: is_digit_def dec_digit_def digit_value_def)

lemma dec_value_snoc: "dec_value (s @ [c]) = 10 * dec_value s + digit_value c"
  by (simp add: dec_value_def)

lemma dec_string_nonempty [simp]: "dec_string n \<noteq> []"
  by (subst dec_string.simps) simp

lemma dec_string_digits: "list_all is_digit (dec_string n)"
proof (induction n rule: dec_string.induct)
  case (1 n)
  then show ?case by (subst dec_string.simps) simp
qed

lemma dec_value_string [simp]: "dec_value (dec_string n) = n"
proof (induction n rule: dec_string.induct)
  case (1 n)
  show ?case
  proof (cases "n < 10")
    case True
    then show ?thesis by (subst dec_string.simps) (simp add: dec_value_def)
  next
    case False
    with "1.IH" show ?thesis by (subst dec_string.simps) (simp add: dec_value_snoc)
  qed
qed

lemma dec_string_inject [simp]: "dec_string m = dec_string n \<longleftrightarrow> m = n"
  by (metis dec_value_string)

section \<open>Byte codecs\<close>

text \<open>
  What the repository asks of a \<^verbatim>\<open>Serialize\<close>/\<^verbatim>\<open>Deserialize\<close> pair: a valid value is read back from
  its bytes. A canonical pair also accepts no other bytes.
\<close>

locale bytes_codec =
  fixes enc :: "'a \<Rightarrow> bytes"
    and dec :: "bytes \<Rightarrow> error + 'a"
    and valid :: "'a \<Rightarrow> bool"
  assumes dec_enc: "valid x \<Longrightarrow> dec (enc x) = Inr x"
begin

lemma enc_inject: "valid x \<Longrightarrow> valid y \<Longrightarrow> enc x = enc y \<longleftrightarrow> x = y"
  by (metis dec_enc sum.inject(2))

lemma map_res_dec_enc: "(\<And>x. x \<in> set xs \<Longrightarrow> valid x) \<Longrightarrow> map_res dec (map enc xs) = Inr xs"
  by (induction xs) (auto simp: dec_enc)

end

locale canonical_codec = bytes_codec +
  assumes dec_sound: "dec bs = Inr x \<Longrightarrow> valid x \<and> enc x = bs"
begin

lemma dec_iff: "dec bs = Inr x \<longleftrightarrow> valid x \<and> bs = enc x"
  using dec_enc dec_sound by blast

lemma dec_inject: "dec bs = Inr x \<Longrightarrow> dec bs' = Inr x \<Longrightarrow> bs = bs'"
  by (auto simp: dec_iff)

lemma map_res_dec_iff:
  "map_res dec bss = Inr xs \<longleftrightarrow> (\<forall>x\<in>set xs. valid x) \<and> bss = map enc xs"
  by (induction bss arbitrary: xs) (auto simp: map_res_Inr_Cons dec_iff simp del: map_res.simps(2))

end

section \<open>Protobuf\<close>

text \<open>
  The protobuf runtime is not part of the repository: a message type comes with the two functions
  of \<^verbatim>\<open>google.golang.org/protobuf/proto\<close>. What the code relies on is that a message is read back from
  its wire bytes.
\<close>

record 'm proto_lib =
  Marshal :: "'m \<Rightarrow> error + bytes"
  Unmarshal :: "bytes \<Rightarrow> error + 'm"

definition wire_faithful :: "'m proto_lib \<Rightarrow> 'm \<Rightarrow> bool" where
  "wire_faithful P m \<longleftrightarrow>
     (case Marshal P m of Inl _ \<Rightarrow> False | Inr bs \<Rightarrow> Unmarshal P bs = Inr m)"

lemma wire_faithfulE:
  assumes "wire_faithful P m"
  obtains bs where "Marshal P m = Inr bs" "Unmarshal P bs = Inr m"
  using assms by (auto simp: wire_faithful_def split: sum.splits)

end
