(* ===== verification/Asn1.thy ===== *)
theory Asn1
  imports Prelude
begin

text \<open>
  The part of Go's \<^verbatim>\<open>encoding/asn1\<close> that the repository uses: the DER encoding of INTEGER,
  OCTET STRING and SEQUENCE, and the parsing of one tag-length-value element. Encodings are shown
  to be read back by the parser, which makes them injective and prefix free.
\<close>

section \<open>Lengths\<close>

fun be_min :: "nat \<Rightarrow> bytes" where
  "be_min n = (if n < 256 then [of_nat n] else be_min (n div 256) @ [of_nat (n mod 256)])"

declare be_min.simps [simp del]

lemma be_min_nonempty: "be_min n \<noteq> []"
  by (subst be_min.simps) simp

lemma be_get_be_min: "be_get (be_min n) = n"
proof (induction n rule: be_min.induct)
  case (1 n)
  show ?case
  proof (cases "n < 256")
    case True
    then have "be_get (be_min n) = be_get ([] @ [of_nat (n mod 256)])"
      by (subst be_min.simps) simp
    with True show ?thesis by (simp only: be_get_snoc) (simp add: unat_of_nat)
  next
    case False
    with "1.IH" show ?thesis
      by (subst be_min.simps) (simp add: be_get_snoc)
  qed
qed

lemma length_be_min: "n < 256 ^ Suc k \<Longrightarrow> length (be_min n) \<le> Suc k"
proof (induction k arbitrary: n)
  case 0
  then show ?case by (subst be_min.simps) simp
next
  case (Suc k)
  then have "n div 256 < 256 ^ Suc k"
    by (simp add: less_mult_imp_div_less mult.commute)
  then have "length (be_min (n div 256)) \<le> Suc k"
    by (rule Suc.IH)
  then show ?case by (subst be_min.simps) simp
qed

lemma hd_be_min: "0 < n \<Longrightarrow> hd (be_min n) \<noteq> 0"
proof (induction n rule: be_min.induct)
  case (1 n)
  show ?case
  proof (cases "n < 256")
    case True
    with "1.prems" have "(of_nat n :: byte) \<noteq> 0"
      by (simp add: word_of_nat_eq_0_iff) (auto dest: dvd_imp_le)
    with True show ?thesis by (subst be_min.simps) simp
  next
    case False
    with "1.IH" have "hd (be_min (n div 256)) \<noteq> 0" by simp
    with False show ?thesis by (subst be_min.simps) (simp add: be_min_nonempty)
  qed
qed

definition der_len :: "nat \<Rightarrow> bytes" where
  "der_len n =
     (if n < 128 then [of_nat n] else of_nat (128 + length (be_min n)) # be_min n)"

text \<open>
  Reading a length: the short form, or the long form without leading zeros and not usable where the
  short form fits; the indefinite form (byte 128) is refused. Go's parser also refuses lengths of 31
  bits or more, which is added to the reader of elements below.
\<close>

definition read_len :: "bytes \<Rightarrow> (nat \<times> bytes) option" where
  "read_len bs =
     (case bs of
        [] \<Rightarrow> None
      | b # r \<Rightarrow>
          if unat b < 128 then Some (unat b, r)
          else let k = unat b - 128 in
            if k = 0 \<or> length r < k \<or> hd r = 0 \<or> be_get (take k r) < 128 then None
            else Some (be_get (take k r), drop k r))"

text \<open>Lengths of Go slices fit an \<^verbatim>\<open>int\<close>, that is 63 bits; encodings may add a few bytes to that.\<close>

lemma length_be_min_64: "n < 2 ^ 64 \<Longrightarrow> length (be_min n) \<le> 8"
  using length_be_min [of n 7] by simp

lemma read_len_der_len:
  assumes "n < 2 ^ 64"
  shows "read_len (der_len n @ r) = Some (n, r)"
proof (cases "n < 128")
  case True
  then have "unat (of_nat n :: byte) = n"
    by (simp add: unat_of_nat)
  with True show ?thesis
    by (simp add: der_len_def read_len_def)
next
  case False
  have "length (be_min n) \<le> 8"
    using assms by (rule length_be_min_64)
  then have u: "unat (of_nat (128 + length (be_min n)) :: byte) = 128 + length (be_min n)"
    by (simp only: unat_of_nat) simp
  have "hd (be_min n @ r) \<noteq> 0"
    using False by (simp add: be_min_nonempty hd_be_min)
  with False u show ?thesis
    by (simp add: der_len_def read_len_def be_get_be_min be_min_nonempty Let_def)
qed

section \<open>Elements\<close>

definition tlv :: "byte \<Rightarrow> bytes \<Rightarrow> bytes" where
  "tlv t c = t # der_len (length c) @ c"

definition read_tlv :: "bytes \<Rightarrow> (byte \<times> bytes \<times> bytes) option" where
  "read_tlv bs =
     (case bs of
        [] \<Rightarrow> None
      | t # r \<Rightarrow>
          (case read_len r of
             None \<Rightarrow> None
           | Some (n, r') \<Rightarrow> if length r' < n then None else Some (t, take n r', drop n r')))"

lemma read_tlv_tlv:
  "length c < 2 ^ 64 \<Longrightarrow> read_tlv (tlv t c @ r) = Some (t, c, r)"
  by (simp add: read_tlv_def tlv_def read_len_der_len)

lemma tlv_nonempty [simp]: "tlv t c \<noteq> []"
  by (simp add: tlv_def)

text \<open>Two elements in front of two tails agree only if the elements and the tails agree.\<close>

lemma tlv_append_inject:
  assumes "length c < 2 ^ 64" "length c' < 2 ^ 64"
  shows "tlv t c @ r = tlv t' c' @ r' \<longleftrightarrow> t = t' \<and> c = c' \<and> r = r'"
  by (metis assms read_tlv_tlv option.inject prod.inject)

lemma length_der_len: "n < 2 ^ 64 \<Longrightarrow> length (der_len n) \<le> 9"
  using length_be_min_64 [of n] by (simp add: der_len_def)

lemma length_tlv: "length c < 2 ^ 64 \<Longrightarrow> length (tlv t c) \<le> length c + 10"
  using length_der_len [of "length c"] by (simp add: tlv_def)

lemma read_len_shorter: "read_len bs = Some (n, r) \<Longrightarrow> length r < length bs"
  by (auto simp: read_len_def Let_def split: list.splits if_splits)

lemma read_tlv_shorter: "read_tlv bs = Some (t, c, r) \<Longrightarrow> length r < length bs"
  by (auto simp: read_tlv_def split: list.splits option.splits if_splits
      dest!: read_len_shorter)

section \<open>INTEGER and OCTET STRING\<close>

text \<open>The content of an INTEGER: the shortest two's complement big-endian bytes.\<close>

function int_content :: "int \<Rightarrow> bytes" where
  "int_content i =
     (if -128 \<le> i \<and> i < 128 then [word_of_int i]
      else int_content (i div 256) @ [word_of_int i])"
  by pat_completeness auto
termination
proof (relation "measure (\<lambda>i. nat \<bar>i\<bar>)")
  fix i :: int
  assume "\<not> (-128 \<le> i \<and> i < 128)"
  then have "\<bar>i div 256\<bar> < \<bar>i\<bar>" by linarith
  then show "(i div 256, i) \<in> measure (\<lambda>i. nat \<bar>i\<bar>)" by simp
qed simp

declare int_content.simps [simp del]

definition int_value :: "bytes \<Rightarrow> int" where
  "int_value bs = foldl (\<lambda>a b. 256 * a + uint b) (sint (hd bs)) (tl bs)"

lemma int_content_nonempty: "int_content i \<noteq> []"
  by (subst int_content.simps) simp

lemma int_value_snoc: "bs \<noteq> [] \<Longrightarrow> int_value (bs @ [b]) = 256 * int_value bs + uint b"
  by (simp add: int_value_def)

lemma small_sint: "-128 \<le> i \<Longrightarrow> i < 128 \<Longrightarrow> sint (word_of_int i :: byte) = i"
  by (simp add: signed_of_int signed_take_bit_int_eq_self)

lemma sint_255: "sint (255 :: byte) = -1"
  by simp

lemma int_value_content: "int_value (int_content i) = i"
proof (induction i rule: int_content.induct)
  case (1 i)
  show ?case
  proof (cases "-128 \<le> i \<and> i < 128")
    case True
    then have "sint (word_of_int i :: byte) = i"
      by (simp add: small_sint)
    with True show ?thesis
      by (subst int_content.simps) (simp add: int_value_def)
  next
    case False
    have "uint (word_of_int i :: byte) = i mod 256"
      by (simp add: uint_word_of_int take_bit_eq_mod)
    with False "1.IH" show ?thesis
      by (subst int_content.simps) (auto simp: int_value_snoc int_content_nonempty)
  qed
qed

lemma length_int_content:
  "- (2 ^ (8 * k + 7)) \<le> i \<Longrightarrow> i < 2 ^ (8 * k + 7) \<Longrightarrow> length (int_content i) \<le> Suc k"
proof (induction k arbitrary: i)
  case 0
  then show ?case by (subst int_content.simps) simp
next
  case (Suc k)
  have p: "(2::int) ^ (8 * Suc k + 7) = 256 * 2 ^ (8 * k + 7)"
    by (simp add: power_add)
  from Suc.prems have "- (2 ^ (8 * k + 7)) \<le> i div 256" "i div 256 < 2 ^ (8 * k + 7)"
    unfolding p by linarith+
  then have "length (int_content (i div 256)) \<le> Suc k"
    by (rule Suc.IH)
  then show ?case by (subst int_content.simps) simp
qed

lemma length_int_content_u64:
  assumes "0 \<le> i" "i < 2 ^ 64"
  shows "length (int_content i) \<le> 9"
  using assms length_int_content [of 8 i] by simp

definition der_int :: "int \<Rightarrow> bytes" where
  "der_int i = tlv 2 (int_content i)"

definition der_octets :: "bytes \<Rightarrow> bytes" where
  "der_octets c = tlv 4 c"

definition der_seq :: "bytes \<Rightarrow> bytes" where
  "der_seq c = tlv 48 c"

lemma int_content_inject [simp]: "int_content i = int_content j \<longleftrightarrow> i = j"
  by (metis int_value_content)

text \<open>Integers that fit 64 bits, the only ones the repository encodes.\<close>

definition fits64 :: "int \<Rightarrow> bool" where
  "fits64 i \<longleftrightarrow> - (2 ^ 64) \<le> i \<and> i < 2 ^ 64"

lemma fits64_length: "fits64 i \<Longrightarrow> length (int_content i) < 2 ^ 64"
  using length_int_content [of 8 i] by (simp add: fits64_def)

lemma fits64_length_der_int: "fits64 i \<Longrightarrow> length (der_int i) \<le> 19"
  using length_int_content [of 8 i] length_tlv [of "int_content i" 2]
  by (simp add: fits64_def der_int_def)

lemma fits64_uint [simp]: "fits64 (uint (w :: u64))" "fits64 (uint (v :: u16))"
  using uint_lt2p [of w] uint_lt2p [of v] order_trans [OF _ uint_ge_0 [of w]]
    order_trans [OF _ uint_ge_0 [of v]]
  by (simp_all add: fits64_def)

lemma der_int_append_inject:
  "fits64 i \<Longrightarrow> fits64 j \<Longrightarrow> der_int i @ r = der_int j @ r' \<longleftrightarrow> i = j \<and> r = r'"
  unfolding der_int_def by (simp only: tlv_append_inject fits64_length int_content_inject) simp

lemma der_octets_append_inject:
  "length c < 2 ^ 64 \<Longrightarrow> length c' < 2 ^ 64 \<Longrightarrow>
   der_octets c @ r = der_octets c' @ r' \<longleftrightarrow> c = c' \<and> r = r'"
  by (auto simp: der_octets_def tlv_append_inject)

section \<open>Go's parser\<close>

text \<open>An element whose length does not fit 31 bits is refused.\<close>

definition parse_tlv :: "bytes \<Rightarrow> (byte \<times> bytes \<times> bytes) option" where
  "parse_tlv bs =
     (case read_tlv bs of
        None \<Rightarrow> None
      | Some (t, c, r) \<Rightarrow> if length c < 2 ^ 31 then Some (t, c, r) else None)"

lemma parse_tlv_tlv: "length c < 2 ^ 31 \<Longrightarrow> parse_tlv (tlv t c @ r) = Some (t, c, r)"
  by (simp add: parse_tlv_def read_tlv_tlv)

lemma parse_tlv_shorter: "parse_tlv bs = Some (t, c, r) \<Longrightarrow> length r < length bs"
  by (auto simp: parse_tlv_def read_tlv_shorter split: option.splits if_splits)

text \<open>
  The content of an INTEGER must be minimal, and must fit eight bytes to be read as an \<^verbatim>\<open>int64\<close>.
\<close>

definition minimal_int :: "bytes \<Rightarrow> bool" where
  "minimal_int c \<longleftrightarrow>
     (case c of
        [] \<Rightarrow> False
      | [b] \<Rightarrow> True
      | b0 # b1 # r \<Rightarrow> \<not> (b0 = 0 \<and> unat b1 < 128) \<and> \<not> (b0 = 255 \<and> unat b1 \<ge> 128))"

definition parse_int64 :: "bytes \<Rightarrow> (u64 \<times> bytes) option" where
  "parse_int64 bs =
     (case parse_tlv bs of
        None \<Rightarrow> None
      | Some (t, c, r) \<Rightarrow>
          if t = 2 \<and> minimal_int c \<and> length c \<le> 8 then Some (word_of_int (int_value c), r) else None)"

definition parse_octets :: "bytes \<Rightarrow> (bytes \<times> bytes) option" where
  "parse_octets bs =
     (case parse_tlv bs of
        None \<Rightarrow> None
      | Some (t, c, r) \<Rightarrow> if t = 4 then Some (c, r) else None)"

definition parse_seq :: "bytes \<Rightarrow> bytes option" where
  "parse_seq bs =
     (case parse_tlv bs of None \<Rightarrow> None | Some (t, c, r) \<Rightarrow> if t = 48 then Some c else None)"

lemma int_content_two:
  assumes "\<not> (-128 \<le> i \<and> i < 128)" "-128 \<le> i div 256" "i div 256 < 128"
  shows "int_content i = [word_of_int (i div 256), word_of_int i]"
  using assms by (subst int_content.simps) (simp add: int_content.simps [of "i div 256"])

lemma unat_word_byte: "unat (word_of_int i :: byte) = nat (i mod 256)"
  by (simp add: unat_eq_nat_uint uint_word_of_int take_bit_eq_mod)

lemma minimal_int_content: "minimal_int (int_content i)"
proof (induction i rule: int_content.induct)
  case (1 i)
  show ?case
  proof (cases "-128 \<le> i \<and> i < 128")
    case True
    then show ?thesis by (subst int_content.simps) (simp add: minimal_int_def)
  next
    case False
    show ?thesis
    proof (cases "-128 \<le> i div 256 \<and> i div 256 < 128")
      case True
      then have "sint (word_of_int (i div 256) :: byte) = i div 256"
        by (simp add: small_sint)
      then have z: "word_of_int (i div 256) = (0 :: byte) \<Longrightarrow> i div 256 = 0"
        and m: "word_of_int (i div 256) = (255 :: byte) \<Longrightarrow> i div 256 = -1"
        by (metis sint_0, metis sint_255)
      have n: "-128 \<le> i" if "i div 256 = -1" "128 \<le> nat (i mod 256)"
      proof -
        have "128 \<le> i mod 256" using that(2) by simp
        moreover have "256 * (i div 256) + i mod 256 = i" by simp
        ultimately show ?thesis using that(1) by linarith
      qed
      show ?thesis
        using False True z m n
        unfolding int_content_two [OF False True [THEN conjunct1] True [THEN conjunct2]]
        by (auto simp: minimal_int_def unat_word_byte)
    next
      case False2: False
      have "int_content (i div 256) = int_content (i div 256 div 256) @ [word_of_int (i div 256)]"
        using False2 by (subst int_content.simps) auto
      moreover have "int_content i = int_content (i div 256) @ [word_of_int i]"
        using False by (subst int_content.simps) auto
      moreover obtain b bs where "int_content (i div 256 div 256) = b # bs"
        using int_content_nonempty by (cases "int_content (i div 256 div 256)") auto
      ultimately show ?thesis
        using "1.IH" [OF False] by (cases bs) (auto simp: minimal_int_def)
    qed
  qed
qed

lemma parse_int64_der_int:
  "parse_int64 (der_int (sint (w :: u64)) @ r) = Some (w, r)"
proof -
  have "- (2 ^ 63) \<le> sint w" "sint w < 2 ^ 63"
    using sint_greater_eq [of w] sint_less [of w] by simp_all
  then have "length (int_content (sint w)) \<le> 8"
    using length_int_content [of 7 "sint w"] by simp
  then show ?thesis
    by (simp add: parse_int64_def der_int_def parse_tlv_tlv minimal_int_content int_value_content)
qed

lemma parse_octets_der: "length c < 2 ^ 31 \<Longrightarrow> parse_octets (der_octets c @ r) = Some (c, r)"
  by (simp add: parse_octets_def der_octets_def parse_tlv_tlv)

lemma parse_seq_der: "length c < 2 ^ 31 \<Longrightarrow> parse_seq (der_seq c @ r) = Some c"
  by (simp add: parse_seq_def der_seq_def parse_tlv_tlv)

lemma parse_der_end:
  "parse_int64 (der_int (sint (w :: u64))) = Some (w, [])"
  "length c < 2 ^ 31 \<Longrightarrow> parse_octets (der_octets c) = Some (c, [])"
  "length c < 2 ^ 31 \<Longrightarrow> parse_seq (der_seq c) = Some c"
  using parse_int64_der_int [of w "[]"] parse_octets_der [of c "[]"] parse_seq_der [of c "[]"]
  by simp_all

section \<open>Sequences of octet strings\<close>

text \<open>\<^verbatim>\<open>asn1.Marshal\<close> and \<^verbatim>\<open>asn1.Unmarshal\<close> of a \<^verbatim>\<open>[][]byte\<close>; Unmarshal ignores trailing bytes, as the callers do.\<close>

definition marshal_octets_list :: "bytes list \<Rightarrow> bytes" where
  "marshal_octets_list xs = der_seq (concat (map der_octets xs))"

function parse_octets_list :: "bytes \<Rightarrow> bytes list option" where
  "parse_octets_list bs =
     (if bs = [] then Some []
      else (case parse_tlv bs of
              None \<Rightarrow> None
            | Some (t, c, r) \<Rightarrow>
                if t \<noteq> 4 then None
                else (case parse_octets_list r of None \<Rightarrow> None | Some cs \<Rightarrow> Some (c # cs))))"
  by pat_completeness auto
termination
  by (relation "measure length") (auto dest: parse_tlv_shorter)

declare parse_octets_list.simps [simp del]

definition unmarshal_octets_list :: "bytes \<Rightarrow> bytes list option" where
  "unmarshal_octets_list bs =
     (case parse_tlv bs of
        None \<Rightarrow> None
      | Some (t, c, r) \<Rightarrow> if t \<noteq> 48 then None else parse_octets_list c)"

lemma parse_octets_list_concat:
  "(\<And>x. x \<in> set xs \<Longrightarrow> length x < 2 ^ 31) \<Longrightarrow>
   parse_octets_list (concat (map der_octets xs)) = Some xs"
proof (induction xs)
  case Nil
  then show ?case by (simp add: parse_octets_list.simps)
next
  case (Cons x xs)
  have "parse_tlv (der_octets x @ concat (map der_octets xs)) =
      Some (4, x, concat (map der_octets xs))"
    using Cons.prems by (simp add: der_octets_def parse_tlv_tlv)
  moreover have "der_octets x @ concat (map der_octets xs) \<noteq> []"
    by (simp add: der_octets_def)
  ultimately show ?case
    using Cons by (subst parse_octets_list.simps) simp
qed

lemma unmarshal_marshal_octets_list:
  assumes "\<And>x. x \<in> set xs \<Longrightarrow> length x < 2 ^ 31"
    and "length (concat (map der_octets xs)) < 2 ^ 31"
  shows "unmarshal_octets_list (marshal_octets_list xs @ r) = Some xs"
  using assms
  by (simp add: unmarshal_octets_list_def marshal_octets_list_def der_seq_def parse_tlv_tlv
      parse_octets_list_concat)

end
