(* ===== verification/Types.thy ===== *)
theory Types
  imports Asn1
begin

text \<open>
  The data the nodes exchange (\<^verbatim>\<open>src/common/types\<close>) and the fault-tolerance parameters
  (\<^verbatim>\<open>src/common/utils/state.go\<close>): identifiers of batches, batch attestation fragments with their
  protobuf conversion and their signed bytes, batches of requests with their codec and digest, node
  identities, and signature domains.

  A Go \<^verbatim>\<open>nil\<close> slice and an empty slice are the same list, except for the two signature fields of a
  fragment, which are options because the code treats \<^verbatim>\<open>nil\<close> and empty differently there.
\<close>

type_synonym ShardID = u16
type_synonym PartyID = u16
type_synonym BatchSequence = u64
type_synonym DecisionNum = u64
type_synonym ConfigSequence = u64

definition ShardIDConsensus :: ShardID where
  "ShardIDConsensus = 65535"

section \<open>Fault tolerance parameters\<close>

text \<open>
  The quorum is computed in floating point and is exact there: both operands are at most 17 bits
  wide, so it is the ceiling of half the sum.
\<close>

definition ComputeFTQ :: "u16 \<Rightarrow> u16 \<times> u16 \<times> u16" where
  "ComputeFTQ n =
     (let f = (n - 1) div 3;
          threshold = f + 1;
          quorum = of_nat ((unat n + unat f + 1 + 1) div 2)
      in (f, threshold, quorum))"

section \<open>Batch identifiers and batches\<close>

text \<open>The interface \<^verbatim>\<open>BatchID\<close>; what implements it extends the record.\<close>

record BatchID =
  Shard :: ShardID
  Primary :: PartyID
  Seq :: BatchSequence
  Digest :: bytes

definition BatchIDEqual :: "'a BatchID_scheme \<Rightarrow> 'b BatchID_scheme \<Rightarrow> bool" where
  "BatchIDEqual a b \<longleftrightarrow>
     Shard a = Shard b \<and> Primary a = Primary b \<and> Seq a = Seq b \<and> Digest a = Digest b"

type_synonym BatchedRequests = "bytes list"

definition BatchedRequests_Serialize :: "BatchedRequests \<Rightarrow> bytes" where
  "BatchedRequests_Serialize br = concat (map (\<lambda>r. put32 (of_nat (length r)) @ r) br)"

function BatchedRequests_loop :: "bytes \<Rightarrow> error + BatchedRequests" where
  "BatchedRequests_loop bs =
     (if bs = [] then Inr []
      else if length bs < 4 then Inl (ErrNew ''size of req is not encoded correctly'')
      else let size = unat (get32 (slice 0 4 bs)); rest = drop 4 bs in
        if length rest < size then Inl (ErrNew ''there is no req with a size'')
        else (case BatchedRequests_loop (drop size rest) of
                Inl e \<Rightarrow> Inl e
              | Inr br \<Rightarrow> Inr (take size rest # br)))"
  by pat_completeness auto
termination
  by (relation "measure length") auto

declare BatchedRequests_loop.simps [simp del]

definition BatchedRequests_Deserialize :: "bytes \<Rightarrow> error + BatchedRequests" where
  "BatchedRequests_Deserialize bs =
     (if bs = [] then Inl (ErrNew ''nil bytes'') else BatchedRequests_loop bs)"

definition BatchedRequests_SizeBytes :: "BatchedRequests \<Rightarrow> int" where
  "BatchedRequests_SizeBytes br = foldl (\<lambda>s r. s + int (length r)) 0 br"

text \<open>
  \<^verbatim>\<open>sha256.New()\<close> with \<^verbatim>\<open>Write\<close> and \<^verbatim>\<open>Sum\<close>: the hash of everything written so far. The hash function
  itself is a parameter.
\<close>

definition BatchedRequests_Digest :: "(bytes \<Rightarrow> bytes) \<Rightarrow> BatchedRequests \<Rightarrow> bytes" where
  "BatchedRequests_Digest sha256 br =
     sha256 (foldl (\<lambda>h r. (h @ put32 (of_nat (length r))) @ r) [] br)"

definition BatchRequestsDataHashWithSerialize :: "(bytes \<Rightarrow> bytes) \<Rightarrow> BatchedRequests \<Rightarrow> bytes" where
  "BatchRequestsDataHashWithSerialize sha256 br = sha256 (BatchedRequests_Serialize br)"

record SimpleBatch = BatchID +
  Requests :: BatchedRequests
  BatchConfigSequence :: ConfigSequence
  BatchPrimarySignature :: bytes

definition NewSimpleBatch ::
  "(bytes \<Rightarrow> bytes) \<Rightarrow> ShardID \<Rightarrow> PartyID \<Rightarrow> BatchSequence \<Rightarrow> BatchedRequests \<Rightarrow> ConfigSequence \<Rightarrow>
   bytes \<Rightarrow> SimpleBatch" where
  "NewSimpleBatch sha256 shard primary seq requests configSequence primarySignature =
     \<lparr>Shard = shard, Primary = primary, Seq = seq,
      Digest = BatchedRequests_Digest sha256 requests, Requests = requests,
      BatchConfigSequence = configSequence, BatchPrimarySignature = primarySignature\<rparr>"

section \<open>Signature domains\<close>

definition DomainBAF :: string where
  "DomainBAF = ''arma.baf''"

definition DomainComplaint :: string where
  "DomainComplaint = ''arma.complaint''"

definition DomainAssemblerDecisionReport :: string where
  "DomainAssemblerDecisionReport = ''arma.assembler_decision_report''"

definition PrefixWithDomain :: "string \<Rightarrow> bytes \<Rightarrow> fault + bytes" where
  "PrefixWithDomain domain msg =
     (let tag = map of_char domain in
      if length tag > 65535 then Inl (Panicked ''signature domain tag exceeds 65535 bytes'')
      else Inr (put16 (of_nat (length tag)) @ tag @ msg))"

section \<open>Batch attestation fragments\<close>

record BAF = BatchID +
  Signer :: PartyID
  Signature :: "bytes option"
  PrimarySignature :: "bytes option"
  ConfigSeq :: ConfigSequence
  TXCount :: u64

definition NewSimpleBatchAttestationFragment ::
  "ShardID \<Rightarrow> PartyID \<Rightarrow> BatchSequence \<Rightarrow> bytes \<Rightarrow> PartyID \<Rightarrow> ConfigSequence \<Rightarrow> u64 \<Rightarrow>
   bytes option \<Rightarrow> BAF" where
  "NewSimpleBatchAttestationFragment shard primary seq digest signer configSqn txCount primarySignature =
     \<lparr>Shard = shard, Primary = primary, Seq = seq, Digest = digest, Signer = signer,
      Signature = None, PrimarySignature = primarySignature, ConfigSeq = configSqn,
      TXCount = txCount\<rparr>"

text \<open>The bytes of a slice that may be nil, as \<^verbatim>\<open>len\<close> and the protobuf wire format see them.\<close>

definition nil_bytes :: "bytes option \<Rightarrow> bytes" where
  "nil_bytes b = (case b of None \<Rightarrow> [] | Some bs \<Rightarrow> bs)"

record pBAF =
  pbShard :: u32
  pbPrimary :: u32
  pbSeq :: u64
  pbDigest :: bytes
  pbConfigSequence :: u64
  pbTxCount :: u64
  pbSigner :: u32
  pbSignature :: bytes
  pbPrimarySignature :: bytes

definition BAF_ToProto :: "BAF \<Rightarrow> pBAF" where
  "BAF_ToProto s =
     \<lparr>pbShard = ucast (Shard s), pbPrimary = ucast (Primary s), pbSeq = Seq s,
      pbDigest = Digest s, pbConfigSequence = ConfigSeq s, pbTxCount = TXCount s,
      pbSigner = ucast (Signer s), pbSignature = nil_bytes (Signature s),
      pbPrimarySignature = nil_bytes (PrimarySignature s)\<rparr>"

definition MaxUint16 :: u32 where
  "MaxUint16 = 65535"

definition BAF_FromProto :: "pBAF option \<Rightarrow> error + BAF" where
  "BAF_FromProto pbo =
     (case pbo of
        None \<Rightarrow> Inl (ErrNew ''nil protobuf message'')
      | Some pb \<Rightarrow>
          if pbShard pb > MaxUint16
            then Inl (ErrNew ''the BAF Shard value exceeds uint16 maximum'')
          else if pbPrimary pb > MaxUint16
            then Inl (ErrNew ''the BAF Primary value exceeds uint16 maximum'')
          else if pbSigner pb > MaxUint16
            then Inl (ErrNew ''the BAF Signer value exceeds uint16 maximum'')
          else Inr
            \<lparr>Shard = ucast (pbShard pb), Primary = ucast (pbPrimary pb), Seq = pbSeq pb,
             Digest = pbDigest pb, Signer = ucast (pbSigner pb),
             Signature = Some (pbSignature pb),
             PrimarySignature =
               (if length (pbPrimarySignature pb) = 0 then None else Some (pbPrimarySignature pb)),
             ConfigSeq = pbConfigSequence pb, TXCount = pbTxCount pb\<rparr>)"

definition BAF_Serialize :: "pBAF proto_lib \<Rightarrow> BAF \<Rightarrow> fault + bytes" where
  "BAF_Serialize P s =
     (case Marshal P (BAF_ToProto s) of
        Inl e \<Rightarrow> Inl (Panicked ''proto.Marshal'')
      | Inr bs \<Rightarrow> Inr bs)"

definition BAF_Deserialize :: "pBAF proto_lib \<Rightarrow> bytes \<Rightarrow> error + BAF" where
  "BAF_Deserialize P bs =
     (case Unmarshal P bs of
        Inl e \<Rightarrow> Inl e
      | Inr pb \<Rightarrow> BAF_FromProto (Some pb))"

definition asn1BAF_unsigned :: "BAF \<Rightarrow> bytes" where
  "asn1BAF_unsigned s = der_seq
     (der_int (uint (Shard s)) @ der_int (uint (Primary s)) @ der_int (uint (Seq s)) @
      der_octets (Digest s) @ der_int (uint (ConfigSeq s)) @ der_int (uint (TXCount s)) @
      der_int (uint (Signer s)) @ der_octets [] @ der_octets [])"

definition BAF_ToBeSigned :: "BAF \<Rightarrow> fault + bytes" where
  "BAF_ToBeSigned s = PrefixWithDomain DomainBAF (asn1BAF_unsigned s)"

section \<open>Node identities\<close>

datatype NodeRole = RoleUnknown | RoleRouter | RoleBatcher | RoleConsenter | RoleAssembler

record NodeIdentity =
  niPartyID :: PartyID
  niRole :: NodeRole
  niShardID :: ShardID

definition NewBatcherIdentity :: "PartyID \<Rightarrow> ShardID \<Rightarrow> NodeIdentity" where
  "NewBatcherIdentity partyID shardID =
     \<lparr>niPartyID = partyID, niRole = RoleBatcher, niShardID = shardID\<rparr>"

definition NewRouterIdentity :: "PartyID \<Rightarrow> NodeIdentity" where
  "NewRouterIdentity partyID = \<lparr>niPartyID = partyID, niRole = RoleRouter, niShardID = 0\<rparr>"

definition NewConsenterIdentity :: "PartyID \<Rightarrow> NodeIdentity" where
  "NewConsenterIdentity partyID = \<lparr>niPartyID = partyID, niRole = RoleConsenter, niShardID = 0\<rparr>"

definition NewAssemblerIdentity :: "PartyID \<Rightarrow> NodeIdentity" where
  "NewAssemblerIdentity partyID = \<lparr>niPartyID = partyID, niRole = RoleAssembler, niShardID = 0\<rparr>"

section \<open>Properties\<close>

subsection \<open>Fault tolerance parameters\<close>

lemma unat_div_u16: "unat ((a :: u16) div 3) = unat a div 3"
  by (simp add: unat_div)

lemma ComputeFTQ_values:
  assumes "1 \<le> n" "ComputeFTQ n = (f, t, q)"
  shows "unat f = (unat n - 1) div 3" "unat t = unat f + 1"
    "unat q = (unat n + unat f + 2) div 2"
proof -
  have n: "1 \<le> unat n" "unat n < 65536"
    using assms(1) unat_less_2p [of n] by (simp_all add: word_le_nat_alt)
  have f: "f = (n - 1) div 3" "t = f + 1" "q = of_nat ((unat n + unat f + 1 + 1) div 2)"
    using assms(2) by (auto simp: ComputeFTQ_def Let_def)
  have "unat (n - 1) = unat n - 1"
    using assms(1) by (simp add: unat_sub_if' word_le_nat_alt)
  with f(1) show vf: "unat f = (unat n - 1) div 3"
    by (simp add: unat_div)
  with n have "unat f + 1 < 65536" "(unat n + unat f + 2) div 2 < 65536"
    by linarith+
  with f(2,3) show "unat t = unat f + 1" "unat q = (unat n + unat f + 2) div 2"
    by (simp_all add: unat_word_ariths unat_of_nat)
qed

subsection \<open>Batched requests\<close>

text \<open>Requests whose length fits the 32-bit size field.\<close>

definition requests_fit :: "BatchedRequests \<Rightarrow> bool" where
  "requests_fit br \<longleftrightarrow> (\<forall>r\<in>set br. length r < 2 ^ 32)"

lemma requests_fit_simps [simp]:
  "requests_fit []"
  "requests_fit (r # br) \<longleftrightarrow> length r < 2 ^ 32 \<and> requests_fit br"
  by (simp_all add: requests_fit_def)

lemma Serialize_simps [simp]:
  "BatchedRequests_Serialize [] = []"
  "BatchedRequests_Serialize (r # br) =
     put32 (of_nat (length r)) @ r @ BatchedRequests_Serialize br"
  by (simp_all add: BatchedRequests_Serialize_def)

lemma put32_nonempty [simp]: "put32 w \<noteq> []"
  using length_put(2) [of w] by fastforce

lemma Serialize_eq_Nil [simp]: "BatchedRequests_Serialize br = [] \<longleftrightarrow> br = []"
  by (cases br) auto

lemma loop_Serialize: "requests_fit br \<Longrightarrow> BatchedRequests_loop (BatchedRequests_Serialize br) = Inr br"
proof (induction br)
  case Nil
  then show ?case by (simp add: BatchedRequests_loop.simps)
next
  case (Cons r br)
  then have "unat (of_nat (length r) :: u32) = length r"
    by (simp add: unat_of_nat)
  with Cons show ?case
    by (subst BatchedRequests_loop.simps) (simp add: codec_simps)
qed

lemma put32_get32:
  assumes "4 \<le> length bs"
  shows "put32 (get32 (slice 0 4 bs)) = take 4 bs"
proof -
  have "be_get (take 4 bs) < 2 ^ 32"
    using be_get_less [of "take 4 bs"] assms by simp
  then have "unat (of_nat (be_get (take 4 bs)) :: u32) = be_get (take 4 bs)"
    by (simp add: unat_of_nat)
  then show ?thesis
    using assms be_put_get [of "take 4 bs"]
    by (simp add: put32_def get32_def slice_def)
qed

lemma loop_sound:
  "BatchedRequests_loop bs = Inr br \<Longrightarrow> requests_fit br \<and> BatchedRequests_Serialize br = bs"
proof (induction bs arbitrary: br rule: BatchedRequests_loop.induct)
  case (1 bs)
  define size where "size = unat (get32 (slice 0 4 bs))"
  show ?case
  proof (cases "bs = []")
    case True
    with "1.prems" show ?thesis by (simp add: BatchedRequests_loop.simps)
  next
    case False
    with "1.prems" obtain br' where l: "4 \<le> length bs" "size \<le> length (drop 4 bs)"
      and rec: "BatchedRequests_loop (drop size (drop 4 bs)) = Inr br'"
      and br: "br = take size (drop 4 bs) # br'"
      by (subst (asm) BatchedRequests_loop.simps)
        (auto simp: size_def Let_def split: if_splits sum.splits)
    have IH: "requests_fit br'" "BatchedRequests_Serialize br' = drop size (drop 4 bs)"
      using "1.IH" [OF False _ refl refl, of br'] l rec by (auto simp: size_def)
    have w: "of_nat (length (take size (drop 4 bs))) = get32 (slice 0 4 bs)"
      using l by (simp add: size_def)
    have "size < 2 ^ 32"
      using unat_less_2p [of "get32 (slice 0 4 bs)"] by (simp add: size_def)
    then have "requests_fit br"
      using IH(1) l by (simp add: br)
    moreover have "BatchedRequests_Serialize br = take 4 bs @ drop 4 bs"
      using put32_get32 [OF l(1)] w IH(2) unfolding br Serialize_simps
      by (simp only: append_take_drop_id)
    ultimately show ?thesis by simp
  qed
qed

interpretation br: canonical_codec BatchedRequests_Serialize BatchedRequests_Deserialize
  "\<lambda>br. br \<noteq> [] \<and> requests_fit br"
proof
  show "BatchedRequests_Deserialize (BatchedRequests_Serialize x) = Inr x"
    if "x \<noteq> [] \<and> requests_fit x" for x
    using that by (simp add: BatchedRequests_Deserialize_def loop_Serialize)
  show "(x \<noteq> [] \<and> requests_fit x) \<and> BatchedRequests_Serialize x = bs"
    if "BatchedRequests_Deserialize bs = Inr x" for bs x
    using that loop_sound [of bs x]
    by (auto simp: BatchedRequests_Deserialize_def split: if_splits)
qed

lemma Digest_fold:
  "foldl (\<lambda>h r. h @ put32 (of_nat (length r)) @ r) acc br = acc @ BatchedRequests_Serialize br"
  by (induction br arbitrary: acc) auto

lemma Digest_eq_reference:
  "BatchedRequests_Digest sha256 br = BatchRequestsDataHashWithSerialize sha256 br"
  by (simp add: BatchedRequests_Digest_def BatchRequestsDataHashWithSerialize_def Digest_fold)

lemma SizeBytes_fold: "foldl (\<lambda>s r. s + int (length r)) a br = a + int (length (concat br))"
  by (induction br arbitrary: a) auto

lemma SizeBytes_concat: "BatchedRequests_SizeBytes br = int (length (concat br))"
  by (simp add: BatchedRequests_SizeBytes_def SizeBytes_fold)

lemma length_Serialize: "length (BatchedRequests_Serialize br) = length (concat br) + 4 * length br"
  by (induction br) auto

subsection \<open>Signature domains\<close>

lemma of_char_inject [simp]: "(of_char c :: byte) = of_char d \<longleftrightarrow> c = d"
proof
  assume "(of_char c :: byte) = of_char d"
  then have "unat (of_nat (of_char c) :: byte) = unat (of_nat (of_char d) :: byte)"
    by (simp only: of_nat_of_char)
  then have "(of_char c :: nat) = of_char d"
    by (simp only: unat_of_nat) (simp add: take_bit_eq_mod)
  then show "c = d" by simp
qed simp

lemma map_of_char_inject [simp]: "map (of_char :: char \<Rightarrow> byte) s = map of_char t \<longleftrightarrow> s = t"
  by (rule inj_map_eq_map) (simp add: inj_def)

lemma PrefixWithDomain_inject:
  assumes "PrefixWithDomain d m = Inr x" "PrefixWithDomain d' m' = Inr x"
  shows "d = d' \<and> m = m'"
proof -
  have l: "length d \<le> 65535" "length d' \<le> 65535"
    and x: "put16 (of_nat (length d)) @ map of_char d @ m =
      put16 (of_nat (length d')) @ map of_char d' @ m'"
    using assms by (auto simp: PrefixWithDomain_def Let_def split: if_splits)
  then have "(of_nat (length d) :: u16) = of_nat (length d')"
    and t: "map of_char d @ m = (map of_char d' @ m' :: bytes)"
    by (metis append_eq_append_conv length_put(1) put16_inject)+
  then have "unat (of_nat (length d) :: u16) = unat (of_nat (length d') :: u16)"
    by simp
  with l have "length d = length d'"
    by (simp add: unat_of_nat)
  with t show ?thesis by simp
qed

subsection \<open>Batch attestation fragments\<close>

lemma unat_ucast16_32 [simp]: "unat (ucast (x :: u16) :: u32) = unat x"
  using unat_less_2p [of x] by (simp add: unsigned_ucast_eq take_bit_nat_eq_self)

lemma ucast16_32 [simp]: "ucast (ucast (x :: u16) :: u32) = x"
  by (simp add: word_unat_eq_iff unsigned_ucast_eq take_bit_word_eq_self)

lemma ucast16_le_Max [simp]: "\<not> MaxUint16 < ucast (x :: u16)"
proof -
  have "unat x < 65536"
    using unat_less_2p [of x] by simp
  then show ?thesis
    by (simp add: MaxUint16_def word_less_nat_alt)
qed

text \<open>What a fragment looks like after a trip through its protobuf form.\<close>

definition BAF_normal :: "BAF \<Rightarrow> bool" where
  "BAF_normal s \<longleftrightarrow> Signature s \<noteq> None \<and> PrimarySignature s \<noteq> Some []"

lemma BAF_From_To:
  "BAF_FromProto (Some (BAF_ToProto s)) =
     Inr (s\<lparr>Signature := Some (nil_bytes (Signature s)),
            PrimarySignature := (if nil_bytes (PrimarySignature s) = [] then None
                                 else PrimarySignature s)\<rparr>)"
  by (auto simp: BAF_FromProto_def BAF_ToProto_def nil_bytes_def split: option.splits)

lemma BAF_From_To_normal: "BAF_normal s \<Longrightarrow> BAF_FromProto (Some (BAF_ToProto s)) = Inr s"
  by (auto simp: BAF_From_To BAF_normal_def nil_bytes_def split: option.splits)

lemma BAF_FromProto_normal: "BAF_FromProto pb = Inr s \<Longrightarrow> BAF_normal s"
  by (auto simp: BAF_FromProto_def BAF_normal_def split: option.splits if_splits)

lemma DER_bounds:
  "length (der_octets []) \<le> 10"
  "length d < 2 ^ 63 \<Longrightarrow> length (der_octets d) \<le> length d + 10"
  using length_tlv [of "[]" 4] length_tlv [of d 4] by (simp_all add: der_octets_def)

lemma asn1BAF_unsigned_inject:
  assumes "length (Digest a) < 2 ^ 63" "length (Digest b) < 2 ^ 63"
    and "asn1BAF_unsigned a = asn1BAF_unsigned b"
  shows "Shard a = Shard b \<and> Primary a = Primary b \<and> Seq a = Seq b \<and> Digest a = Digest b \<and>
    ConfigSeq a = ConfigSeq b \<and> TXCount a = TXCount b \<and> Signer a = Signer b"
proof -
  define body where "body s =
    der_int (uint (Shard s)) @ der_int (uint (Primary s)) @ der_int (uint (Seq s)) @
    der_octets (Digest s) @ der_int (uint (ConfigSeq s)) @ der_int (uint (TXCount s)) @
    der_int (uint (Signer s)) @ der_octets [] @ der_octets []" for s :: BAF
  have len: "length (body s) < 2 ^ 64" if "length (Digest s) < 2 ^ 63" for s
    using fits64_length_der_int [OF fits64_uint(2) [of "Shard s"]]
      fits64_length_der_int [OF fits64_uint(2) [of "Primary s"]]
      fits64_length_der_int [OF fits64_uint(2) [of "Signer s"]]
      fits64_length_der_int [OF fits64_uint(1) [of "Seq s"]]
      fits64_length_der_int [OF fits64_uint(1) [of "ConfigSeq s"]]
      fits64_length_der_int [OF fits64_uint(1) [of "TXCount s"]]
      DER_bounds(1) DER_bounds(2) [OF that] that
    by (simp add: body_def)
  have l64: "length (Digest a) < 2 ^ 64" "length (Digest b) < 2 ^ 64"
    using assms(1,2) by simp_all
  have "body a = body b"
    using assms(3) len [OF assms(1)] len [OF assms(2)]
      tlv_append_inject [of "body a" "body b" 48 "[]" 48 "[]"]
    by (simp add: asn1BAF_unsigned_def der_seq_def body_def)
  then show ?thesis
    unfolding body_def
    by (simp only: der_int_append_inject fits64_uint der_octets_append_inject l64)
      (simp add: word_uint_eq_iff)
qed

section \<open>Guarantees\<close>

text \<open>
  (C7) For every \<open>n \<ge> 1\<close> the computed parameters tolerate \<open>f\<close> faults: \<open>f\<close> is the largest number
  with \<open>3f + 1 \<le> n\<close>, the threshold is \<open>f + 1\<close>, two quorums share more than \<open>f\<close> nodes, and the nodes
  that are not faulty form a quorum. None of the 16-bit operations wraps around.
\<close>
theorem ftq_tolerates_faults:
  assumes "1 \<le> n" "ComputeFTQ n = (f, t, q)"
  shows "3 * unat f + 1 \<le> unat n \<and> unat n \<le> 3 * unat f + 3 \<and> unat t = unat f + 1 \<and>
    unat n + unat f + 1 \<le> 2 * unat q \<and> unat q + unat f \<le> unat n"
proof -
  have "1 \<le> unat n"
    using assms(1) by (simp add: word_le_nat_alt)
  then show ?thesis
    using ComputeFTQ_values [OF assms] by (intro conjI) linarith+
qed

theorem ftq_tolerates_faults_witness:
  "unat (4 :: u16) + unat (1 :: u16) + 1 \<le> 2 * unat (3 :: u16)"
proof -
  have "ComputeFTQ 4 = (1, 2, 3)"
    by code_simp
  from ftq_tolerates_faults [OF _ this] show ?thesis by simp
qed

text \<open>
  (C10) The reader of serialized batches accepts exactly the bytes the writer produces for non-empty
  batches whose requests fit the 32-bit size field, and returns that batch: serialized batches are
  read back, and no two byte strings stand for one batch.
\<close>
theorem batched_requests_codec:
  "BatchedRequests_Deserialize bs = Inr reqs \<longleftrightarrow>
     (reqs \<noteq> [] \<and> requests_fit reqs) \<and> bs = BatchedRequests_Serialize reqs"
  by (rule br.dec_iff)

text \<open>
  (C11) The digest computed request by request equals the reference definition that hashes the
  serialized batch, and two batches with the same digest are equal unless the hash function collides.
\<close>
theorem digest_binds_batch:
  assumes "requests_fit a" "requests_fit b"
  shows "BatchedRequests_Digest sha256 a = BatchRequestsDataHashWithSerialize sha256 a \<and>
    (BatchedRequests_Digest sha256 a = BatchedRequests_Digest sha256 b \<longrightarrow>
     a = b \<or> (\<exists>x y. x \<noteq> y \<and> sha256 x = sha256 y))"
proof -
  have "a = b" if "BatchedRequests_Serialize a = BatchedRequests_Serialize b"
    using loop_Serialize [OF assms(1)] loop_Serialize [OF assms(2)] unfolding that by simp
  then have "a = b \<or> (\<exists>x y. x \<noteq> y \<and> sha256 x = sha256 y)"
    if "sha256 (BatchedRequests_Serialize a) = sha256 (BatchedRequests_Serialize b)"
    using that by (cases "BatchedRequests_Serialize a = BatchedRequests_Serialize b") auto
  then show ?thesis
    unfolding Digest_eq_reference BatchRequestsDataHashWithSerialize_def by (intro conjI impI refl)
qed

theorem digest_binds_batch_witness:
  "BatchedRequests_Digest (\<lambda>bs. rev bs) [[1], [2, 3]] =
     BatchRequestsDataHashWithSerialize (\<lambda>bs. rev bs) [[1], [2, 3]]"
  using digest_binds_batch [of "[[1], [2, 3]]" "[]" "\<lambda>bs. rev bs"] by simp

end
