(* ===== verification/Fabric.thy ===== *)
theory Fabric
  imports Types
begin

text \<open>
  The Fabric messages that the repository reads and writes (package \<^verbatim>\<open>common\<close> of
  \<^verbatim>\<open>fabric-protos-go-apiv2\<close>), with the fields it uses. The functions of \<^verbatim>\<open>fabric-x-common\<close> that parse
  them are parameters: a record of functions that the operations take as an argument.
\<close>

record Envelope =
  envPayload :: bytes
  envSignature :: bytes

record PayloadHeader =
  phChannelHeader :: bytes
  phSignatureHeader :: bytes

record Payload =
  plHeader :: "PayloadHeader option"
  plData :: bytes

record ConfigEnvelope =
  ceConfigSequence :: "u64 option"
  ceLastUpdate :: "Envelope option"

record ChannelHeader =
  chType :: int
  chTxId :: string
  chChannelId :: string

definition HeaderType_CONFIG_UPDATE :: int where
  "HeaderType_CONFIG_UPDATE = 2"

definition HeaderType_CONFIG :: int where
  "HeaderType_CONFIG = 1"

record fabric_lib =
  UnmarshalPayload :: "bytes \<Rightarrow> error + Payload"
  UnmarshalConfigEnvelope :: "bytes \<Rightarrow> error + ConfigEnvelope"
  UnmarshalChannelHeader :: "bytes \<Rightarrow> error + ChannelHeader"
  MarshalEnvelope :: "Envelope \<Rightarrow> error + bytes"
  UnmarshalEnvelope :: "bytes \<Rightarrow> error + Envelope"

text \<open>Blocks: a header, the data and the metadata slots, each of which may be a nil pointer.\<close>

record BlockHeader =
  bhNumber :: u64
  bhPreviousHash :: bytes
  bhDataHash :: bytes

record Block =
  blkHeader :: "BlockHeader option"
  blkData :: "bytes list option"
  blkMetadata :: "bytes list option"

text \<open>The positions of the metadata slots (\<^verbatim>\<open>common.BlockMetadataIndex\<close>).\<close>

definition BlockMetadataIndex_SIGNATURES :: nat where
  "BlockMetadataIndex_SIGNATURES = 0"

definition BlockMetadataIndex_LAST_CONFIG :: nat where
  "BlockMetadataIndex_LAST_CONFIG = 1"

definition BlockMetadataIndex_TRANSACTIONS_FILTER :: nat where
  "BlockMetadataIndex_TRANSACTIONS_FILTER = 2"

definition BlockMetadataIndex_ORDERER :: nat where
  "BlockMetadataIndex_ORDERER = 3"

definition BlockMetadataIndex_COMMIT_HASH :: nat where
  "BlockMetadataIndex_COMMIT_HASH = 4"

text \<open>\<^verbatim>\<open>xs[i]\<close> on a Go slice panics out of range.\<close>

definition index :: "'a list \<Rightarrow> nat \<Rightarrow> fault + 'a" where
  "index xs i = (if i < length xs then Inr (xs ! i) else Inl IndexOutOfRange)"

lemma index_Inr_iff: "index xs i = Inr x \<longleftrightarrow> i < length xs \<and> xs ! i = x"
  by (auto simp: index_def)

section \<open>Messages of the block metadata\<close>

record MetadataSignature =
  msSignatureHeader :: bytes
  msSignature :: bytes
  msIdentifierHeader :: bytes

record Metadata =
  mdValue :: bytes
  mdSignatures :: "MetadataSignature list"

text \<open>The protobuf codecs of the messages the code embeds in blocks.\<close>

record block_wire =
  wMetadata :: "Metadata proto_lib"
  wLastConfig :: "u64 proto_lib"
  wBlockHeader :: "BlockHeader proto_lib"
  wBlock :: "Block proto_lib"

definition MarshalOrPanic :: "'m proto_lib \<Rightarrow> 'm \<Rightarrow> fault + bytes" where
  "MarshalOrPanic P m = wrap_err (\<lambda>e. Panicked ''MarshalOrPanic'') (Marshal P m)"

lemma MarshalOrPanic_faithful:
  "wire_faithful P m \<Longrightarrow> \<exists>bs. MarshalOrPanic P m = Inr bs \<and> Unmarshal P bs = Inr m"
  by (elim wire_faithfulE) (simp add: MarshalOrPanic_def)

section \<open>Block utilities of \<^verbatim>\<open>protoutil\<close>\<close>

definition NewBlock :: "u64 \<Rightarrow> bytes \<Rightarrow> Block" where
  "NewBlock seqNum previousHash =
     \<lparr>blkHeader = Some \<lparr>bhNumber = seqNum, bhPreviousHash = previousHash, bhDataHash = []\<rparr>,
      blkData = Some [], blkMetadata = Some (replicate 5 [])\<rparr>"

definition BlockHeaderBytes :: "BlockHeader \<Rightarrow> bytes" where
  "BlockHeaderBytes h = der_seq
     (der_int (uint (bhNumber h)) @ der_octets (bhPreviousHash h) @ der_octets (bhDataHash h))"

definition BlockHeaderHash :: "(bytes \<Rightarrow> bytes) \<Rightarrow> BlockHeader \<Rightarrow> bytes" where
  "BlockHeaderHash sha256 h = sha256 (BlockHeaderBytes h)"

definition ComputeBlockDataHash :: "(bytes \<Rightarrow> bytes) \<Rightarrow> bytes list \<Rightarrow> bytes" where
  "ComputeBlockDataHash sha256 data =
     sha256 (foldl (\<lambda>h d. (h @ put32 (of_nat (length d))) @ d) [] data)"

definition InitBlockMetadata :: "Block \<Rightarrow> Block" where
  "InitBlockMetadata block =
     (case blkMetadata block of
        None \<Rightarrow> block\<lparr>blkMetadata := Some (replicate 5 [])\<rparr>
      | Some md \<Rightarrow>
          if length md < BlockMetadataIndex_COMMIT_HASH + 1
          then block\<lparr>blkMetadata := Some (md @ replicate (BlockMetadataIndex_COMMIT_HASH + 1 - length md) [])\<rparr>
          else block)"

definition GetMetadataFromBlock :: "'z block_wire_scheme \<Rightarrow> Block \<Rightarrow> nat \<Rightarrow> error + Metadata" where
  "GetMetadataFromBlock W block i =
     (case blkMetadata block of
        None \<Rightarrow> Inl (ErrNew ''no metadata in block'')
      | Some md \<Rightarrow>
          if length md \<le> i then Inl (ErrNew ''no metadata at index'')
          else wrap_err (\<lambda>e. ErrWrap e ''error unmarshalling metadata at index'')
                 (Unmarshal (wMetadata W) (md ! i)))"

lemma BlockHeaderBytes_inject:
  assumes "length (bhPreviousHash a) < 2 ^ 31" "length (bhDataHash a) < 2 ^ 31"
    and "length (bhPreviousHash b) < 2 ^ 31" "length (bhDataHash b) < 2 ^ 31"
  shows "BlockHeaderBytes a = BlockHeaderBytes b \<longleftrightarrow> a = b"
proof
  define body where "body h = der_int (uint (bhNumber h)) @ der_octets (bhPreviousHash h) @
    der_octets (bhDataHash h)" for h :: BlockHeader
  have len: "length (body h) < 2 ^ 64"
    if "length (bhPreviousHash h) < 2 ^ 31" "length (bhDataHash h) < 2 ^ 31" for h
    using fits64_length_der_int [OF fits64_uint(1) [of "bhNumber h"]] that
      DER_bounds(2) [of "bhPreviousHash h"] DER_bounds(2) [of "bhDataHash h"]
    by (simp add: body_def)
  assume "BlockHeaderBytes a = BlockHeaderBytes b"
  then have "body a @ [] = body b @ []"
    using len [OF assms(1,2)] len [OF assms(3,4)]
      tlv_append_inject [of "body a" "body b" 48 "[]" 48 "[]"]
    by (simp add: BlockHeaderBytes_def der_seq_def body_def)
  moreover have "length (bhPreviousHash a) < 2 ^ 64" "length (bhDataHash a) < 2 ^ 64"
    "length (bhPreviousHash b) < 2 ^ 64" "length (bhDataHash b) < 2 ^ 64"
    using assms by simp_all
  ultimately show "a = b"
    unfolding body_def append_assoc
    by (simp only: der_int_append_inject fits64_uint der_octets_append_inject)
      (simp add: word_uint_eq_iff)
qed simp

end
