(* ===== verification/ControlEvents.thy ===== *)
theory ControlEvents
  imports Fabric
begin

text \<open>
  The items consensus orders (\<^verbatim>\<open>src/node/consensus/state\<close>): available batches, complaints, assembler
  decision reports, configuration requests, and the control event that carries one of them, each
  with its byte or protobuf codec, the bytes its sender signs and its identifier.

  A configuration request always holds an envelope: both places that build one set the pointer.
  The only implementation of the fragment interface is the one of \<^verbatim>\<open>simple_baf.go\<close>. Deserializing an
  available batch from a nil slice gives an error with another message in the code; here a nil and
  an empty slice are one list, whose length is refused.
\<close>

section \<open>Available batches\<close>

definition availableBatchDigestSize :: nat where
  "availableBatchDigestSize = 32"

definition availableBatchSerializedSize :: nat where
  "availableBatchSerializedSize = 2 + 2 + 8 + availableBatchDigestSize"

definition NewAvailableBatch :: "PartyID \<Rightarrow> ShardID \<Rightarrow> BatchSequence \<Rightarrow> bytes \<Rightarrow> BatchID" where
  "NewAvailableBatch primary shard seq digest =
     \<lparr>Shard = shard, Primary = primary, Seq = seq, Digest = digest\<rparr>"

text \<open>\<^verbatim>\<open>copy\<close> into a zeroed buffer of \<open>n\<close> bytes: the source is cut or padded with zeros.\<close>

definition copy_zeroed :: "nat \<Rightarrow> bytes \<Rightarrow> bytes" where
  "copy_zeroed n bs = take n bs @ replicate (n - length bs) 0"

definition AvailableBatch_Serialize :: "BatchID \<Rightarrow> bytes" where
  "AvailableBatch_Serialize ab =
     put16 (Primary ab) @ put16 (Shard ab) @ put64 (Seq ab) @
     copy_zeroed availableBatchDigestSize (Digest ab)"

definition AvailableBatch_Deserialize :: "bytes \<Rightarrow> error + BatchID" where
  "AvailableBatch_Deserialize bs =
     (if length bs \<noteq> availableBatchSerializedSize
      then Inl (ErrNew ''len of bytes does not equal the available batch size'')
      else Inr \<lparr>Shard = get16 (slice 2 4 bs), Primary = get16 (slice 0 2 bs),
                Seq = get64 (slice 4 12 bs), Digest = drop 12 bs\<rparr>)"

section \<open>Complaints\<close>

record ShardTerm =
  stShard :: ShardID
  stTerm :: u64

record Complaint = ShardTerm +
  cSigner :: PartyID
  cSignature :: bytes
  cReason :: bytes
  cConfigSeq :: ConfigSequence

definition Complaint_Bytes :: "Complaint \<Rightarrow> bytes" where
  "Complaint_Bytes c =
     (let reasonLen = min (length (cReason c)) 65535 in
      put64 (cConfigSeq c) @ put16 (stShard c) @ put64 (stTerm c) @ put16 (cSigner c) @
      put16 (of_nat (length (cSignature c))) @ cSignature c @
      put16 (of_nat reasonLen) @ take reasonLen (cReason c))"

definition Complaint_FromBytes :: "bytes \<Rightarrow> error + Complaint" where
  "Complaint_FromBytes bs =
     (if length bs < 24 then Inl (ErrNew ''input too small'')
      else let sigSize = unat (get16 (slice 20 22 bs)); sigEnd = 22 + sigSize in
        if sigEnd + 2 > length bs then Inl (ErrNew ''input too small for signature'')
        else let rSize = unat (get16 (slice sigEnd (sigEnd + 2) bs));
                 reasonEnd = sigEnd + 2 + rSize in
          if reasonEnd > length bs then Inl (ErrNew ''input too small for reason'')
          else Inr \<lparr>stShard = get16 (slice 8 10 bs), stTerm = get64 (slice 10 18 bs),
                    cSigner = get16 (slice 18 20 bs), cSignature = slice 22 sigEnd bs,
                    cReason = slice (sigEnd + 2) reasonEnd bs, cConfigSeq = get64 bs\<rparr>)"

record pComplaint =
  pcConfigSeq :: u64
  pcShard :: u32
  pcTerm :: u64
  pcSigner :: u32
  pcSignature :: bytes
  pcReason :: bytes

definition Complaint_toProto :: "Complaint \<Rightarrow> pComplaint" where
  "Complaint_toProto c =
     \<lparr>pcConfigSeq = cConfigSeq c, pcShard = ucast (stShard c), pcTerm = stTerm c,
      pcSigner = ucast (cSigner c), pcSignature = cSignature c, pcReason = cReason c\<rparr>"

definition Complaint_fromProto :: "pComplaint \<Rightarrow> error + Complaint" where
  "Complaint_fromProto pc =
     (if pcShard pc > MaxUint16
        then Inl (ErrNew ''the Complaint Shard value that exceeds uint16 maximum'')
      else if pcSigner pc > MaxUint16
        then Inl (ErrNew ''the Complaint Signer value at exceeds uint16 maximum'')
      else Inr \<lparr>stShard = ucast (pcShard pc), stTerm = pcTerm pc, cSigner = ucast (pcSigner pc),
                cSignature = pcSignature pc, cReason = pcReason pc, cConfigSeq = pcConfigSeq pc\<rparr>)"

definition Complaint_ToBeSigned :: "Complaint \<Rightarrow> fault + bytes" where
  "Complaint_ToBeSigned c =
     PrefixWithDomain DomainComplaint (Complaint_Bytes (c\<lparr>cSignature := []\<rparr>))"

section \<open>Assembler decision reports\<close>

record AssemblerDecisionReport =
  rParty :: PartyID
  rDecisionNum :: DecisionNum
  rConfigSeq :: ConfigSequence
  rSignature :: bytes

definition reportHeaderLen :: nat where
  "reportHeaderLen = 2 + 8 + 8 + 4"

definition Report_Bytes :: "AssemblerDecisionReport \<Rightarrow> bytes" where
  "Report_Bytes r =
     put16 (rParty r) @ put64 (rDecisionNum r) @ put64 (rConfigSeq r) @
     put32 (of_nat (length (rSignature r))) @ rSignature r"

definition Report_FromBytes :: "bytes \<Rightarrow> error + AssemblerDecisionReport" where
  "Report_FromBytes bs =
     (if length bs < reportHeaderLen then Inl (ErrNew ''input too small'')
      else let sigSize = unat (get32 (slice 18 22 bs)); sigEnd = reportHeaderLen + sigSize in
        if sigEnd > length bs then Inl (ErrNew ''input too small for signature'')
        else Inr \<lparr>rParty = get16 (slice 0 2 bs), rDecisionNum = get64 (slice 2 10 bs),
                  rConfigSeq = get64 (slice 10 18 bs),
                  rSignature = (if sigSize = 0 then [] else slice reportHeaderLen sigEnd bs)\<rparr>)"

definition Report_unsignedBytes :: "AssemblerDecisionReport \<Rightarrow> bytes" where
  "Report_unsignedBytes r = Report_Bytes (r\<lparr>rSignature := []\<rparr>)"

definition Report_ToBeSigned :: "AssemblerDecisionReport \<Rightarrow> fault + bytes" where
  "Report_ToBeSigned r = PrefixWithDomain DomainAssemblerDecisionReport (Report_unsignedBytes r)"

record pReport =
  prParty :: u32
  prDecisionNum :: u64
  prConfigSeq :: u64
  prSignature :: bytes

definition Report_toProto :: "AssemblerDecisionReport \<Rightarrow> pReport" where
  "Report_toProto r =
     \<lparr>prParty = ucast (rParty r), prDecisionNum = rDecisionNum r, prConfigSeq = rConfigSeq r,
      prSignature = rSignature r\<rparr>"

definition Report_fromProto :: "pReport \<Rightarrow> error + AssemblerDecisionReport" where
  "Report_fromProto pr =
     (if prParty pr = 0
        then Inl (ErrNew ''the AssemblerDecisionReport Party value must be greater than zero'')
      else if prParty pr > MaxUint16
        then Inl (ErrNew ''the AssemblerDecisionReport Party value exceeds uint16 maximum'')
      else Inr \<lparr>rParty = ucast (prParty pr), rDecisionNum = prDecisionNum pr,
                rConfigSeq = prConfigSeq pr, rSignature = prSignature pr\<rparr>)"

section \<open>Configuration requests\<close>

record ConfigRequest =
  crEnvelope :: Envelope

definition ConfigRequest_ConfigSequence :: "fabric_lib \<Rightarrow> ConfigRequest \<Rightarrow> error + ConfigSequence" where
  "ConfigRequest_ConfigSequence L c =
     (case UnmarshalPayload L (envPayload (crEnvelope c)) of
        Inl e \<Rightarrow> Inl (ErrWrap e ''failed to unmarshal payload'')
      | Inr payload \<Rightarrow>
          (case UnmarshalConfigEnvelope L (plData payload) of
             Inl e \<Rightarrow> Inl (ErrWrap e ''failed to unmarshal config envelope'')
           | Inr configEnvelope \<Rightarrow>
               (case ceConfigSequence configEnvelope of
                  None \<Rightarrow> Inl (ErrNew ''config envelope has nil config'')
                | Some sequence \<Rightarrow> Inr sequence)))"

definition lastUpdate_ID :: "fabric_lib \<Rightarrow> Envelope \<Rightarrow> error + string" where
  "lastUpdate_ID L lastUpdate =
     (case UnmarshalPayload L (envPayload lastUpdate) of
        Inl e \<Rightarrow> Inl (ErrWrap e ''failed to unmarshal last update payload'')
      | Inr lastUpdatePayload \<Rightarrow>
          (case plHeader lastUpdatePayload of
             None \<Rightarrow> Inl (ErrNew ''last update payload has nil header'')
           | Some hdr \<Rightarrow>
               (case UnmarshalChannelHeader L (phChannelHeader hdr) of
                  Inl e \<Rightarrow> Inl (ErrWrap e ''failed to unmarshal channel header'')
                | Inr channelHeader \<Rightarrow>
                    if chType channelHeader \<noteq> HeaderType_CONFIG_UPDATE
                      then Inl (ErrNew ''unexpected channel header type'')
                    else if chTxId channelHeader = ''''
                      then Inl (ErrNew ''channel header has empty tx id'')
                    else Inr (chTxId channelHeader))))"

definition ConfigRequest_ID :: "fabric_lib \<Rightarrow> ConfigRequest \<Rightarrow> error + string" where
  "ConfigRequest_ID L c =
     (case UnmarshalPayload L (envPayload (crEnvelope c)) of
        Inl e \<Rightarrow> Inl (ErrWrap e ''failed to unmarshal payload'')
      | Inr payload \<Rightarrow>
          (case UnmarshalConfigEnvelope L (plData payload) of
             Inl e \<Rightarrow> Inl (ErrWrap e ''failed to unmarshal config envelope'')
           | Inr configEnvelope \<Rightarrow>
               (case ceLastUpdate configEnvelope of
                  None \<Rightarrow> Inl (ErrNew ''config envelope has nil last update'')
                | Some lastUpdate \<Rightarrow> lastUpdate_ID L lastUpdate)))"

record pConfigRequest =
  pcrEnvelope :: bytes

definition ConfigRequest_toProto :: "fabric_lib \<Rightarrow> ConfigRequest \<Rightarrow> fault + pConfigRequest" where
  "ConfigRequest_toProto L c =
     (case MarshalEnvelope L (crEnvelope c) of
        Inl e \<Rightarrow> Inl (Panicked ''failed to marshal envelope'')
      | Inr envelopeBytes \<Rightarrow> Inr \<lparr>pcrEnvelope = envelopeBytes\<rparr>)"

definition ConfigRequest_fromProto :: "fabric_lib \<Rightarrow> pConfigRequest \<Rightarrow> error + ConfigRequest" where
  "ConfigRequest_fromProto L pc =
     (case UnmarshalEnvelope L (pcrEnvelope pc) of
        Inl e \<Rightarrow> Inl (ErrWrap e ''failed to unmarshal envelope'')
      | Inr envelope \<Rightarrow> Inr \<lparr>crEnvelope = envelope\<rparr>)"

definition ConfigRequest_Bytes ::
  "fabric_lib \<Rightarrow> pConfigRequest proto_lib \<Rightarrow> ConfigRequest \<Rightarrow> fault + bytes" where
  "ConfigRequest_Bytes L P c =
     (case ConfigRequest_toProto L c of
        Inl f \<Rightarrow> Inl f
      | Inr pc \<Rightarrow>
          (case Marshal P pc of
             Inl e \<Rightarrow> Inl (Panicked ''failed to marshal config request'')
           | Inr bs \<Rightarrow> Inr bs))"

definition ConfigRequest_FromBytes ::
  "fabric_lib \<Rightarrow> pConfigRequest proto_lib \<Rightarrow> bytes \<Rightarrow> error + ConfigRequest" where
  "ConfigRequest_FromBytes L P bs =
     (case Unmarshal P bs of
        Inl e \<Rightarrow> Inl (ErrWrap e ''failed to unmarshal config request'')
      | Inr pc \<Rightarrow> ConfigRequest_fromProto L pc)"

section \<open>Control events\<close>

record ControlEvent =
  ceBAF :: "BAF option"
  ceComplaint :: "Complaint option"
  ceConfigRequest :: "ConfigRequest option"
  ceAssemblerReport :: "AssemblerDecisionReport option"

abbreviation BAFEvent :: "BAF \<Rightarrow> ControlEvent" where
  "BAFEvent b \<equiv>
     \<lparr>ceBAF = Some b, ceComplaint = None, ceConfigRequest = None, ceAssemblerReport = None\<rparr>"

abbreviation ComplaintEvent :: "Complaint \<Rightarrow> ControlEvent" where
  "ComplaintEvent c \<equiv>
     \<lparr>ceBAF = None, ceComplaint = Some c, ceConfigRequest = None, ceAssemblerReport = None\<rparr>"

abbreviation ConfigEvent :: "ConfigRequest \<Rightarrow> ControlEvent" where
  "ConfigEvent r \<equiv>
     \<lparr>ceBAF = None, ceComplaint = None, ceConfigRequest = Some r, ceAssemblerReport = None\<rparr>"

abbreviation ReportEvent :: "AssemblerDecisionReport \<Rightarrow> ControlEvent" where
  "ReportEvent r \<equiv>
     \<lparr>ceBAF = None, ceComplaint = None, ceConfigRequest = None, ceAssemblerReport = Some r\<rparr>"

definition BAF_ID_payload :: "BAF \<Rightarrow> bytes" where
  "BAF_ID_payload b =
     put64 (Seq b) @ put64 (ConfigSeq b) @ put16 (Signer b) @ put16 (Primary b) @
     put16 (Shard b) @ copy_zeroed 32 (Digest b)"

definition ControlEvent_ID ::
  "(bytes \<Rightarrow> bytes) \<Rightarrow> fabric_lib \<Rightarrow> pConfigRequest proto_lib \<Rightarrow> ControlEvent \<Rightarrow> fault + string" where
  "ControlEvent_ID sha256 L P ce =
     (case ceBAF ce of
        Some b \<Rightarrow> Inr (hex_EncodeToString (sha256 (BAF_ID_payload b)))
      | None \<Rightarrow>
          (case ceComplaint ce of
             Some c \<Rightarrow> Inr (hex_EncodeToString (sha256 (Complaint_Bytes (c\<lparr>cSignature := []\<rparr>))))
           | None \<Rightarrow>
               (case ceConfigRequest ce of
                  Some r \<Rightarrow>
                    (case ConfigRequest_Bytes L P r of
                       Inl f \<Rightarrow> Inl f
                     | Inr payloadToHash \<Rightarrow> Inr (hex_EncodeToString (sha256 payloadToHash)))
                | None \<Rightarrow>
                    (case ceAssemblerReport ce of
                       Some r \<Rightarrow> Inr (hex_EncodeToString (sha256 (Report_unsignedBytes r)))
                     | None \<Rightarrow> Inr ''''))))"

definition ControlEvent_SignerID :: "ControlEvent \<Rightarrow> string" where
  "ControlEvent_SignerID ce =
     (case ceBAF ce of
        Some b \<Rightarrow> dec_string (unat (Signer b))
      | None \<Rightarrow>
          (case ceComplaint ce of
             Some c \<Rightarrow> dec_string (unat (cSigner c))
           | None \<Rightarrow>
               (case ceConfigRequest ce of
                  Some r \<Rightarrow> ''''
                | None \<Rightarrow>
                    (case ceAssemblerReport ce of
                       Some r \<Rightarrow> dec_string (unat (rParty r))
                     | None \<Rightarrow> ''''))))"

text \<open>The oneof of the protobuf message; each payload pointer, and the oneof itself, may be nil.\<close>

datatype pControlEvent =
    Ev_Baf "pBAF option"
  | Ev_Complaint "pComplaint option"
  | Ev_ConfigRequest "pConfigRequest option"
  | Ev_AssemblerDecisionReport "pReport option"
  | Ev_nil

definition ControlEvent_toProto :: "fabric_lib \<Rightarrow> ControlEvent \<Rightarrow> fault + pControlEvent" where
  "ControlEvent_toProto L ce =
     (case ceBAF ce of
        Some b \<Rightarrow> Inr (Ev_Baf (Some (BAF_ToProto b)))
      | None \<Rightarrow>
          (case ceComplaint ce of
             Some c \<Rightarrow> Inr (Ev_Complaint (Some (Complaint_toProto c)))
           | None \<Rightarrow>
               (case ceConfigRequest ce of
                  Some r \<Rightarrow>
                    (case ConfigRequest_toProto L r of
                       Inl f \<Rightarrow> Inl f
                     | Inr pr \<Rightarrow> Inr (Ev_ConfigRequest (Some pr)))
                | None \<Rightarrow>
                    (case ceAssemblerReport ce of
                       Some r \<Rightarrow> Inr (Ev_AssemblerDecisionReport (Some (Report_toProto r)))
                     | None \<Rightarrow> Inl (Panicked ''empty control event'')))))"

definition ControlEvent_fromProto :: "fabric_lib \<Rightarrow> pControlEvent \<Rightarrow> error + ControlEvent" where
  "ControlEvent_fromProto L pe =
     (case pe of
        Ev_Baf pbo \<Rightarrow>
          if pbo = None then Inl (ErrNew ''BAF event payload is nil'')
          else (case BAF_FromProto pbo of Inl e \<Rightarrow> Inl e | Inr b \<Rightarrow> Inr (BAFEvent b))
      | Ev_Complaint pco \<Rightarrow>
          (case pco of
             None \<Rightarrow> Inl (ErrNew ''Complaint event payload is nil'')
           | Some pc \<Rightarrow>
               (case Complaint_fromProto pc of Inl e \<Rightarrow> Inl e | Inr c \<Rightarrow> Inr (ComplaintEvent c)))
      | Ev_ConfigRequest pro \<Rightarrow>
          (case pro of
             None \<Rightarrow> Inl (ErrNew ''ConfigRequest event payload is nil'')
           | Some pr \<Rightarrow>
               (case ConfigRequest_fromProto L pr of Inl e \<Rightarrow> Inl e | Inr r \<Rightarrow> Inr (ConfigEvent r)))
      | Ev_AssemblerDecisionReport pro \<Rightarrow>
          (case pro of
             None \<Rightarrow> Inl (ErrNew ''AssemblerDecisionReport event payload is nil'')
           | Some pr \<Rightarrow>
               (case Report_fromProto pr of Inl e \<Rightarrow> Inl e | Inr r \<Rightarrow> Inr (ReportEvent r)))
      | Ev_nil \<Rightarrow> Inl (ErrNew ''unknown control event type''))"

definition ControlEvent_Bytes ::
  "fabric_lib \<Rightarrow> pControlEvent proto_lib \<Rightarrow> ControlEvent \<Rightarrow> fault + bytes" where
  "ControlEvent_Bytes L P ce =
     (case ControlEvent_toProto L ce of
        Inl f \<Rightarrow> Inl f
      | Inr pe \<Rightarrow>
          (case Marshal P pe of
             Inl e \<Rightarrow> Inl (Panicked ''failed to marshal control event'')
           | Inr bs \<Rightarrow> Inr bs))"

definition ControlEvent_FromBytes ::
  "fabric_lib \<Rightarrow> pControlEvent proto_lib \<Rightarrow> bytes \<Rightarrow> error + ControlEvent" where
  "ControlEvent_FromBytes L P bs =
     (case Unmarshal P bs of
        Inl e \<Rightarrow> Inl (ErrNew ''failed to unmarshal control event'')
      | Inr pe \<Rightarrow> ControlEvent_fromProto L pe)"

section \<open>Properties\<close>

subsection \<open>Byte codecs\<close>

lemma copy_zeroed_exact [simp]: "length bs = n \<Longrightarrow> copy_zeroed n bs = bs"
  by (simp add: copy_zeroed_def)

lemma length_copy_zeroed [simp]: "length (copy_zeroed n bs) = n"
  by (simp add: copy_zeroed_def)

lemma put16_get16:
  assumes "j = i + 2" "j \<le> length bs"
  shows "put16 (get16 (slice i j bs)) = slice i j bs"
proof -
  have l: "length (slice i j bs) = 2"
    using assms by simp
  then have "be_get (slice i j bs) < 2 ^ 16"
    using be_get_less [of "slice i j bs"] by simp
  then show ?thesis
    using l be_put_get [of "slice i j bs"]
    by (simp add: put16_def get16_def unat_of_nat)
qed

lemma put64_get64:
  assumes "j = i + 8" "j \<le> length bs"
  shows "put64 (get64 (slice i j bs)) = slice i j bs"
proof -
  have l: "length (slice i j bs) = 8"
    using assms by simp
  then have "be_get (slice i j bs) < 2 ^ 64"
    using be_get_less [of "slice i j bs"] by simp
  then show ?thesis
    using l be_put_get [of "slice i j bs"]
    by (simp add: put64_def get64_def unat_of_nat)
qed

lemma slice_append: "i \<le> j \<Longrightarrow> j \<le> k \<Longrightarrow> slice i j bs @ slice j k bs = slice i k bs"
  using take_add [of "j - i" "k - j" "drop i bs"] by (simp add: slice_def)

lemma slice_to_end: "i \<le> length bs \<Longrightarrow> slice 0 i bs @ drop i bs = bs"
  by (simp add: slice_def)

lemmas availableBatch_sizes = availableBatchSerializedSize_def availableBatchDigestSize_def

interpretation ab: canonical_codec AvailableBatch_Serialize AvailableBatch_Deserialize
  "\<lambda>ab. length (Digest ab) = 32"
proof
  fix x :: BatchID
  assume "length (Digest x) = 32"
  then show "AvailableBatch_Deserialize (AvailableBatch_Serialize x) = Inr x"
    by (simp add: AvailableBatch_Deserialize_def AvailableBatch_Serialize_def availableBatch_sizes
        codec_simps)
next
  fix bs :: bytes and x :: BatchID
  assume "AvailableBatch_Deserialize bs = Inr x"
  then have l: "length bs = 44" and x: "x = \<lparr>Shard = get16 (slice 2 4 bs),
      Primary = get16 (slice 0 2 bs), Seq = get64 (slice 4 12 bs), Digest = drop 12 bs\<rparr>"
    by (auto simp: AvailableBatch_Deserialize_def availableBatch_sizes split: if_splits)
  have "AvailableBatch_Serialize x =
      slice 0 2 bs @ slice 2 4 bs @ slice 4 12 bs @ drop 12 bs"
    using l put16_get16 [of 2 0 bs] put16_get16 [of 4 2 bs] put64_get64 [of 12 4 bs]
    by (simp add: AvailableBatch_Serialize_def x availableBatch_sizes)
  also have "\<dots> = bs"
    using l slice_to_end [of 12 bs] slice_append [of 0 2 4 bs] slice_append [of 0 4 12 bs]
    by (simp only: append_assoc [symmetric])
  finally show "length (Digest x) = 32 \<and> AvailableBatch_Serialize x = bs"
    using l by (simp add: x)
qed

lemma unat_of_nat16 [simp]: "n \<le> 65535 \<Longrightarrow> unat (of_nat n :: u16) = n"
  by (simp add: unat_of_nat)

lemma unat_of_nat32 [simp]: "n < 4294967296 \<Longrightarrow> unat (of_nat n :: u32) = n"
  by (simp add: unat_of_nat)

text \<open>Trailing bytes are accepted by the readers of complaints and reports.\<close>

definition Complaint_fits :: "Complaint \<Rightarrow> bool" where
  "Complaint_fits c \<longleftrightarrow> length (cSignature c) \<le> 65535 \<and> length (cReason c) \<le> 65535"

lemma Complaint_FromBytes_Bytes:
  "Complaint_fits c \<Longrightarrow> Complaint_FromBytes (Complaint_Bytes c @ rest) = Inr c"
  by (simp add: Complaint_FromBytes_def Complaint_Bytes_def Complaint_fits_def codec_simps Let_def)

definition Report_fits :: "AssemblerDecisionReport \<Rightarrow> bool" where
  "Report_fits r \<longleftrightarrow> length (rSignature r) < 2 ^ 32"

lemma Report_FromBytes_Bytes:
  "Report_fits r \<Longrightarrow> Report_FromBytes (Report_Bytes r @ rest) = Inr r"
  by (simp add: Report_FromBytes_def Report_Bytes_def Report_fits_def reportHeaderLen_def
      codec_simps Let_def)

interpretation complaint: bytes_codec Complaint_Bytes Complaint_FromBytes Complaint_fits
  by standard (metis Complaint_FromBytes_Bytes append_Nil2)

interpretation report: bytes_codec Report_Bytes Report_FromBytes Report_fits
  by standard (metis Report_FromBytes_Bytes append_Nil2)

subsection \<open>Signed bytes\<close>

lemma domains_distinct [simp]:
  "DomainBAF \<noteq> DomainComplaint" "DomainBAF \<noteq> DomainAssemblerDecisionReport"
  "DomainComplaint \<noteq> DomainAssemblerDecisionReport"
  by (simp_all add: DomainBAF_def DomainComplaint_def DomainAssemblerDecisionReport_def)

lemma signed_bytes_total:
  "\<exists>x. BAF_ToBeSigned b = Inr x" "\<exists>x. Complaint_ToBeSigned c = Inr x"
  "\<exists>x. Report_ToBeSigned r = Inr x"
  by (simp_all add: BAF_ToBeSigned_def Complaint_ToBeSigned_def Report_ToBeSigned_def
      PrefixWithDomain_def DomainBAF_def DomainComplaint_def DomainAssemblerDecisionReport_def)

lemma domains_separate:
  "BAF_ToBeSigned b \<noteq> Complaint_ToBeSigned c"
  "BAF_ToBeSigned b \<noteq> Report_ToBeSigned r"
  "Complaint_ToBeSigned c \<noteq> Report_ToBeSigned r"
  using signed_bytes_total(1) [of b] signed_bytes_total(2) [of c] signed_bytes_total(3) [of r]
  unfolding BAF_ToBeSigned_def Complaint_ToBeSigned_def Report_ToBeSigned_def
  by (metis PrefixWithDomain_inject domains_distinct)+

lemma BAF_ToBeSigned_inject:
  assumes "length (Digest a) < 2 ^ 63" "length (Digest b) < 2 ^ 63"
  shows "BAF_ToBeSigned a = BAF_ToBeSigned b \<longleftrightarrow>
    BatchIDEqual a b \<and> ConfigSeq a = ConfigSeq b \<and> TXCount a = TXCount b \<and> Signer a = Signer b"
    (is "?l \<longleftrightarrow> ?r")
proof
  assume ?l
  with signed_bytes_total(1) [of a] have "asn1BAF_unsigned a = asn1BAF_unsigned b"
    unfolding BAF_ToBeSigned_def by (metis PrefixWithDomain_inject)
  from asn1BAF_unsigned_inject [OF assms this] show ?r
    by (simp add: BatchIDEqual_def)
next
  assume ?r
  then show ?l
    by (simp add: BAF_ToBeSigned_def asn1BAF_unsigned_def BatchIDEqual_def)
qed

lemma Complaint_ToBeSigned_inject:
  assumes "length (cReason a) \<le> 65535" "length (cReason b) \<le> 65535"
  shows "Complaint_ToBeSigned a = Complaint_ToBeSigned b \<longleftrightarrow>
    a\<lparr>cSignature := []\<rparr> = b\<lparr>cSignature := []\<rparr>" (is "?l \<longleftrightarrow> ?r")
proof
  assume ?l
  with signed_bytes_total(2) [of a]
  have "Complaint_Bytes (a\<lparr>cSignature := []\<rparr>) = Complaint_Bytes (b\<lparr>cSignature := []\<rparr>)"
    unfolding Complaint_ToBeSigned_def by (metis PrefixWithDomain_inject)
  moreover have "Complaint_fits (a\<lparr>cSignature := []\<rparr>)" "Complaint_fits (b\<lparr>cSignature := []\<rparr>)"
    using assms by (simp_all add: Complaint_fits_def)
  ultimately show ?r
    by (simp add: complaint.enc_inject)
qed (simp add: Complaint_ToBeSigned_def)

lemma Report_ToBeSigned_inject:
  "Report_ToBeSigned a = Report_ToBeSigned b \<longleftrightarrow> a\<lparr>rSignature := []\<rparr> = b\<lparr>rSignature := []\<rparr>"
  (is "?l \<longleftrightarrow> ?r")
proof
  assume ?l
  with signed_bytes_total(3) [of a]
  have "Report_Bytes (a\<lparr>rSignature := []\<rparr>) = Report_Bytes (b\<lparr>rSignature := []\<rparr>)"
    unfolding Report_ToBeSigned_def Report_unsignedBytes_def by (metis PrefixWithDomain_inject)
  moreover have "Report_fits (a\<lparr>rSignature := []\<rparr>)" "Report_fits (b\<lparr>rSignature := []\<rparr>)"
    by (simp_all add: Report_fits_def)
  ultimately show ?r
    by (simp add: report.enc_inject)
qed (simp add: Report_ToBeSigned_def Report_unsignedBytes_def)

subsection \<open>Protobuf round trips\<close>

lemma Complaint_from_to [simp]: "Complaint_fromProto (Complaint_toProto c) = Inr c"
  by (simp add: Complaint_fromProto_def Complaint_toProto_def)

lemma ucast16_32_eq_0 [simp]: "(ucast (x :: u16) :: u32) = 0 \<longleftrightarrow> x = 0"
  by (metis ucast16_32 ucast_0)

lemma Report_from_to [simp]:
  "rParty r \<noteq> 0 \<Longrightarrow> Report_fromProto (Report_toProto r) = Inr r"
  by (simp add: Report_fromProto_def Report_toProto_def)

lemma Report_from_to_zero:
  "rParty r = 0 \<Longrightarrow> \<exists>e. Report_fromProto (Report_toProto r) = Inl e"
  by (simp add: Report_fromProto_def Report_toProto_def)

text \<open>
  The events a node sends: one payload is set, a fragment is in the form that deserializing gives,
  and a report names a party.
\<close>

definition wf_event :: "ControlEvent \<Rightarrow> bool" where
  "wf_event ce \<longleftrightarrow>
     (\<exists>b. ce = BAFEvent b \<and> BAF_normal b) \<or> (\<exists>c. ce = ComplaintEvent c) \<or>
     (\<exists>r. ce = ConfigEvent r) \<or> (\<exists>r. ce = ReportEvent r \<and> rParty r \<noteq> 0)"

lemma wf_event_cases [consumes 1, case_names BAF Complaint Config Report]:
  assumes "wf_event ce"
  obtains b where "ce = BAFEvent b" "BAF_normal b" | c where "ce = ComplaintEvent c"
    | r where "ce = ConfigEvent r" | r where "ce = ReportEvent r" "rParty r \<noteq> 0"
  using assms unfolding wf_event_def by blast

definition envelope_faithful :: "fabric_lib \<Rightarrow> ControlEvent \<Rightarrow> bool" where
  "envelope_faithful L ce \<longleftrightarrow>
     (case ceConfigRequest ce of
        None \<Rightarrow> True
      | Some r \<Rightarrow>
          (case MarshalEnvelope L (crEnvelope r) of
             Inl _ \<Rightarrow> False
           | Inr bs \<Rightarrow> UnmarshalEnvelope L bs = Inr (crEnvelope r)))"

lemma ControlEvent_from_to:
  assumes "wf_event ce" "envelope_faithful L ce"
  shows "\<exists>pe. ControlEvent_toProto L ce = Inr pe \<and> ControlEvent_fromProto L pe = Inr ce"
  using assms
  by (auto simp: wf_event_def envelope_faithful_def ControlEvent_toProto_def
      ControlEvent_fromProto_def BAF_From_To_normal ConfigRequest_toProto_def
      ConfigRequest_fromProto_def split: sum.splits)

lemma ucast32_16_eq_0: "\<not> MaxUint16 < y \<Longrightarrow> (ucast (y :: u32) :: u16) = 0 \<longleftrightarrow> y = 0"
  by (simp add: word_unat_eq_iff unsigned_ucast_eq MaxUint16_def word_less_nat_alt take_bit_eq_mod
      unat_mod)

lemma ControlEvent_fromProto_wf: "ControlEvent_fromProto L pe = Inr ce \<Longrightarrow> wf_event ce"
  by (auto simp: wf_event_def ControlEvent_fromProto_def Report_fromProto_def
      split: pControlEvent.splits if_splits sum.splits option.splits
      dest: BAF_FromProto_normal simp: ucast32_16_eq_0)

section \<open>Guarantees\<close>

text \<open>
  (C8) The bytes signed for a fragment, a complaint and an assembler report never coincide, whatever
  the three contain: a signature made for one kind of message is not one for another kind. None of
  the three panics.
\<close>
theorem signature_domains_separated:
  "\<exists>x y z. BAF_ToBeSigned b = Inr x \<and> Complaint_ToBeSigned c = Inr y \<and> Report_ToBeSigned r = Inr z \<and>
     x \<noteq> y \<and> x \<noteq> z \<and> y \<noteq> z"
  using signed_bytes_total(1) [of b] signed_bytes_total(2) [of c] signed_bytes_total(3) [of r]
    domains_separate(1) [of b c] domains_separate(2) [of b r] domains_separate(3) [of c r] by metis

text \<open>
  (C9) What is signed for a fragment determines everything but its signatures: two fragments have
  the same signed bytes exactly if they agree on the batch identifier, the config sequence, the
  transaction count and the signer.
\<close>
theorem fragment_signature_binds:
  assumes "length (Digest a) < 2 ^ 63" "length (Digest b) < 2 ^ 63"
  shows "BAF_ToBeSigned a = BAF_ToBeSigned b \<longleftrightarrow>
    BatchIDEqual a b \<and> ConfigSeq a = ConfigSeq b \<and> TXCount a = TXCount b \<and> Signer a = Signer b"
  by (rule BAF_ToBeSigned_inject [OF assms])

definition ex_fragment :: "u64 \<Rightarrow> BAF" where
  "ex_fragment n =
     \<lparr>Shard = 1, Primary = 2, Seq = 300, Digest = [1, 2], Signer = 3, Signature = Some [],
      PrimarySignature = None, ConfigSeq = 5, TXCount = n\<rparr>"

theorem fragment_signature_binds_witness:
  "BAF_ToBeSigned (ex_fragment 7) \<noteq> BAF_ToBeSigned (ex_fragment 8)"
  using fragment_signature_binds [of "ex_fragment 7" "ex_fragment 8"]
  by (simp add: ex_fragment_def)

text \<open>
  (C21) Available batches with a 32-byte digest, complaints whose signature and reason fit their
  16-bit length fields, and assembler reports whose signature fits its 32-bit length field are read
  back from their bytes.
\<close>
theorem byte_codecs_round_trip:
  "(length (Digest ab) = 32 \<longrightarrow> AvailableBatch_Deserialize (AvailableBatch_Serialize ab) = Inr ab) \<and>
   (Complaint_fits c \<longrightarrow> Complaint_FromBytes (Complaint_Bytes c) = Inr c) \<and>
   (Report_fits r \<longrightarrow> Report_FromBytes (Report_Bytes r) = Inr r)"
  by (simp add: ab.dec_enc complaint.dec_enc report.dec_enc)

definition ex_report :: AssemblerDecisionReport where
  "ex_report = \<lparr>rParty = 3, rDecisionNum = 260, rConfigSeq = 1, rSignature = [8, 9]\<rparr>"

definition ex_grievance :: Complaint where
  "ex_grievance = \<lparr>stShard = 2, stTerm = 7, cSigner = 4, cSignature = [6], cReason = [104, 105],
     cConfigSeq = 3\<rparr>"

theorem byte_codecs_round_trip_witness:
  "AvailableBatch_Deserialize (AvailableBatch_Serialize (NewAvailableBatch 1 2 3 (replicate 32 9))) =
     Inr (NewAvailableBatch 1 2 3 (replicate 32 9)) \<and>
   Complaint_FromBytes (Complaint_Bytes ex_grievance) = Inr ex_grievance \<and>
   Report_FromBytes (Report_Bytes ex_report) = Inr ex_report"
  using byte_codecs_round_trip [of "NewAvailableBatch 1 2 3 (replicate 32 9)" ex_grievance ex_report]
  by (simp add: NewAvailableBatch_def ex_grievance_def ex_report_def Complaint_fits_def Report_fits_def)

text \<open>
  (C20) Every control event a node builds survives the trip through its protobuf bytes, given that the
  protobuf runtime reads back its own encoding of the event's message (and, for a configuration
  request, of its envelope); and every event that is read from bytes has exactly one payload.
\<close>
theorem control_event_round_trip:
  assumes "wf_event ce" "envelope_faithful L ce"
    and "\<And>pe. ControlEvent_toProto L ce = Inr pe \<Longrightarrow> wire_faithful P pe"
  shows "\<exists>bs. ControlEvent_Bytes L P ce = Inr bs \<and> ControlEvent_FromBytes L P bs = Inr ce"
proof -
  obtain pe where pe: "ControlEvent_toProto L ce = Inr pe" "ControlEvent_fromProto L pe = Inr ce"
    using ControlEvent_from_to [OF assms(1,2)] by blast
  from assms(3) [OF pe(1)] obtain bs where "Marshal P pe = Inr bs" "Unmarshal P bs = Inr pe"
    by (rule wire_faithfulE)
  with pe show ?thesis
    by (simp add: ControlEvent_Bytes_def ControlEvent_FromBytes_def)
qed

text \<open>A runtime that knows the encoding of one message.\<close>

definition one_message :: "'m \<Rightarrow> bytes \<Rightarrow> 'm proto_lib" where
  "one_message m bs =
     \<lparr>Marshal = \<lambda>x. if x = m then Inr bs else Inl (ErrNew ''unknown message''),
      Unmarshal = \<lambda>x. if x = bs then Inr m else Inl (ErrNew ''unknown bytes'')\<rparr>"

definition ex_codec :: fabric_lib where
  "ex_codec =
     \<lparr>UnmarshalPayload = \<lambda>_. Inl (ErrNew ''no payload''),
      UnmarshalConfigEnvelope = \<lambda>_. Inl (ErrNew ''no config envelope''),
      UnmarshalChannelHeader = \<lambda>_. Inl (ErrNew ''no channel header''),
      MarshalEnvelope = \<lambda>e. Inr (envPayload e),
      UnmarshalEnvelope = \<lambda>bs. Inr \<lparr>envPayload = bs, envSignature = []\<rparr>\<rparr>"

definition ex_config_event :: ControlEvent where
  "ex_config_event = ConfigEvent \<lparr>crEnvelope = \<lparr>envPayload = [1, 2, 3], envSignature = []\<rparr>\<rparr>"

theorem control_event_round_trip_witness:
  "\<exists>bs. ControlEvent_Bytes ex_codec
      (one_message (Ev_ConfigRequest (Some \<lparr>pcrEnvelope = [1, 2, 3]\<rparr>)) [42]) ex_config_event = Inr bs \<and>
    ControlEvent_FromBytes ex_codec
      (one_message (Ev_ConfigRequest (Some \<lparr>pcrEnvelope = [1, 2, 3]\<rparr>)) [42]) bs = Inr ex_config_event"
  by (rule control_event_round_trip)
    (auto simp: wf_event_def envelope_faithful_def ex_config_event_def ex_codec_def wire_faithful_def
      one_message_def ControlEvent_toProto_def ConfigRequest_toProto_def)

end
