(* ===== verification/ConsensusState.thy ===== *)
theory ConsensusState
  imports ControlEvents
begin

text \<open>
  The replicated consensus state and its transition function (\<^verbatim>\<open>src/node/consensus/state/state.go\<close>):
  every step of \<^verbatim>\<open>Process\<close> in the order of the code, with the panics that indexing the shards may
  raise. \<^verbatim>\<open>Clone\<close> copies every slice of the state, so a transition never changes its input; states
  are values here and need no copy. Logging is left out.
\<close>

section \<open>Keys\<close>

datatype batchKey = BatchKey (bk_shard: ShardID) (bk_primary: PartyID) (bk_seq: BatchSequence)

definition cmp_Compare :: "'a::linorder \<Rightarrow> 'a \<Rightarrow> int" where
  "cmp_Compare a b = (if a < b then -1 else if b < a then 1 else 0)"

definition batchKey_compare :: "batchKey \<Rightarrow> batchKey \<Rightarrow> int" where
  "batchKey_compare b other =
     (let c = cmp_Compare (bk_shard b) (bk_shard other) in
      if c \<noteq> 0 then c
      else let c = cmp_Compare (bk_primary b) (bk_primary other) in
        if c \<noteq> 0 then c else cmp_Compare (bk_seq b) (bk_seq other))"

text \<open>The comparison function is the order by which \<^verbatim>\<open>slices.SortFunc\<close> sorts batch keys.\<close>

instantiation batchKey :: linorder
begin

definition less_eq_batchKey :: "batchKey \<Rightarrow> batchKey \<Rightarrow> bool" where
  "less_eq_batchKey a b \<longleftrightarrow> batchKey_compare a b \<le> 0"

definition less_batchKey :: "batchKey \<Rightarrow> batchKey \<Rightarrow> bool" where
  "less_batchKey a b \<longleftrightarrow> batchKey_compare a b < 0"

instance
  by standard
    (auto simp: less_eq_batchKey_def less_batchKey_def batchKey_compare_def cmp_Compare_def Let_def
      batchKey.expand split: if_splits)

end

datatype attestationKey = AttestationKey (ak_batch: batchKey) (ak_signer: PartyID) (ak_digest: string)

datatype thresholdDigestKey = ThresholdDigestKey (tk_batch: batchKey) (tk_digest: string)

definition batchKeyOf :: "BAF \<Rightarrow> batchKey" where
  "batchKeyOf baf = BatchKey (Shard baf) (Primary baf) (Seq baf)"

definition attestationKeyOf :: "BAF \<Rightarrow> attestationKey" where
  "attestationKeyOf baf =
     AttestationKey (batchKeyOf baf) (Signer baf) (hex_EncodeToString (Digest baf))"

section \<open>The state\<close>

record AssemblerHeight =
  ahParty :: PartyID
  ahDecisionNum :: DecisionNum

record PrunePoint =
  ppShard :: ShardID
  ppPrimary :: PartyID
  ppSeq :: BatchSequence

record State =
  st_N :: u16
  st_Quorum :: u16
  st_Threshold :: u16
  st_Shards :: "ShardTerm list"
  st_Pending :: "BAF list"
  st_Complaints :: "Complaint list"
  st_AppContext :: bytes
  st_StaleConfigBAFs :: "BAF list"
  st_AssemblerHeights :: "AssemblerHeight list"
  st_PrunePoints :: "PrunePoint list"
  st_DurableWatermark :: DecisionNum

text \<open>The index of the first entry of a shard; the code returns -1 where there is none.\<close>

fun shardExists :: "ShardID \<Rightarrow> ShardTerm list \<Rightarrow> nat option" where
  "shardExists shard [] = None"
| "shardExists shard (st # shardTerms) =
     (if stShard st = shard then Some 0 else map_option Suc (shardExists shard shardTerms))"

section \<open>Filtering by config sequence\<close>

definition filterCE ::
  "fabric_lib \<Rightarrow> ConfigSequence \<Rightarrow> ControlEvent \<Rightarrow> ControlEvent list \<times> BAF list" where
  "filterCE L configSeq ce =
     ((case ceBAF ce of None \<Rightarrow> [] | Some b \<Rightarrow> if ConfigSeq b = configSeq then [ce] else []) @
      (case ceComplaint ce of None \<Rightarrow> [] | Some c \<Rightarrow> if cConfigSeq c = configSeq then [ce] else []) @
      (case ceAssemblerReport ce of
         None \<Rightarrow> [] | Some r \<Rightarrow> if rConfigSeq r = configSeq then [ce] else []) @
      (case ceConfigRequest ce of
         None \<Rightarrow> []
       | Some r \<Rightarrow>
           (case ConfigRequest_ConfigSequence L r of
              Inl e \<Rightarrow> []
            | Inr reqConfigSeq \<Rightarrow> if reqConfigSeq = configSeq + 1 then [ce] else [])),
      case ceBAF ce of None \<Rightarrow> [] | Some b \<Rightarrow> if ConfigSeq b < configSeq then [b] else [])"

definition filterCEsWithDiffConfigSeq ::
  "fabric_lib \<Rightarrow> ConfigSequence \<Rightarrow> ControlEvent list \<Rightarrow> ControlEvent list \<times> BAF list" where
  "filterCEsWithDiffConfigSeq L configSeq ces =
     foldl (\<lambda>(filteredEvents, staleConfigBAFs) ce.
              let (evs, stale) = filterCE L configSeq ce
              in (filteredEvents @ evs, staleConfigBAFs @ stale)) ([], []) ces"

definition FilterPendingEventsWithDiffConfigSeq :: "ConfigSequence \<Rightarrow> State \<Rightarrow> State" where
  "FilterPendingEventsWithDiffConfigSeq configSeq s =
     s\<lparr>st_Pending := filter (\<lambda>baf. ConfigSeq baf = configSeq) (st_Pending s),
       st_Complaints := filter (\<lambda>c. cConfigSeq c = configSeq) (st_Complaints s)\<rparr>"

section \<open>Collecting events\<close>

text \<open>
  The set of attestation keys is fixed before the loop; the complaints seen so far, a map of maps
  in the code, are the pairs of a shard term and a signer. A fragment that is skipped ends the
  treatment of its event.
\<close>

definition collect_BAF :: "attestationKey list \<Rightarrow> BAF \<Rightarrow> State \<Rightarrow> State option" where
  "collect_BAF shardsAndSequences baf s =
     (if shardExists (Shard baf) (st_Shards s) = None then None
      else if attestationKeyOf baf \<in> set shardsAndSequences then None
      else Some (s\<lparr>st_Pending := st_Pending s @ [baf]\<rparr>))"

definition collect_Complaint ::
  "Complaint \<Rightarrow> (ShardTerm \<times> PartyID) list \<times> State \<Rightarrow> (ShardTerm \<times> PartyID) list \<times> State" where
  "collect_Complaint c acc =
     (case acc of
        (complaints, s) \<Rightarrow>
          let st = ShardTerm.truncate c in
          if st \<notin> set (st_Shards s) then (complaints, s)
          else if (st, cSigner c) \<in> set complaints then (complaints, s)
          else ((st, cSigner c) # complaints, s\<lparr>st_Complaints := st_Complaints s @ [c]\<rparr>))"

definition collect_event ::
  "attestationKey list \<Rightarrow> (ShardTerm \<times> PartyID) list \<times> State \<Rightarrow> ControlEvent \<Rightarrow>
   (ShardTerm \<times> PartyID) list \<times> State" where
  "collect_event shardsAndSequences acc ce =
     (case acc of
        (complaints, s) \<Rightarrow>
          (case (case ceBAF ce of
                   None \<Rightarrow> Some s
                 | Some baf \<Rightarrow> collect_BAF shardsAndSequences baf s) of
             None \<Rightarrow> (complaints, s)
           | Some s' \<Rightarrow>
               (case ceComplaint ce of
                  None \<Rightarrow> (complaints, s')
                | Some c \<Rightarrow> collect_Complaint c (complaints, s'))))"

definition CollectAndDeduplicateEvents :: "ControlEvent list \<Rightarrow> State \<Rightarrow> State" where
  "CollectAndDeduplicateEvents ces s =
     (let shardsAndSequences = map attestationKeyOf (st_Pending s);
          complaints = map (\<lambda>c. (ShardTerm.truncate c, cSigner c)) (st_Complaints s)
      in snd (foldl (collect_event shardsAndSequences) (complaints, s) ces))"

definition record_report ::
  "AssemblerDecisionReport \<Rightarrow> AssemblerHeight list \<Rightarrow> bool \<times> AssemblerHeight list" where
  "record_report report heights =
     (if rParty report \<notin> ahParty ` set heights
      then (True, heights @ [\<lparr>ahParty = rParty report, ahDecisionNum = rDecisionNum report\<rparr>])
      else (False,
        (let index = length (takeWhile (\<lambda>h. ahParty h \<noteq> rParty report) heights) in
         if rDecisionNum report > ahDecisionNum (heights ! index)
         then heights[index := (heights ! index)\<lparr>ahDecisionNum := rDecisionNum report\<rparr>]
         else heights)))"

definition collect_report ::
  "bool \<times> AssemblerHeight list \<Rightarrow> ControlEvent \<Rightarrow> bool \<times> AssemblerHeight list" where
  "collect_report acc ce =
     (case ceAssemblerReport ce of
        None \<Rightarrow> acc
      | Some report \<Rightarrow>
          let (added, heights) = record_report report (snd acc) in (fst acc \<or> added, heights))"

definition CollectAssemblerReports :: "ControlEvent list \<Rightarrow> State \<Rightarrow> State" where
  "CollectAssemblerReports ces s =
     (let (added, heights) = foldl collect_report (False, st_AssemblerHeights s) ces in
      s\<lparr>st_AssemblerHeights := (if added then sort_key ahParty heights else heights)\<rparr>)"

section \<open>Equivocation\<close>

type_synonym votes = "(batchKey \<times> (string \<times> PartyID list) list) list"

definition add_vote :: "bool \<Rightarrow> votes \<Rightarrow> BAF \<Rightarrow> votes" where
  "add_vote excludeSelfSigned m baf =
     (if excludeSelfSigned \<and> Signer baf = Primary baf then m
      else alist_modify (batchKeyOf baf)
             (\<lambda>digests. alist_modify (hex_EncodeToString (Digest baf))
                (\<lambda>signers. nil_list signers @ [Signer baf]) (nil_list digests)) m)"

definition batchAttestationVotesByDigests :: "State \<Rightarrow> bool \<Rightarrow> votes" where
  "batchAttestationVotesByDigests s excludeSelfSigned =
     foldl (add_vote excludeSelfSigned) [] (st_Pending s)"

definition rotate_shard :: "nat \<Rightarrow> ShardTerm list \<Rightarrow> ShardTerm list" where
  "rotate_shard i shards = shards[i := (shards ! i)\<lparr>stTerm := stTerm (shards ! i) + 1\<rparr>]"

definition detect_step ::
  "votes \<Rightarrow> ShardID list \<times> ShardTerm list \<Rightarrow> batchKey \<Rightarrow> ShardID list \<times> ShardTerm list" where
  "detect_step m acc bk =
     (case acc of
        (rotatedShards, shards) \<Rightarrow>
          if length (nil_list (map_of m bk)) > 1 then
            if bk_shard bk \<in> set rotatedShards then (rotatedShards, shards)
            else (case shardExists (bk_shard bk) shards of
                    None \<Rightarrow> (rotatedShards, shards)
                  | Some i \<Rightarrow> (bk_shard bk # rotatedShards, rotate_shard i shards))
          else (rotatedShards, shards))"

definition DetectEquivocation :: "State \<Rightarrow> State" where
  "DetectEquivocation s =
     (let m = batchAttestationVotesByDigests s True;
          batchKeys = sort (map fst m)
      in s\<lparr>st_Shards := snd (foldl (detect_step m) ([], st_Shards s) batchKeys)\<rparr>)"

section \<open>Complaints\<close>

definition count_complaint ::
  "ShardTerm list \<Rightarrow> (ShardTerm \<Rightarrow> nat) \<Rightarrow> Complaint \<Rightarrow> (ShardTerm \<Rightarrow> nat)" where
  "count_complaint shards complaintsToNum c =
     (case shardExists (stShard c) shards of
        None \<Rightarrow> complaintsToNum
      | Some i \<Rightarrow>
          if stTerm (shards ! i) \<noteq> stTerm c then complaintsToNum
          else complaintsToNum(ShardTerm.truncate c := complaintsToNum (ShardTerm.truncate c) + 1))"

fun rotate_loop ::
  "(ShardTerm \<Rightarrow> nat) \<Rightarrow> u16 \<Rightarrow> ShardTerm list \<Rightarrow> Complaint list \<Rightarrow>
   fault + (ShardTerm list \<times> Complaint list)" where
  "rotate_loop complaintsToNum threshold shards [] = Inr (shards, [])"
| "rotate_loop complaintsToNum threshold shards (c # cs) =
     (if complaintsToNum (ShardTerm.truncate c) \<ge> unat threshold
      then (case shardExists (stShard c) shards of
              None \<Rightarrow> Inl IndexOutOfRange
            | Some i \<Rightarrow>
                if stTerm (shards ! i) \<noteq> stTerm c
                then rotate_loop complaintsToNum threshold shards cs
                else rotate_loop complaintsToNum threshold (rotate_shard i shards) cs)
      else (case rotate_loop complaintsToNum threshold shards cs of
              Inl f \<Rightarrow> Inl f
            | Inr (shards', newComplaints) \<Rightarrow> Inr (shards', c # newComplaints)))"

definition PrimaryRotateDueToComplaints :: "State \<Rightarrow> fault + State" where
  "PrimaryRotateDueToComplaints s =
     (let complaintsToNum = foldl (count_complaint (st_Shards s)) (\<lambda>_. 0) (st_Complaints s) in
      case rotate_loop complaintsToNum (st_Threshold s) (st_Shards s) (st_Complaints s) of
        Inl f \<Rightarrow> Inl f
      | Inr (shards, newComplaints) \<Rightarrow>
          Inr (s\<lparr>st_Shards := shards, st_Complaints := newComplaints\<rparr>))"

fun cleanup_loop :: "ShardTerm list \<Rightarrow> Complaint list \<Rightarrow> fault + Complaint list" where
  "cleanup_loop shards [] = Inr []"
| "cleanup_loop shards (c # cs) =
     (case shardExists (stShard c) shards of
        None \<Rightarrow> Inl IndexOutOfRange
      | Some i \<Rightarrow>
          (case cleanup_loop shards cs of
             Inl f \<Rightarrow> Inl f
           | Inr newComplaints \<Rightarrow>
               Inr (if stTerm c < stTerm (shards ! i) then newComplaints else c # newComplaints)))"

definition CleanupOldComplaints :: "State \<Rightarrow> fault + State" where
  "CleanupOldComplaints s =
     (case cleanup_loop (st_Shards s) (st_Complaints s) of
        Inl f \<Rightarrow> Inl f
      | Inr newComplaints \<Rightarrow> Inr (s\<lparr>st_Complaints := newComplaints\<rparr>))"

section \<open>Extraction\<close>

definition thresholdDigests :: "u16 \<Rightarrow> votes \<Rightarrow> thresholdDigestKey list" where
  "thresholdDigests threshold m =
     [ThresholdDigestKey bk digest.
        (bk, digest2signers) \<leftarrow> m, (digest, signers) \<leftarrow> digest2signers,
        length signers \<ge> unat threshold]"

definition decidedBatches :: "u16 \<Rightarrow> votes \<Rightarrow> batchKey list" where
  "decidedBatches threshold m =
     [bk. (bk, digest2signers) \<leftarrow> m, (digest, signers) \<leftarrow> digest2signers,
        length signers \<ge> unat threshold]"

definition ExtractBatchAttestationsFromPending :: "State \<Rightarrow> State \<times> BAF list" where
  "ExtractBatchAttestationsFromPending s =
     (let m = batchAttestationVotesByDigests s False;
          decided = decidedBatches (st_Threshold s) m;
          digests = thresholdDigests (st_Threshold s) m;
          newPending = filter (\<lambda>baf. batchKeyOf baf \<notin> set decided) (st_Pending s);
          extracted = filter (\<lambda>baf. batchKeyOf baf \<in> set decided \<and>
            ThresholdDigestKey (batchKeyOf baf) (hex_EncodeToString (Digest baf)) \<in> set digests)
            (st_Pending s)
      in (s\<lparr>st_Pending := newPending\<rparr>, extracted))"

definition ExtractConfigRequests :: "ControlEvent list \<Rightarrow> ConfigRequest list" where
  "ExtractConfigRequests ces = List.map_filter ceConfigRequest ces"

section \<open>Assembler heights and pruning\<close>

definition UpdateDurableWatermark :: "State \<Rightarrow> State" where
  "UpdateDurableWatermark s =
     (if st_N s = 0 then s
      else let f = fst (ComputeFTQ (st_N s));
               k = unat (2 * f + 1)
        in if length (st_AssemblerHeights s) < k then s
           else let decisionNums = sort (map ahDecisionNum (st_AssemblerHeights s));
                    watermark = decisionNums ! (length decisionNums - k)
             in if watermark > st_DurableWatermark s
                then s\<lparr>st_DurableWatermark := watermark\<rparr> else s)"

definition UpdatePrunePoints :: "State \<Rightarrow> State" where
  "UpdatePrunePoints s = s"

fun State_PrunePoint :: "PrunePoint list \<Rightarrow> ShardID \<Rightarrow> PartyID \<Rightarrow> BatchSequence" where
  "State_PrunePoint [] shard primary = 0"
| "State_PrunePoint (p # ps) shard primary =
     (if ppShard p = shard \<and> ppPrimary p = primary then ppSeq p
      else State_PrunePoint ps shard primary)"

definition RetainAssemblerHeights :: "PartyID list \<Rightarrow> State \<Rightarrow> State" where
  "RetainAssemblerHeights parties s =
     s\<lparr>st_AssemblerHeights := filter (\<lambda>h. ahParty h \<in> set parties) (st_AssemblerHeights s)\<rparr>"

section \<open>The transition\<close>

definition Process ::
  "fabric_lib \<Rightarrow> ConfigSequence \<Rightarrow> ControlEvent list \<Rightarrow> State \<Rightarrow>
   fault + (State \<times> BAF list \<times> ConfigRequest list)" where
  "Process L configSeq ces s =
     (let (filteredCEs, staleConfigBAFs) = filterCEsWithDiffConfigSeq L configSeq ces;
          s1 = FilterPendingEventsWithDiffConfigSeq configSeq (s\<lparr>st_StaleConfigBAFs := staleConfigBAFs\<rparr>);
          s2 = CollectAndDeduplicateEvents filteredCEs s1;
          s3 = CollectAssemblerReports filteredCEs s2;
          s4 = DetectEquivocation s3
      in case PrimaryRotateDueToComplaints s4 of
           Inl f \<Rightarrow> Inl f
         | Inr s5 \<Rightarrow>
             (case CleanupOldComplaints s5 of
                Inl f \<Rightarrow> Inl f
              | Inr s6 \<Rightarrow>
                  let (s7, extracted) = ExtractBatchAttestationsFromPending s6;
                      s8 = UpdatePrunePoints (UpdateDurableWatermark s7)
                  in Inr (s8, extracted, ExtractConfigRequests filteredCEs)))"

section \<open>Lookup of shards\<close>

lemma shardExists_None: "shardExists sh shards = None \<longleftrightarrow> sh \<notin> stShard ` set shards"
  by (induction shards) auto

lemma shardExists_NoneI: "sh \<notin> stShard ` set shards \<Longrightarrow> shardExists sh shards = None"
  by (simp add: shardExists_None)

lemma shardExists_known: "sh \<in> stShard ` set shards \<Longrightarrow> \<exists>i. shardExists sh shards = Some i"
  by (metis shardExists_None not_None_eq)

lemma shardExists_Some:
  "shardExists sh shards = Some i \<Longrightarrow> i < length shards \<and> stShard (shards ! i) = sh"
  by (induction shards arbitrary: i) (auto split: if_splits simp: nth_Cons split: nat.splits)

lemma shardExists_distinct:
  assumes "distinct (map stShard shards)" "st \<in> set shards" "shardExists (stShard st) shards = Some i"
  shows "shards ! i = st"
  using assms shardExists_Some [OF assms(3)]
  by (metis distinct_map inj_on_eq_iff nth_mem)

abbreviation next_term :: "'a ShardTerm_scheme \<Rightarrow> 'a ShardTerm_scheme" where
  "next_term st \<equiv> st\<lparr>stTerm := stTerm st + 1\<rparr>"

lemma rotate_shard_map:
  assumes "distinct (map stShard shards)" "shardExists sh shards = Some i"
  shows "rotate_shard i shards = map (\<lambda>st. if stShard st = sh then next_term st else st) shards"
proof (rule nth_equalityI)
  fix j
  assume j: "j < length (rotate_shard i shards)"
  have i: "i < length shards" "stShard (shards ! i) = sh"
    using shardExists_Some [OF assms(2)] by auto
  have "stShard (shards ! j) = sh \<longleftrightarrow> j = i"
    using assms(1) i j by (auto simp: distinct_map rotate_shard_def nth_eq_iff_index_eq dest: inj_onD)
  with i j show "rotate_shard i shards ! j =
      map (\<lambda>st. if stShard st = sh then next_term st else st) shards ! j"
    by (auto simp: rotate_shard_def)
qed (simp add: rotate_shard_def)

text \<open>The shards with the terms of the shards in a set moved on by one.\<close>

definition bumped :: "ShardID set \<Rightarrow> ShardTerm list \<Rightarrow> ShardTerm list" where
  "bumped R shards = map (\<lambda>st. if stShard st \<in> R then next_term st else st) shards"

lemma bumped_empty [simp]: "bumped {} shards = shards"
  by (simp add: bumped_def)

lemma map_stShard_bumped [simp]: "map stShard (bumped R shards) = map stShard shards"
  by (simp add: bumped_def)

lemma stShard_bumped [simp]: "stShard ` set (bumped R shards) = stShard ` set shards"
  by (metis map_stShard_bumped set_map)

lemma bumped_cong: "(\<And>sh. sh \<in> stShard ` set shards \<Longrightarrow> sh \<in> R \<longleftrightarrow> sh \<in> R') \<Longrightarrow> bumped R shards = bumped R' shards"
  by (simp add: bumped_def)

lemma bumped_bumped: "R \<inter> R' = {} \<Longrightarrow> bumped R (bumped R' shards) = bumped (R \<union> R') shards"
  by (auto simp: bumped_def)

lemma rotate_shard_bumped:
  assumes "distinct (map stShard shards)" "shardExists sh (bumped R shards) = Some i" "sh \<notin> R"
  shows "rotate_shard i (bumped R shards) = bumped (insert sh R) shards"
proof -
  have "distinct (map stShard (bumped R shards))"
    using assms(1) by simp
  from rotate_shard_map [OF this assms(2)] show ?thesis
    using assms(3) by (auto simp: bumped_def)
qed

section \<open>The vote tally\<close>

abbreviation counted :: "bool \<Rightarrow> BAF \<Rightarrow> bool" where
  "counted excl b \<equiv> \<not> (excl \<and> Signer b = Primary b)"

definition tally :: "bool \<Rightarrow> BAF list \<Rightarrow> votes" where
  "tally excl bafs = foldl (add_vote excl) [] bafs"

definition digest_tally :: "BAF list \<Rightarrow> (string \<times> PartyID list) list" where
  "digest_tally bafs =
     foldl (\<lambda>m b. alist_modify (hex_EncodeToString (Digest b))
       (\<lambda>signers. nil_list signers @ [Signer b]) m) [] bafs"

lemma digest_tally_snoc [simp]:
  "digest_tally (bafs @ [b]) =
     alist_modify (hex_EncodeToString (Digest b)) (\<lambda>signers. nil_list signers @ [Signer b])
       (digest_tally bafs)"
  "digest_tally [] = []"
  by (simp_all add: digest_tally_def)

lemma tally_snoc [simp]: "tally excl (bafs @ [b]) = add_vote excl (tally excl bafs) b" "tally excl [] = []"
  by (simp_all add: tally_def)

lemma map_of_digest_tally:
  "map_of (digest_tally bafs) d =
     (let fs = filter (\<lambda>b. hex_EncodeToString (Digest b) = d) bafs in
      if fs = [] then None else Some (map Signer fs))"
  by (induction bafs rule: rev_induct) (auto simp: Let_def)

lemma distinct_digest_tally: "distinct (map fst (digest_tally bafs))"
  by (induction bafs rule: rev_induct) (auto intro: distinct_alist_modify)

lemma keys_digest_tally: "fst ` set (digest_tally bafs) = (\<lambda>b. hex_EncodeToString (Digest b)) ` set bafs"
  by (induction bafs rule: rev_induct) auto

lemma map_of_tally:
  "map_of (tally excl bafs) bk =
     (let fs = filter (\<lambda>b. counted excl b \<and> batchKeyOf b = bk) bafs in
      if fs = [] then None else Some (digest_tally fs))"
  by (induction bafs rule: rev_induct) (auto simp: Let_def add_vote_def)

lemma distinct_tally: "distinct (map fst (tally excl bafs))"
  by (induction bafs rule: rev_induct) (auto simp: add_vote_def intro: distinct_alist_modify)

lemma keys_tally: "fst ` set (tally excl bafs) = batchKeyOf ` set (filter (counted excl) bafs)"
  by (induction bafs rule: rev_induct; cases excl) (simp_all add: add_vote_def)

lemma in_tally_iff:
  "(bk, x) \<in> set (tally excl bafs) \<longleftrightarrow>
     (\<exists>b\<in>set bafs. counted excl b \<and> batchKeyOf b = bk) \<and>
     x = digest_tally (filter (\<lambda>b. counted excl b \<and> batchKeyOf b = bk) bafs)"
  using map_of_eq_Some_iff [OF distinct_tally, of excl bafs bk x]
  by (auto simp: map_of_tally Let_def filter_empty_conv split: if_splits)

lemma in_digest_tally_iff:
  "(d, x) \<in> set (digest_tally bafs) \<longleftrightarrow>
     (\<exists>b\<in>set bafs. hex_EncodeToString (Digest b) = d) \<and>
     x = map Signer (filter (\<lambda>b. hex_EncodeToString (Digest b) = d) bafs)"
  using map_of_eq_Some_iff [OF distinct_digest_tally, of bafs d x]
  by (auto simp: map_of_digest_tally Let_def filter_empty_conv split: if_splits)

section \<open>Extraction\<close>

text \<open>The number of pending fragments that attest the same batch, digest included.\<close>

definition support :: "BAF list \<Rightarrow> BAF \<Rightarrow> nat" where
  "support bafs b = length (filter (\<lambda>b'. BatchIDEqual b' b) bafs)"

lemma batchKeyOf_eq: "batchKeyOf a = batchKeyOf b \<longleftrightarrow> Shard a = Shard b \<and> Primary a = Primary b \<and> Seq a = Seq b"
  by (simp add: batchKeyOf_def)

lemma BatchIDEqual_key: "BatchIDEqual a b \<longleftrightarrow> batchKeyOf a = batchKeyOf b \<and> Digest a = Digest b"
  by (auto simp: BatchIDEqual_def batchKeyOf_def)

lemma support_filter:
  "length (filter (\<lambda>b'. hex_EncodeToString (Digest b') = hex_EncodeToString (Digest b))
     (filter (\<lambda>b'. batchKeyOf b' = batchKeyOf b) bafs)) = support bafs b"
  by (simp add: support_def BatchIDEqual_key conj_commute)

lemma in_thresholdDigests:
  "ThresholdDigestKey bk d \<in> set (thresholdDigests t m) \<longleftrightarrow>
     (\<exists>x signers. (bk, x) \<in> set m \<and> (d, signers) \<in> set x \<and> unat t \<le> length signers)"
  by (fastforce simp: thresholdDigests_def)

lemma in_decidedBatches:
  "bk \<in> set (decidedBatches t m) \<longleftrightarrow>
     (\<exists>x d signers. (bk, x) \<in> set m \<and> (d, signers) \<in> set x \<and> unat t \<le> length signers)"
  by (fastforce simp: decidedBatches_def)

lemma thresholdDigests_iff:
  "ThresholdDigestKey bk d \<in> set (thresholdDigests t (tally False bafs)) \<longleftrightarrow>
     (\<exists>b\<in>set bafs. batchKeyOf b = bk \<and> hex_EncodeToString (Digest b) = d \<and>
        unat t \<le> support bafs b)" (is "?l \<longleftrightarrow> ?r")
proof -
  have "?l \<longleftrightarrow> (\<exists>b\<in>set bafs. batchKeyOf b = bk \<and> hex_EncodeToString (Digest b) = d \<and>
      unat t \<le> length (filter (\<lambda>b'. hex_EncodeToString (Digest b') = d)
        (filter (\<lambda>b'. batchKeyOf b' = bk) bafs)))"
    by (auto simp: in_thresholdDigests in_tally_iff in_digest_tally_iff)
  also have "\<dots> \<longleftrightarrow> ?r"
    by (rule bex_cong [OF refl]) (metis support_filter)
  finally show ?thesis .
qed

lemma decidedBatches_iff:
  "bk \<in> set (decidedBatches t (tally False bafs)) \<longleftrightarrow>
     (\<exists>b\<in>set bafs. batchKeyOf b = bk \<and> unat t \<le> support bafs b)"
proof -
  have "bk \<in> set (decidedBatches t m) \<longleftrightarrow>
      (\<exists>d. ThresholdDigestKey bk d \<in> set (thresholdDigests t m))" for m
    unfolding in_decidedBatches in_thresholdDigests by blast
  then show ?thesis by (simp add: thresholdDigests_iff) blast
qed

lemma support_cong: "BatchIDEqual a b \<Longrightarrow> support bafs a = support bafs b"
  by (simp add: support_def BatchIDEqual_def)

lemma Extract_closed_form:
  "ExtractBatchAttestationsFromPending s =
     (s\<lparr>st_Pending := filter (\<lambda>b. \<forall>b'\<in>set (st_Pending s).
          batchKeyOf b' = batchKeyOf b \<longrightarrow> support (st_Pending s) b' < unat (st_Threshold s))
          (st_Pending s)\<rparr>,
      filter (\<lambda>b. unat (st_Threshold s) \<le> support (st_Pending s) b) (st_Pending s))"
proof -
  define P where "P = st_Pending s"
  define m where "m = tally False P"
  have m: "batchAttestationVotesByDigests s False = m"
    by (simp add: batchAttestationVotesByDigests_def tally_def P_def m_def)
  have d: "batchKeyOf b \<notin> set (decidedBatches (st_Threshold s) m) \<longleftrightarrow>
      (\<forall>b'\<in>set P. batchKeyOf b' = batchKeyOf b \<longrightarrow> support P b' < unat (st_Threshold s))" for b
    by (auto simp: m_def decidedBatches_iff not_le)
  have x: "batchKeyOf b \<in> set (decidedBatches (st_Threshold s) m) \<and>
      ThresholdDigestKey (batchKeyOf b) (hex_EncodeToString (Digest b))
        \<in> set (thresholdDigests (st_Threshold s) m) \<longleftrightarrow>
      unat (st_Threshold s) \<le> support P b" if "b \<in> set P" for b
    unfolding m_def decidedBatches_iff thresholdDigests_iff hex_EncodeToString_inj
    using that by (metis BatchIDEqual_key support_cong)
  show ?thesis
    unfolding ExtractBatchAttestationsFromPending_def m Let_def P_def [symmetric]
    by (simp only: d filter_cong [OF refl x])
qed

section \<open>Equivocation\<close>

text \<open>
  Evidence against the primary of a batch: two fragments of other signers for one batch key with
  different digests.
\<close>

definition equivocated :: "BAF list \<Rightarrow> batchKey \<Rightarrow> bool" where
  "equivocated bafs bk \<longleftrightarrow>
     (\<exists>b\<in>set bafs. \<exists>b'\<in>set bafs. batchKeyOf b = bk \<and> batchKeyOf b' = bk \<and>
        Signer b \<noteq> Primary b \<and> Signer b' \<noteq> Primary b' \<and> Digest b \<noteq> Digest b')"

definition shard_equivocated :: "BAF list \<Rightarrow> ShardID \<Rightarrow> bool" where
  "shard_equivocated bafs sh \<longleftrightarrow> (\<exists>bk. bk_shard bk = sh \<and> equivocated bafs bk)"

lemma length_gt_1_iff: "distinct xs \<Longrightarrow> length xs > 1 \<longleftrightarrow> (\<exists>x\<in>set xs. \<exists>y\<in>set xs. x \<noteq> y)"
  by (cases xs rule: remdups_adj.cases) auto

lemma tally_conflict:
  "length (nil_list (map_of (tally True bafs) bk)) > 1 \<longleftrightarrow> equivocated bafs bk"
proof -
  define fs where "fs = filter (\<lambda>b. counted True b \<and> batchKeyOf b = bk) bafs"
  have "nil_list (map_of (tally True bafs) bk) = digest_tally fs"
    unfolding map_of_tally fs_def [symmetric] Let_def by simp
  moreover have "length (digest_tally fs) > 1 \<longleftrightarrow> length (map fst (digest_tally fs)) > 1"
    by simp
  moreover have "length (map fst (digest_tally fs)) > 1 \<longleftrightarrow>
      (\<exists>b\<in>set fs. \<exists>b'\<in>set fs. Digest b \<noteq> Digest b')"
    using length_gt_1_iff [OF distinct_digest_tally [of fs]]
    by (simp add: keys_digest_tally del: length_map)
  ultimately show ?thesis
    by (auto simp: fs_def equivocated_def)
qed

text \<open>The loop bumps the term of a shard at its first conflicting key and skips it afterwards.\<close>

lemma detect_loop:
  assumes "distinct (map stShard shards)"
  shows "\<exists>R'. foldl (detect_step m) (R, bumped (set R) shards) bks = (R', bumped (set R') shards) \<and>
    set R' = set R \<union> {sh \<in> stShard ` set shards. \<exists>bk\<in>set bks. bk_shard bk = sh \<and>
       length (nil_list (map_of m bk)) > 1}"
proof (induction bks arbitrary: R)
  case Nil
  then show ?case by simp
next
  case (Cons bk bks)
  let ?hit = "\<lambda>bks. {sh \<in> stShard ` set shards. \<exists>bk\<in>set bks. bk_shard bk = sh \<and>
       length (nil_list (map_of m bk)) > 1}"
  show ?case
  proof (cases "length (nil_list (map_of m bk)) > 1 \<and> bk_shard bk \<notin> set R \<and>
      bk_shard bk \<in> stShard ` set shards")
    case True
    then obtain i where i: "shardExists (bk_shard bk) (bumped (set R) shards) = Some i"
      using shardExists_known [of "bk_shard bk" "bumped (set R) shards"] by auto
    then have "detect_step m (R, bumped (set R) shards) bk =
        (bk_shard bk # R, bumped (set (bk_shard bk # R)) shards)"
      using True rotate_shard_bumped [OF assms i] by (simp add: detect_step_def)
    moreover have "set R \<union> ?hit (bk # bks) = set (bk_shard bk # R) \<union> ?hit bks"
      using True by auto
    ultimately show ?thesis
      using Cons.IH [of "bk_shard bk # R"] by (simp only: foldl_Cons)
  next
    case False
    then have "detect_step m (R, bumped (set R) shards) bk = (R, bumped (set R) shards)"
      by (auto simp: detect_step_def shardExists_NoneI)
    moreover have "set R \<union> ?hit (bk # bks) = set R \<union> ?hit bks"
      using False by auto
    ultimately show ?thesis
      using Cons.IH [of R] by (simp only: foldl_Cons)
  qed
qed

lemma DetectEquivocation_closed_form:
  assumes "distinct (map stShard (st_Shards s))"
  shows "DetectEquivocation s =
    s\<lparr>st_Shards := bumped {sh. shard_equivocated (st_Pending s) sh} (st_Shards s)\<rparr>"
proof -
  define m where "m = tally True (st_Pending s)"
  have m: "batchAttestationVotesByDigests s True = m"
    by (simp add: batchAttestationVotesByDigests_def tally_def m_def)
  have "bk \<in> set (sort (map fst m))" if "length (nil_list (map_of m bk)) > 1" for bk
    using that by (cases "map_of m bk") (auto dest: map_of_SomeD intro: rev_image_eqI)
  then have k: "(\<exists>bk\<in>set (sort (map fst m)). bk_shard bk = sh \<and>
      length (nil_list (map_of m bk)) > 1) \<longleftrightarrow> shard_equivocated (st_Pending s) sh" for sh
    using tally_conflict [of "st_Pending s"] unfolding shard_equivocated_def m_def by blast
  obtain R where "foldl (detect_step m) ([], st_Shards s) (sort (map fst m)) =
      (R, bumped (set R) (st_Shards s))"
    and R: "set R = {sh \<in> stShard ` set (st_Shards s). shard_equivocated (st_Pending s) sh}"
    using detect_loop [OF assms, of m "[]" "sort (map fst m)"] unfolding k by auto
  then show ?thesis
    unfolding DetectEquivocation_def m Let_def
    using bumped_cong [of "st_Shards s" "set R" "{sh. shard_equivocated (st_Pending s) sh}"]
    by simp
qed

section \<open>Complaints\<close>

definition complaint_count :: "Complaint list \<Rightarrow> ShardTerm \<Rightarrow> nat" where
  "complaint_count cs st = length (filter (\<lambda>c. ShardTerm.truncate c = st) cs)"

lemma truncate_fields [simp]:
  "stShard (ShardTerm.truncate c) = stShard c" "stTerm (ShardTerm.truncate c) = stTerm c"
  by (simp_all add: ShardTerm.truncate_def)

lemma truncate_eq_iff: "ShardTerm.truncate c = st \<longleftrightarrow> stShard c = stShard st \<and> stTerm c = stTerm st"
  by (metis truncate_fields ShardTerm.equality old.unit.exhaust)

lemma nth_shardExists_iff:
  assumes "distinct (map stShard shards)" "shardExists sh shards = Some i"
  shows "st \<in> set shards \<and> stShard st = sh \<longleftrightarrow> st = shards ! i"
  by (metis assms nth_mem shardExists_Some shardExists_distinct)

lemma count_complaint_step:
  assumes "distinct (map stShard shards)"
  shows "count_complaint shards f c =
    f(ShardTerm.truncate c := f (ShardTerm.truncate c) +
      (if ShardTerm.truncate c \<in> set shards then 1 else 0))"
proof (cases "shardExists (stShard c) shards")
  case None
  then have "ShardTerm.truncate c \<notin> set shards"
    by (metis image_eqI shardExists_None truncate_fields(1))
  with None show ?thesis
    by (simp add: count_complaint_def)
next
  case (Some i)
  have "ShardTerm.truncate c \<in> set shards \<longleftrightarrow> stTerm (shards ! i) = stTerm c"
    using nth_shardExists_iff [OF assms Some, of "ShardTerm.truncate c"]
      shardExists_Some [OF Some] by (auto simp: truncate_eq_iff)
  with Some show ?thesis
    by (auto simp: count_complaint_def)
qed

lemma count_complaints:
  assumes "distinct (map stShard shards)"
  shows "foldl (count_complaint shards) (\<lambda>_. 0) cs st =
    (if st \<in> set shards then complaint_count cs st else 0)"
  by (induction cs rule: rev_induct)
    (auto simp: count_complaint_step [OF assms] complaint_count_def)

lemma bumped_nth:
  assumes "distinct (map stShard shards)" "st \<in> set shards"
    and "shardExists (stShard st) (bumped R shards) = Some i"
  shows "bumped R shards ! i = (if stShard st \<in> R then next_term st else st)"
proof -
  have "distinct (map stShard (bumped R shards))"
    using assms(1) by simp
  moreover have "(if stShard st \<in> R then next_term st else st) \<in> set (bumped R shards)"
    using assms(2) by (auto simp: bumped_def)
  ultimately show ?thesis
    using shardExists_distinct [of "bumped R shards" "if stShard st \<in> R then next_term st else st" i]
      assms(3) by (simp split: if_splits)
qed

lemma u64_succ_neq [simp]: "(x :: u64) + 1 \<noteq> x"
  by simp

lemma rotate_loop_closed_form:
  assumes "distinct (map stShard shards)" "\<And>st. unat t \<le> num st \<Longrightarrow> st \<in> set shards"
  shows "rotate_loop num t (bumped R shards) cs =
    Inr (bumped (R \<union> stShard ` set (filter (\<lambda>c. unat t \<le> num (ShardTerm.truncate c)) cs)) shards,
         filter (\<lambda>c. \<not> unat t \<le> num (ShardTerm.truncate c)) cs)"
proof (induction cs arbitrary: R)
  case Nil
  then show ?case by simp
next
  case (Cons c cs)
  show ?case
  proof (cases "unat t \<le> num (ShardTerm.truncate c)")
    case True
    then have st: "ShardTerm.truncate c \<in> set shards"
      by (rule assms(2))
    then have "stShard c \<in> stShard ` set (bumped R shards)"
      by (metis image_eqI stShard_bumped truncate_fields(1))
    then obtain i where i: "shardExists (stShard c) (bumped R shards) = Some i"
      using shardExists_known by blast
    have "bumped R shards ! i = (if stShard c \<in> R then next_term (ShardTerm.truncate c)
        else ShardTerm.truncate c)"
      using st bumped_nth [OF assms(1) st, of R i] i by simp
    then have skip: "stTerm (bumped R shards ! i) \<noteq> stTerm c \<longleftrightarrow> stShard c \<in> R"
      by simp
    show ?thesis
    proof (cases "stShard c \<in> R")
      case True
      with \<open>unat t \<le> _\<close> i skip Cons.IH [of R] show ?thesis by (simp add: insert_absorb)
    next
      case False
      with \<open>unat t \<le> _\<close> i skip Cons.IH [of "insert (stShard c) R"]
        rotate_shard_bumped [OF assms(1) i False] show ?thesis by simp
    qed
  next
    case False
    with Cons.IH [of R] show ?thesis by simp
  qed
qed

text \<open>The shards whose current term has enough complaints.\<close>

definition complained :: "u16 \<Rightarrow> ShardTerm list \<Rightarrow> Complaint list \<Rightarrow> ShardID set" where
  "complained t shards cs = stShard ` set (filter (\<lambda>st. unat t \<le> complaint_count cs st) shards)"

lemma PrimaryRotate_closed_form:
  assumes "distinct (map stShard (st_Shards s))" "st_Threshold s \<noteq> 0"
  shows "PrimaryRotateDueToComplaints s =
    Inr (s\<lparr>st_Shards := bumped (complained (st_Threshold s) (st_Shards s) (st_Complaints s)) (st_Shards s),
           st_Complaints := filter (\<lambda>c. \<not> (ShardTerm.truncate c \<in> set (st_Shards s) \<and>
             unat (st_Threshold s) \<le> complaint_count (st_Complaints s) (ShardTerm.truncate c)))
             (st_Complaints s)\<rparr>)"
proof -
  define t where "t = st_Threshold s"
  define cs where "cs = st_Complaints s"
  define shards where "shards = st_Shards s"
  define num where "num = foldl (count_complaint shards) (\<lambda>_. 0) cs"
  have d: "distinct (map stShard shards)"
    using assms(1) by (simp add: shards_def)
  have t: "0 < unat t"
    using assms(2) by (simp add: t_def unat_gt_0)
  have num: "unat t \<le> num st \<longleftrightarrow> st \<in> set shards \<and> unat t \<le> complaint_count cs st" for st
    using t by (simp add: num_def count_complaints [OF d])
  have "\<exists>c\<in>set cs. ShardTerm.truncate c = st" if "unat t \<le> complaint_count cs st" for st
  proof -
    have "filter (\<lambda>c. ShardTerm.truncate c = st) cs \<noteq> []"
      using that t by (auto simp: complaint_count_def)
    then show ?thesis by (auto simp: filter_empty_conv)
  qed
  then have R: "stShard ` set (filter (\<lambda>c. unat t \<le> num (ShardTerm.truncate c)) cs) =
      complained t shards cs"
    unfolding num complained_def set_filter image_def by (fastforce simp: truncate_eq_iff)
  have "rotate_loop num t shards cs = Inr (bumped (complained t shards cs) shards,
      filter (\<lambda>c. \<not> unat t \<le> num (ShardTerm.truncate c)) cs)"
    using rotate_loop_closed_form [OF d, of t num "{}" cs] num R by simp
  then show ?thesis
    unfolding PrimaryRotateDueToComplaints_def Let_def t_def [symmetric] cs_def [symmetric]
      shards_def [symmetric] num_def [symmetric] num by simp
qed

lemma cleanup_loop_closed_form:
  assumes "distinct (map stShard shards)" "\<And>c. c \<in> set cs \<Longrightarrow> stShard c \<in> stShard ` set shards"
  shows "cleanup_loop shards cs =
    Inr (filter (\<lambda>c. \<forall>st\<in>set shards. stShard st = stShard c \<longrightarrow> stTerm st \<le> stTerm c) cs)"
  using assms(2)
proof (induction cs)
  case Nil
  then show ?case by simp
next
  case (Cons c cs)
  then obtain i where i: "shardExists (stShard c) shards = Some i"
    using shardExists_known [of "stShard c" shards] by auto
  have "(\<forall>st\<in>set shards. stShard st = stShard c \<longrightarrow> stTerm st \<le> stTerm c) \<longleftrightarrow>
      stTerm (shards ! i) \<le> stTerm c"
    by (metis nth_shardExists_iff [OF assms(1) i])
  with Cons i show ?case by (simp add: not_le)
qed

lemma CleanupOldComplaints_closed_form:
  assumes "distinct (map stShard (st_Shards s))"
    "\<And>c. c \<in> set (st_Complaints s) \<Longrightarrow> stShard c \<in> stShard ` set (st_Shards s)"
  shows "CleanupOldComplaints s =
    Inr (s\<lparr>st_Complaints := filter (\<lambda>c. \<forall>st\<in>set (st_Shards s).
      stShard st = stShard c \<longrightarrow> stTerm st \<le> stTerm c) (st_Complaints s)\<rparr>)"
  by (simp add: CleanupOldComplaints_def cleanup_loop_closed_form [OF assms])

end
