(* ===== verification/StateProcess.thy ===== *)
theory StateProcess
  imports ConsensusState
begin

text \<open>
  Correctness of the transition function of the consensus state: closed forms of the remaining
  steps, the invariant of the state, and what \<^verbatim>\<open>Process\<close> guarantees about attestations, terms and
  the durable watermark.
\<close>

section \<open>Filtering\<close>

definition event_current :: "fabric_lib \<Rightarrow> ConfigSequence \<Rightarrow> ControlEvent \<Rightarrow> bool" where
  "event_current L q ce \<longleftrightarrow>
     (\<exists>b. ceBAF ce = Some b \<and> ConfigSeq b = q) \<or>
     (\<exists>c. ceComplaint ce = Some c \<and> cConfigSeq c = q) \<or>
     (\<exists>r. ceAssemblerReport ce = Some r \<and> rConfigSeq r = q) \<or>
     (\<exists>r. ceConfigRequest ce = Some r \<and> ConfigRequest_ConfigSequence L r = Inr (q + 1))"

lemma filterCE_wf:
  "wf_event ce \<Longrightarrow> filterCE L q ce =
     (if event_current L q ce then [ce] else [],
      filter (\<lambda>b. ConfigSeq b < q) (case ceBAF ce of None \<Rightarrow> [] | Some b \<Rightarrow> [b]))"
  by (auto simp: filterCE_def event_current_def wf_event_def split: sum.splits)

abbreviation BAFs :: "ControlEvent list \<Rightarrow> BAF list" where
  "BAFs ces \<equiv> List.map_filter ceBAF ces"

lemma map_filter_simps_opt [simp]:
  "List.map_filter f (x # xs) = (case f x of None \<Rightarrow> [] | Some y \<Rightarrow> [y]) @ List.map_filter f xs"
  "List.map_filter f [] = []"
  "List.map_filter f (xs @ ys) = List.map_filter f xs @ List.map_filter f ys"
  by (simp_all add: List.map_filter_def split: option.splits)

declare List.map_filter_simps(2) [simp del]

lemma filterCEs_closed_form:
  assumes "\<forall>ce\<in>set ces. wf_event ce"
  shows "filterCEsWithDiffConfigSeq L q ces =
    (filter (event_current L q) ces, filter (\<lambda>b. ConfigSeq b < q) (BAFs ces))"
  using assms unfolding filterCEsWithDiffConfigSeq_def
  by (induction ces rule: rev_induct) (auto simp: filterCE_wf Let_def)

text \<open>The fragments of the events that are at the current config sequence.\<close>

lemma BAFs_current:
  assumes "\<forall>ce\<in>set ces. wf_event ce"
  shows "BAFs (filter (event_current L q) ces) = filter (\<lambda>b. ConfigSeq b = q) (BAFs ces)"
proof -
  have "filter (\<lambda>b. ConfigSeq b = q) (case ceBAF ce of None \<Rightarrow> [] | Some b \<Rightarrow> [b]) =
      (if event_current L q ce then (case ceBAF ce of None \<Rightarrow> [] | Some b \<Rightarrow> [b]) else [])"
    if "wf_event ce" for ce
    using that by (cases rule: wf_event_cases) (simp_all add: event_current_def)
  with assms show ?thesis
    by (induction ces) simp_all
qed

section \<open>Collecting fragments and complaints\<close>

lemma collect_event_frame:
  "snd (collect_event K acc ce) =
     (snd acc)\<lparr>st_Pending := st_Pending (snd (collect_event K acc ce)),
               st_Complaints := st_Complaints (snd (collect_event K acc ce))\<rparr>"
  by (cases acc; cases "ceBAF ce"; cases "ceComplaint ce")
    (simp_all add: collect_event_def collect_BAF_def collect_Complaint_def Let_def)

lemma collect_event_Shards [simp]: "st_Shards (snd (collect_event K acc ce)) = st_Shards (snd acc)"
  by (subst collect_event_frame) simp

lemma collect_event_Pending:
  "st_Pending (snd (collect_event K acc ce)) =
     st_Pending (snd acc) @
     filter (\<lambda>b. Shard b \<in> stShard ` set (st_Shards (snd acc)) \<and> attestationKeyOf b \<notin> set K)
       (BAFs [ce])"
  by (cases acc; cases "ceBAF ce"; cases "ceComplaint ce")
    (simp_all add: collect_event_def collect_BAF_def collect_Complaint_def Let_def shardExists_None)

lemma collect_fold_frame:
  "snd (foldl (collect_event K) acc ces) =
     (snd acc)\<lparr>st_Pending := st_Pending (snd (foldl (collect_event K) acc ces)),
               st_Complaints := st_Complaints (snd (foldl (collect_event K) acc ces))\<rparr>"
proof (induction ces rule: rev_induct)
  case Nil
  show ?case by simp
next
  case (snoc ce ces)
  define acc' where "acc' = foldl (collect_event K) acc ces"
  have "snd (collect_event K acc' ce) =
      (snd acc')\<lparr>st_Pending := st_Pending (snd (collect_event K acc' ce)),
                 st_Complaints := st_Complaints (snd (collect_event K acc' ce))\<rparr>"
    by (rule collect_event_frame)
  also have "snd acc' = (snd acc)\<lparr>st_Pending := st_Pending (snd acc'),
      st_Complaints := st_Complaints (snd acc')\<rparr>"
    unfolding acc'_def by (rule snoc.IH)
  finally show ?case
    unfolding foldl_append foldl_Cons foldl_Nil acc'_def [symmetric] by simp
qed

lemma collect_fold_Shards [simp]:
  "st_Shards (snd (foldl (collect_event K) acc ces)) = st_Shards (snd acc)"
  by (subst collect_fold_frame) simp

lemma collect_fold_Pending:
  "st_Pending (snd (foldl (collect_event K) acc ces)) = st_Pending (snd acc) @
     filter (\<lambda>b. Shard b \<in> stShard ` set (st_Shards (snd acc)) \<and> attestationKeyOf b \<notin> set K)
       (BAFs ces)"
  by (induction ces rule: rev_induct) (simp_all add: collect_event_Pending)

text \<open>What holds of the complaints while they are collected.\<close>

abbreviation complaint_key :: "Complaint \<Rightarrow> ShardTerm \<times> PartyID" where
  "complaint_key c \<equiv> (ShardTerm.truncate c, cSigner c)"

definition complaints_ok :: "(ShardTerm \<times> PartyID) list \<times> State \<Rightarrow> bool" where
  "complaints_ok acc \<longleftrightarrow>
     set (fst acc) = complaint_key ` set (st_Complaints (snd acc)) \<and>
     distinct (map complaint_key (st_Complaints (snd acc))) \<and>
     (\<forall>c\<in>set (st_Complaints (snd acc)). ShardTerm.truncate c \<in> set (st_Shards (snd acc)))"

lemma collect_event_complaints_ok:
  "complaints_ok acc \<Longrightarrow> complaints_ok (collect_event K acc ce)"
  by (cases acc; cases "ceBAF ce"; cases "ceComplaint ce")
    (auto simp: complaints_ok_def collect_event_def collect_BAF_def collect_Complaint_def Let_def)

lemma collect_event_complaints_from:
  "set (st_Complaints (snd (collect_event K acc ce))) \<subseteq>
     set (st_Complaints (snd acc)) \<union> {c. ceComplaint ce = Some c}"
  by (cases acc; cases "ceBAF ce"; cases "ceComplaint ce")
    (auto simp: collect_event_def collect_BAF_def collect_Complaint_def Let_def)

lemma collect_fold_complaints:
  assumes "complaints_ok acc"
  shows "complaints_ok (foldl (collect_event K) acc ces)"
    and "set (st_Complaints (snd (foldl (collect_event K) acc ces))) \<subseteq>
      set (st_Complaints (snd acc)) \<union> {c. \<exists>ce\<in>set ces. ceComplaint ce = Some c}"
proof (induction ces rule: rev_induct)
  case Nil
  {
    case 1
    show ?case using assms by simp
  next
    case 2
    show ?case by simp
  }
next
  case (snoc ce ces)
  {
    case 1
    show ?case using snoc(1) by (simp add: collect_event_complaints_ok)
  next
    case 2
    show ?case
      using snoc(2) collect_event_complaints_from [of K "foldl (collect_event K) acc ces" ce] by auto
  }
qed

section \<open>Assembler heights\<close>

definition height_of :: "AssemblerHeight list \<Rightarrow> PartyID \<Rightarrow> DecisionNum option" where
  "height_of hs = map_of (map (\<lambda>h. (ahParty h, ahDecisionNum h)) hs)"

lemma height_of_simps [simp]:
  "height_of [] = Map.empty"
  "height_of (h # hs) = (height_of hs)(ahParty h \<mapsto> ahDecisionNum h)"
  by (simp_all add: height_of_def)

lemma dom_height_of [simp]: "dom (height_of hs) = ahParty ` set hs"
  by (simp add: height_of_def dom_map_of_conv_image_fst image_image)

lemma height_of_append: "height_of (xs @ ys) = height_of ys ++ height_of xs"
  by (simp add: height_of_def)

lemma record_report_Cons:
  "rParty r \<in> ahParty ` set (h # hs) \<Longrightarrow> record_report r (h # hs) =
     (False, if ahParty h = rParty r
        then (if rDecisionNum r > ahDecisionNum h then h\<lparr>ahDecisionNum := rDecisionNum r\<rparr> else h) # hs
        else h # snd (record_report r hs))"
  by (auto simp: record_report_def Let_def)

lemma record_report_height:
  "height_of (snd (record_report r hs)) =
     (height_of hs)(rParty r \<mapsto> (case height_of hs (rParty r) of
        None \<Rightarrow> rDecisionNum r | Some d \<Rightarrow> max d (rDecisionNum r)))"
proof (cases "rParty r \<in> ahParty ` set hs")
  case True
  then show ?thesis
  proof (induction hs)
    case (Cons h hs)
    show ?case
    proof (cases "ahParty h = rParty r")
      case True
      then show ?thesis
        unfolding record_report_Cons [OF Cons.prems] by (auto simp: max_def)
    next
      case False
      then have "rParty r \<in> ahParty ` set hs"
        using Cons.prems by auto
      from Cons.IH [OF this] False show ?thesis
        unfolding record_report_Cons [OF Cons.prems] by (auto simp: fun_upd_twist)
    qed
  qed simp
next
  case False
  then have "height_of hs (rParty r) = None"
    by (metis dom_height_of domIff)
  with False show ?thesis
    by (auto simp: record_report_def height_of_append map_add_def fun_eq_iff split: option.splits)
qed

lemma record_report_parties:
  "map ahParty (snd (record_report r hs)) =
     map ahParty hs @ (if fst (record_report r hs) then [rParty r] else [])"
  "fst (record_report r hs) \<longleftrightarrow> rParty r \<notin> ahParty ` set hs"
  by (auto simp: record_report_def Let_def map_update)
    (metis list_update_id map_update nth_list_update_eq nth_map length_map
      list_update_beyond not_le_imp_less)

text \<open>The reports of a list of events, and the highest decision a party has among some values.\<close>

definition reports_of :: "ControlEvent list \<Rightarrow> PartyID \<Rightarrow> DecisionNum list" where
  "reports_of ces p =
     map rDecisionNum (filter (\<lambda>r. rParty r = p) (List.map_filter ceAssemblerReport ces))"

definition highest :: "DecisionNum option \<Rightarrow> DecisionNum list \<Rightarrow> DecisionNum option" where
  "highest d ds =
     (case d of
        None \<Rightarrow> (if ds = [] then None else Some (Max (set ds)))
      | Some x \<Rightarrow> Some (Max (insert x (set ds))))"

lemma highest_snoc:
  "highest d (ds @ [x]) =
     Some (case highest d ds of None \<Rightarrow> x | Some y \<Rightarrow> max y x)"
  by (auto simp: highest_def max.commute max.left_commute split: option.splits)

lemma collect_reports_height:
  "height_of (snd (foldl collect_report (a, hs) ces)) p = highest (height_of hs p) (reports_of ces p)"
proof (induction ces rule: rev_induct)
  case Nil
  then show ?case by (simp add: highest_def reports_of_def split: option.splits)
next
  case (snoc ce ces)
  show ?case
  proof (cases "ceAssemblerReport ce")
    case None
    with snoc show ?thesis by (simp add: collect_report_def reports_of_def)
  next
    case (Some r)
    have "height_of (snd (foldl collect_report (a, hs) (ces @ [ce]))) =
        height_of (snd (record_report r (snd (foldl collect_report (a, hs) ces))))"
      using Some by (simp add: collect_report_def split_beta)
    with Some snoc show ?thesis
      by (cases "p = rParty r") (auto simp: record_report_height reports_of_def highest_snoc)
  qed
qed

lemma collect_reports_parties:
  "distinct (map ahParty hs) \<Longrightarrow> distinct (map ahParty (snd (foldl collect_report (a, hs) ces)))"
  by (induction ces rule: rev_induct)
    (auto simp: collect_report_def split_beta record_report_parties split: option.splits
      simp flip: set_map)

lemma collect_reports_not_added:
  "\<not> fst (foldl collect_report (a, hs) ces) \<Longrightarrow>
   \<not> a \<and> map ahParty (snd (foldl collect_report (a, hs) ces)) = map ahParty hs"
  by (induction ces rule: rev_induct)
    (auto simp: collect_report_def split_beta record_report_parties split: option.splits if_splits)

lemma map_of_same_set:
  assumes "distinct (map fst xs)" "distinct (map fst ys)" "set xs = set ys"
  shows "map_of xs = map_of ys"
proof
  fix k
  show "map_of xs k = map_of ys k"
    using assms by (metis map_of_eq_Some_iff option.exhaust)
qed

lemma height_of_sort:
  assumes "distinct (map ahParty hs)"
  shows "height_of (sort_key ahParty hs) = height_of hs"
proof -
  have "distinct (map ahParty (sort_key ahParty hs))"
    using assms by (simp add: distinct_map)
  then show ?thesis
    unfolding height_of_def using assms by (intro map_of_same_set) (simp_all add: comp_def)
qed

lemma CollectAssemblerReports_frame:
  "CollectAssemblerReports ces s =
     s\<lparr>st_AssemblerHeights := st_AssemblerHeights (CollectAssemblerReports ces s)\<rparr>"
  by (simp add: CollectAssemblerReports_def split_beta)

lemma CollectAssemblerReports_height:
  assumes "distinct (map ahParty (st_AssemblerHeights s))"
  shows "height_of (st_AssemblerHeights (CollectAssemblerReports ces s)) p =
    highest (height_of (st_AssemblerHeights s) p) (reports_of ces p)"
  using assms
  by (simp add: CollectAssemblerReports_def split_beta height_of_sort collect_reports_parties
      collect_reports_height)

lemma CollectAssemblerReports_sorted:
  assumes "distinct (map ahParty (st_AssemblerHeights s))" "sorted (map ahParty (st_AssemblerHeights s))"
  shows "distinct (map ahParty (st_AssemblerHeights (CollectAssemblerReports ces s)))"
    and "sorted (map ahParty (st_AssemblerHeights (CollectAssemblerReports ces s)))"
  using assms collect_reports_parties [of "st_AssemblerHeights s" False ces]
    collect_reports_not_added [of False "st_AssemblerHeights s" ces]
  by (auto simp: CollectAssemblerReports_def split_beta distinct_map)

section \<open>The durable watermark\<close>

lemma sorted_nth_count:
  assumes "sorted xs" "i < length xs"
  shows "length xs - i \<le> length (filter (\<lambda>x. xs ! i \<le> x) xs)"
proof -
  have "filter (\<lambda>x. xs ! i \<le> x) (drop i xs) = drop i xs"
    using assms by (auto simp: filter_id_conv in_set_conv_nth sorted_iff_nth_mono)
  then have "length xs - i = length (filter (\<lambda>x. xs ! i \<le> x) (drop i xs))"
    by simp
  also have "\<dots> \<le> length (filter (\<lambda>x. xs ! i \<le> x) (take i xs @ drop i xs))"
    unfolding filter_append by simp
  finally show ?thesis by simp
qed

lemma filter_sort_length: "length (filter P (sort xs)) = length (filter P xs)"
  by (metis filter_sort length_sort)

lemma Watermark_frame:
  "UpdateDurableWatermark s = s\<lparr>st_DurableWatermark := st_DurableWatermark (UpdateDurableWatermark s)\<rparr>"
  by (simp add: UpdateDurableWatermark_def Let_def)

lemma Watermark_mono: "st_DurableWatermark s \<le> st_DurableWatermark (UpdateDurableWatermark s)"
  by (auto simp: UpdateDurableWatermark_def Let_def)

text \<open>A new watermark is backed by \<open>2f + 1\<close> recorded heights.\<close>

lemma Watermark_backed:
  assumes "st_DurableWatermark (UpdateDurableWatermark s) \<noteq> st_DurableWatermark s"
    and "ComputeFTQ (st_N s) = (f, t, q)"
  shows "2 * unat f + 1 \<le> length (filter (\<lambda>h. st_DurableWatermark (UpdateDurableWatermark s) \<le>
      ahDecisionNum h) (st_AssemblerHeights s))"
proof -
  define k where "k = unat (2 * f + 1)"
  define ds where "ds = sort (map ahDecisionNum (st_AssemblerHeights s))"
  have N: "st_N s \<noteq> 0" "k \<le> length ds"
    "st_DurableWatermark (UpdateDurableWatermark s) = ds ! (length ds - k)"
    using assms by (auto simp: UpdateDurableWatermark_def Let_def k_def ds_def split: if_splits)
  then have "1 \<le> st_N s"
    by (simp add: word_le_nat_alt unat_gt_0 Suc_le_eq)
  from ComputeFTQ_values(1) [OF this assms(2)] have "unat f \<le> 21844"
    using unat_less_2p [of "st_N s"] by simp
  then have k: "k = 2 * unat f + 1"
    by (simp add: k_def unat_word_ariths)
  have "k \<le> length (filter (\<lambda>x. ds ! (length ds - k) \<le> x) ds)"
    using sorted_nth_count [of ds "length ds - k"] N(2) k by (simp add: ds_def)
  also have "\<dots> = length (filter (\<lambda>h. ds ! (length ds - k) \<le> ahDecisionNum h) (st_AssemblerHeights s))"
    unfolding ds_def filter_sort_length by (simp add: filter_map comp_def)
  finally show ?thesis
    using N(3) k by simp
qed

section \<open>The invariant\<close>

text \<open>
  What holds of every state that is processed at config sequence \<open>q\<close>. Fragments and complaints of
  other config sequences may refer to shards that a reconfiguration removed: they are dropped by the
  next transition.
\<close>

definition wf_state :: "ConfigSequence \<Rightarrow> State \<Rightarrow> bool" where
  "wf_state q s \<longleftrightarrow>
     distinct (map stShard (st_Shards s)) \<and>
     st_Threshold s \<noteq> 0 \<and>
     (\<forall>b\<in>set (st_Pending s). ConfigSeq b = q \<longrightarrow> Shard b \<in> stShard ` set (st_Shards s)) \<and>
     (\<forall>c\<in>set (st_Complaints s). cConfigSeq c = q \<longrightarrow> ShardTerm.truncate c \<in> set (st_Shards s)) \<and>
     distinct (map complaint_key (st_Complaints s)) \<and>
     distinct (map ahParty (st_AssemblerHeights s)) \<and>
     sorted (map ahParty (st_AssemblerHeights s))"

text \<open>No party has two fragments of the same batch and digest pending.\<close>

definition distinct_pending :: "State \<Rightarrow> bool" where
  "distinct_pending s \<longleftrightarrow> distinct (map attestationKeyOf (st_Pending s))"

text \<open>No term is about to wrap around.\<close>

definition terms_below_max :: "State \<Rightarrow> bool" where
  "terms_below_max s \<longleftrightarrow> (\<forall>st\<in>set (st_Shards s). stTerm st \<noteq> -1)"

section \<open>Closed form of the transition\<close>

text \<open>The fragments on which a transition decides.\<close>

definition gathered :: "ConfigSequence \<Rightarrow> ControlEvent list \<Rightarrow> State \<Rightarrow> BAF list" where
  "gathered q ces s =
     (let P = filter (\<lambda>b. ConfigSeq b = q) (st_Pending s) in
      P @ filter (\<lambda>b. Shard b \<in> stShard ` set (st_Shards s) \<and>
                      attestationKeyOf b \<notin> attestationKeyOf ` set P)
            (filter (\<lambda>b. ConfigSeq b = q) (BAFs ces)))"

definition after_collect :: "fabric_lib \<Rightarrow> ConfigSequence \<Rightarrow> ControlEvent list \<Rightarrow> State \<Rightarrow> State" where
  "after_collect L q ces s =
     (let F = filter (event_current L q) ces in
      CollectAssemblerReports F (CollectAndDeduplicateEvents F
        (FilterPendingEventsWithDiffConfigSeq q
          (s\<lparr>st_StaleConfigBAFs := filter (\<lambda>b. ConfigSeq b < q) (BAFs ces)\<rparr>))))"

lemma after_collect_frame:
  assumes "\<forall>ce\<in>set ces. wf_event ce"
  shows "after_collect L q ces s =
    s\<lparr>st_StaleConfigBAFs := filter (\<lambda>b. ConfigSeq b < q) (BAFs ces),
      st_Pending := gathered q ces s,
      st_Complaints := st_Complaints (after_collect L q ces s),
      st_AssemblerHeights := st_AssemblerHeights (after_collect L q ces s)\<rparr>"
proof -
  define F where "F = filter (event_current L q) ces"
  define s1 where "s1 = FilterPendingEventsWithDiffConfigSeq q
    (s\<lparr>st_StaleConfigBAFs := filter (\<lambda>b. ConfigSeq b < q) (BAFs ces)\<rparr>)"
  define s2 where "s2 = CollectAndDeduplicateEvents F s1"
  have "st_Pending s2 = gathered q ces s"
    unfolding s2_def CollectAndDeduplicateEvents_def Let_def collect_fold_Pending gathered_def F_def
      BAFs_current [OF assms] by (simp add: s1_def FilterPendingEventsWithDiffConfigSeq_def)
  moreover have "s2 = s1\<lparr>st_Pending := st_Pending s2, st_Complaints := st_Complaints s2\<rparr>"
    unfolding s2_def CollectAndDeduplicateEvents_def Let_def by (subst collect_fold_frame) simp
  ultimately obtain c where s2: "s2 = s1\<lparr>st_Pending := gathered q ces s, st_Complaints := c\<rparr>"
    by metis
  obtain h where "after_collect L q ces s = s2\<lparr>st_AssemblerHeights := h\<rparr>"
    unfolding after_collect_def Let_def F_def [symmetric] s1_def [symmetric] s2_def [symmetric]
    using CollectAssemblerReports_frame by metis
  then show ?thesis
    by (simp add: s2 s1_def FilterPendingEventsWithDiffConfigSeq_def)
qed

lemma after_collect_complaints:
  fixes L q ces s
  assumes "wf_state q s" "\<forall>ce\<in>set ces. wf_event ce"
  defines "C \<equiv> st_Complaints (after_collect L q ces s)"
  shows "distinct (map complaint_key C)"
    and "\<forall>c\<in>set C. ShardTerm.truncate c \<in> set (st_Shards s) \<and> cConfigSeq c = q"
    and "set C \<subseteq> set (st_Complaints s) \<union> {c. \<exists>ce\<in>set ces. ceComplaint ce = Some c}"
proof -
  define F where "F = filter (event_current L q) ces"
  define s1 where "s1 = FilterPendingEventsWithDiffConfigSeq q
    (s\<lparr>st_StaleConfigBAFs := filter (\<lambda>b. ConfigSeq b < q) (BAFs ces)\<rparr>)"
  define K where "K = map attestationKeyOf (st_Pending s1)"
  define acc where "acc = (map complaint_key (st_Complaints s1), s1)"
  have "st_Complaints (CollectAssemblerReports F s') = st_Complaints s'" for s'
    by (subst CollectAssemblerReports_frame) simp
  then have C: "C = st_Complaints (snd (foldl (collect_event K) acc F))"
    by (simp add: C_def after_collect_def F_def s1_def K_def acc_def CollectAndDeduplicateEvents_def
        Let_def)
  have cs: "st_Complaints s1 = filter (\<lambda>c. cConfigSeq c = q) (st_Complaints s)"
    "st_Shards s1 = st_Shards s"
    by (simp_all add: s1_def FilterPendingEventsWithDiffConfigSeq_def)
  have ok: "complaints_ok acc"
    using assms(1) by (auto simp: complaints_ok_def acc_def cs wf_state_def distinct_map_filter)
  from collect_fold_complaints(1) [OF ok, of K F]
  show "distinct (map complaint_key C)"
    by (simp add: complaints_ok_def C)
  have sub: "set C \<subseteq> set (st_Complaints s1) \<union> {c. \<exists>ce\<in>set F. ceComplaint ce = Some c}"
    using collect_fold_complaints(2) [OF ok, of K F] by (simp add: C acc_def)
  then show "set C \<subseteq> set (st_Complaints s) \<union> {c. \<exists>ce\<in>set ces. ceComplaint ce = Some c}"
    by (auto simp: cs F_def)
  have "cConfigSeq c = q" if "ce \<in> set F" "ceComplaint ce = Some c" for ce c
  proof -
    have "wf_event ce" "event_current L q ce"
      using that(1) assms(2) by (simp_all add: F_def)
    then show ?thesis
      using that(2) by (cases rule: wf_event_cases) (simp_all add: event_current_def)
  qed
  then have "\<forall>c\<in>set C. cConfigSeq c = q"
    using sub by (auto simp: cs)
  moreover have "\<forall>c\<in>set C. ShardTerm.truncate c \<in> set (st_Shards s)"
    using collect_fold_complaints(1) [OF ok, of K F] by (simp add: complaints_ok_def C acc_def cs)
  ultimately show "\<forall>c\<in>set C. ShardTerm.truncate c \<in> set (st_Shards s) \<and> cConfigSeq c = q"
    by blast
qed

lemma after_collect_heights:
  assumes "wf_state q s"
  shows "distinct (map ahParty (st_AssemblerHeights (after_collect L q ces s)))"
    and "sorted (map ahParty (st_AssemblerHeights (after_collect L q ces s)))"
    and "height_of (st_AssemblerHeights (after_collect L q ces s)) p =
      highest (height_of (st_AssemblerHeights s) p) (reports_of (filter (event_current L q) ces) p)"
proof -
  define F where "F = filter (event_current L q) ces"
  define s2 where "s2 = CollectAndDeduplicateEvents F (FilterPendingEventsWithDiffConfigSeq q
    (s\<lparr>st_StaleConfigBAFs := filter (\<lambda>b. ConfigSeq b < q) (BAFs ces)\<rparr>))"
  have h: "st_AssemblerHeights s2 = st_AssemblerHeights s"
    unfolding s2_def CollectAndDeduplicateEvents_def Let_def
    by (subst collect_fold_frame) (simp add: FilterPendingEventsWithDiffConfigSeq_def)
  have a: "after_collect L q ces s = CollectAssemblerReports F s2"
    by (simp add: after_collect_def F_def s2_def Let_def)
  show "distinct (map ahParty (st_AssemblerHeights (after_collect L q ces s)))"
    "sorted (map ahParty (st_AssemblerHeights (after_collect L q ces s)))"
    unfolding a using assms h
    by (auto intro!: CollectAssemblerReports_sorted simp: wf_state_def)
  show "height_of (st_AssemblerHeights (after_collect L q ces s)) p =
      highest (height_of (st_AssemblerHeights s) p) (reports_of (filter (event_current L q) ces) p)"
    unfolding a using assms h
    by (simp add: CollectAssemblerReports_height wf_state_def F_def)
qed

text \<open>The shards that a transition rotates, for equivocation or for complaints.\<close>

definition equivocating :: "ConfigSequence \<Rightarrow> ControlEvent list \<Rightarrow> State \<Rightarrow> ShardID set" where
  "equivocating q ces s = {sh. shard_equivocated (gathered q ces s) sh}"

definition complained_about ::
  "fabric_lib \<Rightarrow> ConfigSequence \<Rightarrow> ControlEvent list \<Rightarrow> State \<Rightarrow> ShardID set" where
  "complained_about L q ces s =
     complained (st_Threshold s) (bumped (equivocating q ces s) (st_Shards s))
       (st_Complaints (after_collect L q ces s))"

definition new_shards ::
  "fabric_lib \<Rightarrow> ConfigSequence \<Rightarrow> ControlEvent list \<Rightarrow> State \<Rightarrow> ShardTerm list" where
  "new_shards L q ces s =
     bumped (complained_about L q ces s) (bumped (equivocating q ces s) (st_Shards s))"

definition kept_complaints ::
  "fabric_lib \<Rightarrow> ConfigSequence \<Rightarrow> ControlEvent list \<Rightarrow> State \<Rightarrow> Complaint list" where
  "kept_complaints L q ces s =
     (let C = st_Complaints (after_collect L q ces s);
          shards = bumped (equivocating q ces s) (st_Shards s)
      in filter (\<lambda>c. \<forall>st\<in>set (new_shards L q ces s). stShard st = stShard c \<longrightarrow> stTerm st \<le> stTerm c)
           (filter (\<lambda>c. \<not> (ShardTerm.truncate c \<in> set shards \<and>
              unat (st_Threshold s) \<le> complaint_count C (ShardTerm.truncate c))) C))"

definition undecided :: "ConfigSequence \<Rightarrow> ControlEvent list \<Rightarrow> State \<Rightarrow> BAF list" where
  "undecided q ces s =
     (let G = gathered q ces s in
      filter (\<lambda>b. \<forall>b'\<in>set G. batchKeyOf b' = batchKeyOf b \<longrightarrow>
        support G b' < unat (st_Threshold s)) G)"

definition attested :: "ConfigSequence \<Rightarrow> ControlEvent list \<Rightarrow> State \<Rightarrow> BAF list" where
  "attested q ces s =
     (let G = gathered q ces s in filter (\<lambda>b. unat (st_Threshold s) \<le> support G b) G)"

definition next_state :: "fabric_lib \<Rightarrow> ConfigSequence \<Rightarrow> ControlEvent list \<Rightarrow> State \<Rightarrow> State" where
  "next_state L q ces s =
     UpdateDurableWatermark ((after_collect L q ces s)\<lparr>st_Shards := new_shards L q ces s,
       st_Complaints := kept_complaints L q ces s, st_Pending := undecided q ces s\<rparr>)"

lemma Process_closed_form:
  assumes "wf_state q s" "\<forall>ce\<in>set ces. wf_event ce"
  shows "Process L q ces s =
    Inr (next_state L q ces s, attested q ces s,
         ExtractConfigRequests (filter (event_current L q) ces))"
proof -
  define s3 where "s3 = after_collect L q ces s"
  define E where "E = equivocating q ces s"
  have s3: "st_Shards s3 = st_Shards s" "st_Pending s3 = gathered q ces s"
    "st_Threshold s3 = st_Threshold s"
    unfolding s3_def by (subst after_collect_frame [OF assms(2)], simp)+
  have d: "distinct (map stShard (st_Shards s))" "st_Threshold s \<noteq> 0"
    using assms(1) by (simp_all add: wf_state_def)
  have s4: "DetectEquivocation s3 = s3\<lparr>st_Shards := bumped E (st_Shards s)\<rparr>" (is "_ = ?s4")
    using DetectEquivocation_closed_form [of s3] d s3 by (simp add: E_def equivocating_def)
  define C where "C = filter (\<lambda>c. \<not> (ShardTerm.truncate c \<in> set (bumped E (st_Shards s)) \<and>
      unat (st_Threshold s) \<le> complaint_count (st_Complaints s3) (ShardTerm.truncate c)))
      (st_Complaints s3)"
  have s5: "PrimaryRotateDueToComplaints ?s4 =
      Inr (s3\<lparr>st_Shards := new_shards L q ces s, st_Complaints := C\<rparr>)" (is "_ = Inr ?s5")
    using PrimaryRotate_closed_form [of ?s4] d s3
    by (simp add: new_shards_def complained_about_def E_def s3_def C_def)
  have "stShard c \<in> stShard ` set (new_shards L q ces s)" if "c \<in> set C" for c
  proof -
    have "ShardTerm.truncate c \<in> set (st_Shards s)"
      using that after_collect_complaints(2) [OF assms, of L] by (auto simp: C_def s3_def)
    then have "stShard (ShardTerm.truncate c) \<in> stShard ` set (st_Shards s)" by (rule imageI)
    then show ?thesis by (simp add: new_shards_def)
  qed
  then have s6: "CleanupOldComplaints ?s5 =
      Inr (s3\<lparr>st_Shards := new_shards L q ces s, st_Complaints := kept_complaints L q ces s\<rparr>)"
    (is "_ = Inr ?s6")
    using CleanupOldComplaints_closed_form [of ?s5] d
    by (simp add: new_shards_def kept_complaints_def E_def s3_def C_def Let_def)
  have s7: "ExtractBatchAttestationsFromPending ?s6 =
      (?s6\<lparr>st_Pending := undecided q ces s\<rparr>, attested q ces s)"
    using s3 by (simp add: Extract_closed_form undecided_def attested_def Let_def)
  show ?thesis
    unfolding Process_def filterCEs_closed_form [OF assms(2)] Let_def prod.case
    unfolding after_collect_def [unfolded Let_def, symmetric] next_state_def s3_def [symmetric]
    by (simp add: s4 s5 s6 s7 UpdatePrunePoints_def)
qed

lemma next_state_fields:
  assumes "\<forall>ce\<in>set ces. wf_event ce"
  shows "st_Shards (next_state L q ces s) = new_shards L q ces s"
    and "st_Pending (next_state L q ces s) = undecided q ces s"
    and "st_Complaints (next_state L q ces s) = kept_complaints L q ces s"
    and "st_AssemblerHeights (next_state L q ces s) = st_AssemblerHeights (after_collect L q ces s)"
    and "st_StaleConfigBAFs (next_state L q ces s) = filter (\<lambda>b. ConfigSeq b < q) (BAFs ces)"
    and "st_N (next_state L q ces s) = st_N s" "st_Quorum (next_state L q ces s) = st_Quorum s"
    and "st_Threshold (next_state L q ces s) = st_Threshold s"
    and "st_AppContext (next_state L q ces s) = st_AppContext s"
    and "st_PrunePoints (next_state L q ces s) = st_PrunePoints s"
  unfolding next_state_def
  by (subst Watermark_frame; simp; subst after_collect_frame [OF assms]; simp)+

section \<open>Terms\<close>

text \<open>
  Complaints are about the current term of their shard, so a shard that is rotated for equivocation
  is not rotated again for complaints.
\<close>

lemma complained_not_equivocating:
  assumes "wf_state q s" "\<forall>ce\<in>set ces. wf_event ce"
  shows "complained_about L q ces s \<inter> equivocating q ces s = {}"
proof -
  define C where "C = st_Complaints (after_collect L q ces s)"
  have d: "distinct (map stShard (st_Shards s))" and t: "0 < unat (st_Threshold s)"
    using assms(1) by (simp_all add: wf_state_def unat_gt_0)
  have False if "sh \<in> complained_about L q ces s" and eq: "sh \<in> equivocating q ces s" for sh
  proof -
    from that(1) obtain st where st: "st \<in> set (bumped (equivocating q ces s) (st_Shards s))"
      "stShard st = sh" "unat (st_Threshold s) \<le> complaint_count C st"
      by (auto simp: complained_about_def complained_def C_def)
    then obtain c where "c \<in> set C" and c: "ShardTerm.truncate c = st"
      using t by (force simp: complaint_count_def filter_empty_conv
          dest: gr_implies_not0 [OF less_le_trans [OF t]])
    then have "st \<in> set (st_Shards s)"
      using after_collect_complaints(2) [OF assms, of L] by (auto simp: C_def)
    moreover obtain st0 where "st0 \<in> set (st_Shards s)" "st = next_term st0"
      using st eq by (auto simp: bumped_def split: if_splits)
    ultimately have "next_term st0 = st0"
      using d inj_onD [of stShard "set (st_Shards s)" "next_term st0" st0]
      by (simp add: distinct_map)
    then show False
      by (metis ShardTerm.select_convs(2) ShardTerm.surjective ShardTerm.update_convs(2) u64_succ_neq)
  qed
  then show ?thesis by blast
qed

lemma new_shards_bumped:
  assumes "wf_state q s" "\<forall>ce\<in>set ces. wf_event ce"
  shows "new_shards L q ces s =
    bumped (complained_about L q ces s \<union> equivocating q ces s) (st_Shards s)"
  unfolding new_shards_def by (rule bumped_bumped [OF complained_not_equivocating [OF assms]])

lemma u64_succ_not_le:
  assumes "(x :: u64) \<noteq> - 1"
  shows "\<not> x + 1 \<le> x"
proof -
  have "1 + x \<noteq> 0"
    using assms by (metis add.commute eq_neg_iff_add_eq_0)
  then have "unat (x + 1) = Suc (unat x)"
    by (simp add: unatSuc add.commute)
  then show ?thesis
    by (simp add: word_le_nat_alt)
qed

lemma kept_complaints_current:
  assumes "wf_state q s" "\<forall>ce\<in>set ces. wf_event ce" "terms_below_max s"
    and c: "c \<in> set (kept_complaints L q ces s)"
  shows "ShardTerm.truncate c \<in> set (new_shards L q ces s)"
proof -
  define R where "R = complained_about L q ces s \<union> equivocating q ces s"
  have n: "new_shards L q ces s = bumped R (st_Shards s)"
    using new_shards_bumped [OF assms(1,2)] by (simp add: R_def)
  have st: "ShardTerm.truncate c \<in> set (st_Shards s)"
    using c after_collect_complaints(2) [OF assms(1,2), of L]
    by (auto simp: kept_complaints_def Let_def)
  have "stShard c \<notin> R"
  proof
    assume "stShard c \<in> R"
    then have "next_term (ShardTerm.truncate c) \<in> set (bumped R (st_Shards s))"
      using st by (force simp: bumped_def)
    then have "stTerm c + 1 \<le> stTerm c"
      using c n by (fastforce simp: kept_complaints_def Let_def)
    moreover have "stTerm c \<noteq> - 1"
      using st assms(3) by (force simp: terms_below_max_def)
    ultimately show False
      by (simp add: u64_succ_not_le)
  qed
  then show ?thesis
    using st unfolding n bumped_def by (force simp: image_iff)
qed

section \<open>Preservation of the invariant\<close>

text \<open>No signer attests the same digest of a batch twice among the current events of one round.\<close>

definition fresh_events :: "ConfigSequence \<Rightarrow> ControlEvent list \<Rightarrow> bool" where
  "fresh_events q ces \<longleftrightarrow>
     distinct (map attestationKeyOf (filter (\<lambda>b. ConfigSeq b = q) (BAFs ces)))"

lemma gathered_props:
  assumes "wf_state q s" "b \<in> set (gathered q ces s)"
  shows "ConfigSeq b = q" "Shard b \<in> stShard ` set (st_Shards s)"
    "b \<in> set (st_Pending s) \<or> b \<in> set (BAFs ces)"
  using assms by (auto simp: gathered_def wf_state_def Let_def)

lemma distinct_map_append_new:
  "distinct (map k xs) \<Longrightarrow> distinct (map k ys) \<Longrightarrow>
   distinct (map k (xs @ filter (\<lambda>y. Q y \<and> k y \<notin> k ` set xs) ys))"
  by (auto simp: distinct_map_filter) (metis imageI)

lemma gathered_distinct:
  assumes "distinct_pending s" "fresh_events q ces"
  shows "distinct (map attestationKeyOf (gathered q ces s))"
  unfolding gathered_def Let_def using assms
  by (intro distinct_map_append_new) (simp_all add: distinct_pending_def fresh_events_def distinct_map_filter)

lemma distinct_next_state:
  assumes "distinct_pending s" "fresh_events q ces" "\<forall>ce\<in>set ces. wf_event ce"
  shows "distinct_pending (next_state L q ces s)"
  using gathered_distinct [OF assms(1,2)]
  by (simp add: distinct_pending_def next_state_fields [OF assms(3)] undecided_def Let_def distinct_map_filter)

lemma wf_next_state:
  assumes "wf_state q s" "\<forall>ce\<in>set ces. wf_event ce" "terms_below_max s"
  shows "wf_state q (next_state L q ces s)"
proof -
  have "distinct (map stShard (new_shards L q ces s))"
    using assms(1) by (simp add: new_shards_def wf_state_def)
  moreover have "Shard b \<in> stShard ` set (new_shards L q ces s)"
    if "b \<in> set (undecided q ces s)" for b
    using that gathered_props(2) [OF assms(1), of b ces]
    by (simp add: new_shards_def undecided_def Let_def)
  moreover have "distinct (map complaint_key (kept_complaints L q ces s))"
    using after_collect_complaints(1) [OF assms(1,2), of L]
    by (simp add: kept_complaints_def Let_def distinct_map_filter del: filter_filter)
  ultimately show ?thesis
    unfolding wf_state_def next_state_fields [OF assms(2)]
    using kept_complaints_current [OF assms(1-3)] after_collect_heights(1,2) [OF assms(1)] assms(1)
    by (simp add: wf_state_def)
qed

section \<open>Complaints of a round\<close>

text \<open>The parties that complain about a shard and term, in the state or in the events.\<close>

definition complainers ::
  "ConfigSequence \<Rightarrow> ControlEvent list \<Rightarrow> State \<Rightarrow> ShardTerm \<Rightarrow> PartyID set" where
  "complainers q ces s st =
     cSigner ` {c \<in> set (st_Complaints s) \<union> set (List.map_filter ceComplaint ces).
       cConfigSeq c = q \<and> ShardTerm.truncate c = st}"

lemma collect_event_keys:
  assumes "wf_event ce" "complaints_ok acc"
  shows "complaint_key ` set (st_Complaints (snd (collect_event K acc ce))) =
    complaint_key ` (set (st_Complaints (snd acc)) \<union>
      {c. ceComplaint ce = Some c \<and> ShardTerm.truncate c \<in> set (st_Shards (snd acc))})"
proof (cases "ceComplaint ce")
  case None
  with assms(1) show ?thesis
    by (cases acc; cases "ceBAF ce") (auto simp: collect_event_def collect_BAF_def)
next
  case (Some c)
  with assms(1) have "ceBAF ce = None"
    by (cases rule: wf_event_cases) simp_all
  with Some assms(2) show ?thesis
    by (cases acc) (auto simp: collect_event_def collect_Complaint_def Let_def complaints_ok_def)
qed

lemma collect_fold_keys:
  assumes "\<forall>ce\<in>set ces. wf_event ce" "complaints_ok acc"
  shows "complaint_key ` set (st_Complaints (snd (foldl (collect_event K) acc ces))) =
    complaint_key ` (set (st_Complaints (snd acc)) \<union>
      {c \<in> set (List.map_filter ceComplaint ces). ShardTerm.truncate c \<in> set (st_Shards (snd acc))})"
  using assms(1)
proof (induction ces rule: rev_induct)
  case Nil
  then show ?case by simp
next
  case (snoc ce ces)
  have "complaints_ok (foldl (collect_event K) acc ces)"
    by (rule collect_fold_complaints(1) [OF assms(2)])
  with snoc show ?case
    by (cases "ceComplaint ce") (auto simp: collect_event_keys image_Un)
qed

lemma Complaints_current:
  assumes "\<forall>ce\<in>set ces. wf_event ce"
  shows "set (List.map_filter ceComplaint (filter (event_current L q) ces)) =
    {c \<in> set (List.map_filter ceComplaint ces). cConfigSeq c = q}"
  using assms
proof (induction ces)
  case (Cons ce ces)
  then have "wf_event ce" by simp
  then have "set (case ceComplaint ce of None \<Rightarrow> [] | Some c \<Rightarrow> if event_current L q ce then [c] else []) =
      {c. ceComplaint ce = Some c \<and> cConfigSeq c = q}"
    by (cases rule: wf_event_cases) (auto simp: event_current_def)
  with Cons show ?case
    by (cases "ceComplaint ce") auto
qed simp

lemma complaint_count_signers:
  assumes "distinct (map complaint_key cs)"
  shows "complaint_count cs st = card (cSigner ` {c \<in> set cs. ShardTerm.truncate c = st})"
proof -
  have "distinct (map cSigner (filter (\<lambda>c. ShardTerm.truncate c = st) cs))"
    using assms by (auto simp: distinct_map inj_on_def)
  then have "card (cSigner ` set (filter (\<lambda>c. ShardTerm.truncate c = st) cs)) = complaint_count cs st"
    by (metis complaint_count_def distinct_card length_map set_map)
  then show ?thesis by simp
qed

lemma signers_from_keys:
  "cSigner ` {c \<in> A. ShardTerm.truncate c = st} = Pair st -` (complaint_key ` A)"
  by force

lemma complainers_count:
  assumes "wf_state q s" "\<forall>ce\<in>set ces. wf_event ce" "st \<in> set (st_Shards s)"
  shows "complaint_count (st_Complaints (after_collect L q ces s)) st = card (complainers q ces s st)"
proof -
  define C where "C = st_Complaints (after_collect L q ces s)"
  define F where "F = filter (event_current L q) ces"
  define s1 where "s1 = FilterPendingEventsWithDiffConfigSeq q
    (s\<lparr>st_StaleConfigBAFs := filter (\<lambda>b. ConfigSeq b < q) (BAFs ces)\<rparr>)"
  define K where "K = map attestationKeyOf (st_Pending s1)"
  define acc where "acc = (map complaint_key (st_Complaints s1), s1)"
  have "st_Complaints (CollectAssemblerReports F s') = st_Complaints s'" for s'
    by (subst CollectAssemblerReports_frame) simp
  then have C: "C = st_Complaints (snd (foldl (collect_event K) acc F))"
    by (simp add: C_def after_collect_def F_def s1_def K_def acc_def CollectAndDeduplicateEvents_def
        Let_def)
  have cs: "st_Complaints s1 = filter (\<lambda>c. cConfigSeq c = q) (st_Complaints s)"
    "st_Shards s1 = st_Shards s"
    by (simp_all add: s1_def FilterPendingEventsWithDiffConfigSeq_def)
  have ok: "complaints_ok acc"
    using assms(1) by (auto simp: complaints_ok_def acc_def cs wf_state_def distinct_map_filter)
  have keys: "complaint_key ` set C = complaint_key ` ({c \<in> set (st_Complaints s). cConfigSeq c = q} \<union>
      {c \<in> set (List.map_filter ceComplaint ces). cConfigSeq c = q \<and>
         ShardTerm.truncate c \<in> set (st_Shards s)})" (is "_ = _ ` ?A")
    unfolding C using collect_fold_keys [OF _ ok, of F K] assms(2) Complaints_current [OF assms(2), of L q]
    by (auto simp: F_def acc_def cs)
  have "cSigner ` {c \<in> set C. ShardTerm.truncate c = st} =
      cSigner ` {c \<in> ?A. ShardTerm.truncate c = st}"
    unfolding signers_from_keys keys ..
  also have "\<dots> = complainers q ces s st"
    unfolding complainers_def using assms(3)
    by (intro arg_cong [where f = "image cSigner"]) auto
  finally show ?thesis
    using complaint_count_signers after_collect_complaints(1) [OF assms(1,2), of L]
    by (simp add: C_def)
qed

section \<open>What a transition guarantees\<close>

lemma attested_signers:
  assumes "distinct (map attestationKeyOf G)" "b \<in> set G" "t \<le> support G b"
  shows "t \<le> card (Signer ` {b' \<in> set (filter (\<lambda>b. t \<le> support G b) G). BatchIDEqual b' b})"
proof -
  have "distinct (map attestationKeyOf (filter (\<lambda>b'. BatchIDEqual b' b) G))"
    using assms(1) by (rule distinct_map_filter)
  then have "distinct (map Signer (filter (\<lambda>b'. BatchIDEqual b' b) G))"
    by (auto simp: distinct_map inj_on_def attestationKeyOf_def BatchIDEqual_key)
  then have "card (Signer ` set (filter (\<lambda>b'. BatchIDEqual b' b) G)) = support G b"
    by (metis distinct_card length_map set_map support_def)
  moreover have "set (filter (\<lambda>b'. BatchIDEqual b' b) G) =
      {b' \<in> set (filter (\<lambda>b. t \<le> support G b) G). BatchIDEqual b' b}"
    using assms(3) support_cong [of _ b G] by auto
  ultimately show ?thesis
    using assms(3) by simp
qed

lemma new_shards_nth:
  assumes "wf_state q s" "\<forall>ce\<in>set ces. wf_event ce" "i < length (st_Shards s)"
  defines "st \<equiv> st_Shards s ! i"
  shows "new_shards L q ces s ! i =
    (if shard_equivocated (gathered q ces s) (stShard st) \<or>
        unat (st_Threshold s) \<le> card (complainers q ces s st)
     then next_term st else st)"
proof -
  define E where "E = equivocating q ces s"
  have d: "distinct (map stShard (st_Shards s))"
    using assms(1) by (simp add: wf_state_def)
  have st: "st \<in> set (st_Shards s)"
    using assms(3) by (simp add: st_def)
  have uniq: "st' = st" if "st' \<in> set (st_Shards s)" "stShard st' = stShard st" for st'
    using d st that by (auto simp: distinct_map dest: inj_onD)
  have "stShard st \<in> complained_about L q ces s \<longleftrightarrow>
      unat (st_Threshold s) \<le> card (complainers q ces s st)" if "stShard st \<notin> E"
  proof -
    have "st' \<in> set (bumped E (st_Shards s)) \<and> stShard st' = stShard st \<longleftrightarrow> st' = st" for st'
      using that st uniq by (auto simp: bumped_def split: if_splits)
    then have "stShard st \<in> complained_about L q ces s \<longleftrightarrow>
        unat (st_Threshold s) \<le> complaint_count (st_Complaints (after_collect L q ces s)) st"
      unfolding complained_about_def complained_def E_def [symmetric]
      by (auto simp: image_iff) metis
    then show ?thesis
      using complainers_count [OF assms(1,2) st] by simp
  qed
  then show ?thesis
    unfolding new_shards_bumped [OF assms(1,2)] bumped_def
    using assms(3) by (auto simp: st_def E_def equivocating_def)
qed

lemma filter_length_le: "(\<And>x. P x \<Longrightarrow> Q x) \<Longrightarrow> length (filter P xs) \<le> length (filter Q xs)"
  by (induction xs) auto

lemma attested_support:
  assumes "b \<in> set (attested q ces s)"
  shows "unat (st_Threshold s) \<le> length (filter (\<lambda>b'. BatchIDEqual b' b) (attested q ces s))"
proof -
  let ?G = "gathered q ces s" and ?t = "unat (st_Threshold s)"
  have b: "?t \<le> support ?G b"
    using assms by (simp add: attested_def Let_def)
  then have "filter (\<lambda>b'. BatchIDEqual b' b) (attested q ces s) = filter (\<lambda>b'. BatchIDEqual b' b) ?G"
    using support_cong [of _ b ?G] by (auto simp: attested_def Let_def intro!: filter_cong)
  then show ?thesis
    using b by (simp add: support_def)
qed

text \<open>
  (C1) A transition extracts only fragments at the current config sequence, of a known shard, taken from the pending
  ones or from the events, and at least \<^verbatim>\<open>Threshold\<close> of them for every batch that it extracts (shard, primary,
  sequence and digest). If no fragment is pending twice and the round carries no fragment twice, they are of at least
  \<^verbatim>\<open>Threshold\<close> different signers.
\<close>
theorem extracted_attested:
  assumes "wf_state q s" "\<forall>ce\<in>set ces. wf_event ce"
  shows "\<exists>s' ext cfg. Process L q ces s = Inr (s', ext, cfg) \<and>
    (\<forall>b\<in>set ext. ConfigSeq b = q \<and> Shard b \<in> stShard ` set (st_Shards s) \<and>
       (b \<in> set (st_Pending s) \<or> BAFEvent b \<in> set ces) \<and>
       unat (st_Threshold s) \<le> length (filter (\<lambda>b'. BatchIDEqual b' b) ext) \<and>
       (distinct_pending s \<and> fresh_events q ces \<longrightarrow>
          unat (st_Threshold s) \<le> card (Signer ` {b' \<in> set ext. BatchIDEqual b' b})))"
proof -
  have src: "BAFEvent b \<in> set ces" if "b \<in> set (BAFs ces)" for b
  proof -
    from that obtain ce where ce: "ce \<in> set ces" "ceBAF ce = Some b"
      by (auto simp: List.map_filter_def)
    then have "wf_event ce" using assms(2) by blast
    then show ?thesis
      using ce by (cases rule: wf_event_cases) auto
  qed
  have signers: "unat (st_Threshold s) \<le> card (Signer ` {b' \<in> set (attested q ces s). BatchIDEqual b' b})"
    if "b \<in> set (attested q ces s)" "distinct_pending s" "fresh_events q ces" for b
    using that(1) attested_signers [OF gathered_distinct [OF that(2,3)], of b "unat (st_Threshold s)"]
    by (simp add: attested_def Let_def)
  have "ConfigSeq b = q \<and> Shard b \<in> stShard ` set (st_Shards s) \<and> (b \<in> set (st_Pending s) \<or> BAFEvent b \<in> set ces)"
    if "b \<in> set (attested q ces s)" for b
    using that gathered_props [OF assms(1), of b ces] src by (auto simp: attested_def Let_def)
  then show ?thesis
    unfolding Process_closed_form [OF assms] using signers attested_support by blast
qed

text \<open>
  (C3) A transition decides every batch it can: on the fragments \<open>G\<close> of the round, which are the
  pending ones and the new ones at the current config sequence, it extracts exactly those whose
  batch and digest has \<^verbatim>\<open>Threshold\<close> fragments, and keeps pending exactly those for whose batch key no
  digest has that many. In particular nothing that stays pending could have been extracted.
\<close>
theorem extraction_exact:
  assumes "wf_state q s" "\<forall>ce\<in>set ces. wf_event ce" "Process L q ces s = Inr (s', ext, cfg)"
  shows "let G = gathered q ces s; t = unat (st_Threshold s) in
    ext = filter (\<lambda>b. t \<le> support G b) G \<and>
    st_Pending s' = filter (\<lambda>b. \<forall>b'\<in>set G. batchKeyOf b' = batchKeyOf b \<longrightarrow> support G b' < t) G"
  using assms(3) unfolding Process_closed_form [OF assms(1,2)]
  by (auto simp: attested_def undecided_def next_state_fields [OF assms(2)] Let_def)

text \<open>
  (C2) A transition never panics on a well-formed state, whatever well-formed events the round carries, repeated ones
  included. As long as no term is the largest of 64 bits, its result is well formed again: shards, complaints and
  assembler heights stay distinct, and every pending fragment and complaint refers to a current shard and term. If
  besides no fragment is pending twice and the round carries none twice, none is pending twice after it.
\<close>
theorem process_invariant:
  assumes "wf_state q s" "\<forall>ce\<in>set ces. wf_event ce"
  shows "\<exists>s' ext cfg. Process L q ces s = Inr (s', ext, cfg) \<and> (terms_below_max s \<longrightarrow> wf_state q s') \<and>
    (distinct_pending s \<and> fresh_events q ces \<longrightarrow> distinct_pending s')"
  using Process_closed_form [OF assms, of L] wf_next_state [OF assms] distinct_next_state [OF _ _ assms(2)] by blast

text \<open>
  (C4) The term of a shard moves on by exactly one in a round in which its primary is shown to have
  equivocated or at least \<^verbatim>\<open>Threshold\<close> different parties complain about its current term, and stays
  otherwise, even when both happen at once. The list of shards is unchanged.
\<close>
theorem term_rotation:
  assumes "wf_state q s" "\<forall>ce\<in>set ces. wf_event ce" "Process L q ces s = Inr (s', ext, cfg)"
  shows "map stShard (st_Shards s') = map stShard (st_Shards s) \<and>
    (\<forall>i < length (st_Shards s). stTerm (st_Shards s' ! i) =
      stTerm (st_Shards s ! i) +
      (if shard_equivocated (gathered q ces s) (stShard (st_Shards s ! i)) \<or>
          unat (st_Threshold s) \<le> card (complainers q ces s (st_Shards s ! i)) then 1 else 0))"
proof -
  have s': "st_Shards s' = new_shards L q ces s"
    using assms(3) unfolding Process_closed_form [OF assms(1,2)]
    by (auto simp: next_state_fields [OF assms(2)])
  show ?thesis
    using new_shards_nth [OF assms(1,2), of _ L] by (simp add: s' new_shards_def)
qed

text \<open>
  (C6) After a transition the recorded height of every assembler party is the highest decision among
  its recorded height and its reports at the current config sequence, in whatever order they come.
\<close>
theorem heights_highest:
  assumes "wf_state q s" "\<forall>ce\<in>set ces. wf_event ce" "Process L q ces s = Inr (s', ext, cfg)"
  shows "height_of (st_AssemblerHeights s') p =
    highest (height_of (st_AssemblerHeights s) p) (reports_of (filter (event_current L q) ces) p)"
  using assms(3) after_collect_heights(3) [OF assms(1), of L ces p]
  unfolding Process_closed_form [OF assms(1,2)] by (auto simp: next_state_fields [OF assms(2)])

text \<open>
  (C5) The durable watermark never decreases, and when it moves, at least \<open>2f + 1\<close> assembler parties
  have a recorded height at or above it.
\<close>
theorem watermark_durable:
  assumes "wf_state q s" "\<forall>ce\<in>set ces. wf_event ce" "Process L q ces s = Inr (s', ext, cfg)"
    and "ComputeFTQ (st_N s) = (f, t, quorum)"
  shows "st_DurableWatermark s \<le> st_DurableWatermark s' \<and>
    (st_DurableWatermark s' \<noteq> st_DurableWatermark s \<longrightarrow>
     2 * unat f + 1 \<le> card {p. \<exists>d. height_of (st_AssemblerHeights s') p = Some d \<and>
       st_DurableWatermark s' \<le> d})"
proof -
  define s7 where "s7 = (after_collect L q ces s)\<lparr>st_Shards := new_shards L q ces s,
    st_Complaints := kept_complaints L q ces s, st_Pending := undecided q ces s\<rparr>"
  have s': "s' = UpdateDurableWatermark s7"
    using assms(3) unfolding Process_closed_form [OF assms(1,2)] by (auto simp: next_state_def s7_def)
  have h: "st_AssemblerHeights s' = st_AssemblerHeights s7"
    unfolding s' by (subst Watermark_frame) simp
  have f: "st_N s7 = st_N s" "st_DurableWatermark s7 = st_DurableWatermark s"
    unfolding s7_def by (subst after_collect_frame [OF assms(2)], simp)+
  have d: "distinct (map ahParty (st_AssemblerHeights s7))"
    using after_collect_heights(1) [OF assms(1), of L ces] by (simp add: s7_def)
  let ?W = "st_DurableWatermark s'"
  have "distinct (map ahParty (filter (\<lambda>h. ?W \<le> ahDecisionNum h) (st_AssemblerHeights s7)))"
    using d by (rule distinct_map_filter)
  from distinct_card [OF this]
  have "length (filter (\<lambda>h. ?W \<le> ahDecisionNum h) (st_AssemblerHeights s7)) =
      card (ahParty ` {h \<in> set (st_AssemblerHeights s7). ?W \<le> ahDecisionNum h})"
    by simp
  also have "ahParty ` {h \<in> set (st_AssemblerHeights s7). ?W \<le> ahDecisionNum h} =
      {p. \<exists>d. height_of (st_AssemblerHeights s7) p = Some d \<and> ?W \<le> d}"
    using d by (auto simp: height_of_def map_of_eq_Some_iff comp_def image_iff)
  finally show ?thesis
    using Watermark_mono [of s7] Watermark_backed [of s7 f t quorum] assms(4) f h by (auto simp: s')
qed

text \<open>
  (C22) A transition surfaces exactly the fragments of its events that are behind the current config
  sequence, in order, and nothing of an earlier round: a fragment that came too late for its
  configuration is shown for one decision.
\<close>
theorem stale_surfaced:
  assumes "wf_state q s" "\<forall>ce\<in>set ces. wf_event ce" "Process L q ces s = Inr (s', ext, cfg)"
  shows "st_StaleConfigBAFs s' = filter (\<lambda>b. ConfigSeq b < q) (BAFs ces)"
  using assms(3) unfolding Process_closed_form [OF assms(1,2)]
  by (auto simp: next_state_fields [OF assms(2)])

section \<open>A concrete round\<close>

definition ex_lib :: fabric_lib where
  "ex_lib = \<lparr>UnmarshalPayload = \<lambda>_. Inl (ErrNew ''''), UnmarshalConfigEnvelope = \<lambda>_. Inl (ErrNew ''''),
     UnmarshalChannelHeader = \<lambda>_. Inl (ErrNew ''''), MarshalEnvelope = \<lambda>_. Inl (ErrNew ''''),
     UnmarshalEnvelope = \<lambda>_. Inl (ErrNew '''')\<rparr>"

definition ex_baf :: "PartyID \<Rightarrow> bytes \<Rightarrow> BAF" where
  "ex_baf signer digest =
     \<lparr>Shard = 1, Primary = 1, Seq = 4, Digest = digest, Signer = signer, Signature = Some [],
      PrimarySignature = Some [9], ConfigSeq = 3, TXCount = 2\<rparr>"

definition ex_complaint :: "PartyID \<Rightarrow> Complaint" where
  "ex_complaint signer =
     \<lparr>stShard = 2, stTerm = 7, cSigner = signer, cSignature = [], cReason = [], cConfigSeq = 3\<rparr>"

definition ex_state :: State where
  "ex_state =
     \<lparr>st_N = 4, st_Quorum = 3, st_Threshold = 2,
      st_Shards = [\<lparr>stShard = 1, stTerm = 0\<rparr>, \<lparr>stShard = 2, stTerm = 7\<rparr>],
      st_Pending = [ex_baf 2 [5]], st_Complaints = [ex_complaint 1], st_AppContext = [],
      st_StaleConfigBAFs = [],
      st_AssemblerHeights = [\<lparr>ahParty = 1, ahDecisionNum = 4\<rparr>, \<lparr>ahParty = 2, ahDecisionNum = 6\<rparr>],
      st_PrunePoints = [], st_DurableWatermark = 0\<rparr>"

definition ex_events :: "ControlEvent list" where
  "ex_events =
     [BAFEvent (ex_baf 3 [5]), ComplaintEvent (ex_complaint 4),
      ReportEvent \<lparr>rParty = 3, rDecisionNum = 5, rConfigSeq = 3, rSignature = [1]\<rparr>,
      BAFEvent ((ex_baf 4 [6])\<lparr>ConfigSeq := 2\<rparr>)]"

lemmas ex_defs = ex_state_def ex_events_def ex_baf_def ex_complaint_def

lemma ex_wf: "wf_state 3 ex_state" "\<forall>ce\<in>set ex_events. wf_event ce" "fresh_events 3 ex_events"
  "terms_below_max ex_state" "distinct_pending ex_state"
  by (simp_all add: ex_defs wf_state_def wf_event_def fresh_events_def terms_below_max_def distinct_pending_def
      BAF_normal_def ShardTerm.truncate_def)

lemma ex_round:
  "Process ex_lib 3 ex_events ex_state =
     Inr (ex_state\<lparr>st_Shards := [\<lparr>stShard = 1, stTerm = 0\<rparr>, \<lparr>stShard = 2, stTerm = 8\<rparr>],
            st_Pending := [], st_Complaints := [],
            st_StaleConfigBAFs := [(ex_baf 4 [6])\<lparr>ConfigSeq := 2\<rparr>],
            st_AssemblerHeights := [\<lparr>ahParty = 1, ahDecisionNum = 4\<rparr>,
              \<lparr>ahParty = 2, ahDecisionNum = 6\<rparr>, \<lparr>ahParty = 3, ahDecisionNum = 5\<rparr>],
            st_DurableWatermark := 4\<rparr>,
          [ex_baf 2 [5], ex_baf 3 [5]], [])"
  by code_simp

section \<open>The properties at the concrete round\<close>

theorem extracted_attested_witness:
  "2 \<le> card (Signer ` {b' \<in> set [ex_baf 2 [5], ex_baf 3 [5]]. BatchIDEqual b' (ex_baf 2 [5])})"
  using extracted_attested [OF ex_wf(1,2), of ex_lib] ex_wf(3,5) unfolding ex_round
  by (simp add: ex_state_def)

theorem extraction_exact_witness:
  "[ex_baf 2 [5], ex_baf 3 [5]] =
     filter (\<lambda>b. 2 \<le> support (gathered 3 ex_events ex_state) b) (gathered 3 ex_events ex_state)"
  using extraction_exact [OF ex_wf(1,2) ex_round]
  by (simp add: ex_state_def Let_def)

theorem process_invariant_witness:
  "\<exists>s' ext cfg. Process ex_lib 3 ex_events ex_state = Inr (s', ext, cfg) \<and> wf_state 3 s' \<and> distinct_pending s'"
  using process_invariant [OF ex_wf(1,2), of ex_lib] ex_wf(3-5) by blast

theorem term_rotation_witness:
  "stTerm (st_Shards ex_state ! 1) + 1 = 8 \<and>
   2 \<le> card (complainers 3 ex_events ex_state \<lparr>stShard = 2, stTerm = 7\<rparr>)"
proof -
  have "\<not> shard_equivocated (gathered 3 ex_events ex_state) 2"
    by (auto simp: shard_equivocated_def equivocated_def gathered_def Let_def ex_defs batchKeyOf_def)
  then show ?thesis
    using term_rotation [OF ex_wf(1,2) ex_round, THEN conjunct2, THEN spec, of 1]
    by (simp add: ex_state_def split: if_splits)
qed

theorem heights_highest_witness:
  "Some 5 = highest (height_of (st_AssemblerHeights ex_state) 3)
     (reports_of (filter (event_current ex_lib 3) ex_events) 3)"
  using heights_highest [OF ex_wf(1,2) ex_round, of 3] by simp

theorem watermark_durable_witness:
  "3 \<le> card {p. \<exists>d. height_of [\<lparr>ahParty = 1, ahDecisionNum = 4\<rparr>, \<lparr>ahParty = 2, ahDecisionNum = 6\<rparr>,
     \<lparr>ahParty = 3, ahDecisionNum = 5\<rparr>] p = Some d \<and> 4 \<le> d}"
proof -
  have "ComputeFTQ (st_N ex_state) = (1, 2, 3)"
    by code_simp
  from watermark_durable [OF ex_wf(1,2) ex_round this] show ?thesis
    by (simp add: ex_state_def)
qed

theorem stale_surfaced_witness:
  "[(ex_baf 4 [6])\<lparr>ConfigSeq := 2\<rparr>] = filter (\<lambda>b. ConfigSeq b < 3) (BAFs ex_events)"
  using stale_surfaced [OF ex_wf(1,2) ex_round] by simp

section \<open>Repeated fragments within a round\<close>

lemma count_filter: "P x \<Longrightarrow> count_list (filter P xs) x = count_list xs x"
  by (induction xs) auto

lemma repeated_gathered:
  assumes "ConfigSeq b = q" "Shard b \<in> stShard ` set (st_Shards s)" "attestationKeyOf b \<notin> attestationKeyOf ` set (st_Pending s)"
  shows "count_list ces (BAFEvent b) \<le> count_list (gathered q ces s) b"
proof -
  have "count_list ces (BAFEvent b) \<le> count_list (BAFs ces) b"
    by (induction ces) (auto split: option.split)
  also have "\<dots> = count_list (filter (\<lambda>b'. Shard b' \<in> stShard ` set (st_Shards s) \<and>
      attestationKeyOf b' \<notin> attestationKeyOf ` set (filter (\<lambda>b. ConfigSeq b = q) (st_Pending s)))
      (filter (\<lambda>b. ConfigSeq b = q) (BAFs ces))) b"
    using assms by (intro trans [OF count_filter [symmetric] count_filter [symmetric]]) auto
  finally show ?thesis
    by (simp add: gathered_def Let_def)
qed

text \<open>
  (C23) The attestation keys against which new fragments are compared are those pending before the round, so every copy
  of a new fragment counts. A fragment of a known shard that a round carries \<^verbatim>\<open>Threshold\<close> times is extracted that often,
  and if no other fragment of its batch is pending or in the round, on the signature of a single party. That a
  round has no repetitions is a condition on who assembles it, and cannot be dropped from the guarantee on signers.
\<close>
theorem repeated_fragment_extracted:
  assumes "wf_state q s" "\<forall>ce\<in>set ces. wf_event ce" "ConfigSeq b = q" "Shard b \<in> stShard ` set (st_Shards s)"
    and "attestationKeyOf b \<notin> attestationKeyOf ` set (st_Pending s)" "unat (st_Threshold s) \<le> count_list ces (BAFEvent b)"
  shows "\<exists>s' ext cfg. Process L q ces s = Inr (s', ext, cfg) \<and> unat (st_Threshold s) \<le> count_list ext b \<and>
    ((\<forall>b'\<in>set (st_Pending s) \<union> set (BAFs ces). BatchIDEqual b' b \<longrightarrow> b' = b) \<longrightarrow>
       Signer ` {b' \<in> set ext. BatchIDEqual b' b} = {Signer b})"
proof -
  let ?G = "gathered q ces s" and ?t = "unat (st_Threshold s)"
  have "?t \<le> count_list ?G b"
    using repeated_gathered [OF assms(3-5)] assms(6) by (rule le_trans [rotated])
  moreover have "count_list ?G b \<le> support ?G b"
    unfolding support_def count_list_eq_length_filter by (rule filter_length_le) (simp add: BatchIDEqual_key)
  ultimately have b: "?t \<le> support ?G b" "?t \<le> count_list (attested q ces s) b"
    by (simp_all add: attested_def Let_def count_filter)
  moreover have "0 < ?t"
    using assms(1) by (simp add: wf_state_def unat_gt_0)
  ultimately have "b \<in> set (attested q ces s)"
    using count_list_0_iff [of "attested q ces s" b] by linarith
  moreover have "b' = b" if "b' \<in> set (attested q ces s)" "BatchIDEqual b' b"
      "\<forall>b'\<in>set (st_Pending s) \<union> set (BAFs ces). BatchIDEqual b' b \<longrightarrow> b' = b" for b'
    using that gathered_props(3) [OF assms(1), of b' ces] by (auto simp: attested_def Let_def)
  ultimately show ?thesis
    unfolding Process_closed_form [OF assms(1,2)] using b(2) by (auto simp: BatchIDEqual_def)
qed

definition ex_repeated :: "ControlEvent list" where
  "ex_repeated = [BAFEvent (ex_baf 3 [6]), BAFEvent (ex_baf 3 [6])]"

theorem repeated_fragment_extracted_witness:
  "\<exists>s' ext cfg. Process ex_lib 3 ex_repeated ex_state = Inr (s', ext, cfg) \<and>
     Signer ` {b' \<in> set ext. BatchIDEqual b' (ex_baf 3 [6])} = {3} \<and> 1 < unat (st_Threshold ex_state)"
proof -
  have "\<forall>ce\<in>set ex_repeated. wf_event ce"
    by (simp add: ex_repeated_def wf_event_def ex_baf_def BAF_normal_def)
  moreover have "\<not> BatchIDEqual (ex_baf 2 [5]) (ex_baf 3 [6])"
    "attestationKeyOf (ex_baf 3 [6]) \<notin> attestationKeyOf ` set (st_Pending ex_state)"
    "unat (st_Threshold ex_state) \<le> count_list ex_repeated (BAFEvent (ex_baf 3 [6]))"
    by code_simp+
  ultimately show ?thesis
    using repeated_fragment_extracted [OF ex_wf(1), of ex_repeated "ex_baf 3 [6]" ex_lib]
    by (simp add: ex_defs ex_repeated_def) blast
qed

end
