(* ===== verification/BatchStore.thy ===== *)
theory BatchStore
  imports Prelude "HOL-Library.AList"
begin

text \<open>
  The store in which the primary batcher fills its batches (\<^verbatim>\<open>src/request/batchstore.go\<close>,
  \<^verbatim>\<open>src/request/batch.go\<close>). Batches are shared: the index \<^verbatim>\<open>keys2Batches\<close> points to the current
  batch, to ready ones and to ones that were fetched and not removed yet. They live in a heap, and a
  pointer is a position of it. A \<^verbatim>\<open>sync.Map\<close> is an association list, in the order of insertion where
  the code ranges over it; no property depends on that order.

  \<^verbatim>\<open>Insert\<close> is split into its atomic steps. They are composed twice: here one after the other, as a caller
  that is alone sees them, and in \<open>BatchStoreCallers\<close> in a transition system where any number of callers
  interleave.
\<close>

section \<open>Work on many keys\<close>

text \<open>
  \<^verbatim>\<open>parallelForEachKey\<close> hands contiguous chunks of the keys to workers (\<^verbatim>\<open>src/request/utils.go\<close>). What they do for
  different keys commutes, so the workers are taken one after the other. The function tells with its
  second result whether its worker goes on.
\<close>

fun each_key :: "(string \<Rightarrow> 's \<Rightarrow> 's \<times> bool) \<Rightarrow> string list \<Rightarrow> 's \<Rightarrow> 's" where
  "each_key fn [] s = s"
| "each_key fn (key # keys) s = (let (s', go) = fn key s in if go then each_key fn keys s' else s')"

function chunks :: "nat \<Rightarrow> 'a list \<Rightarrow> 'a list list" where
  "chunks n xs = (if xs = [] \<or> n = 0 then [] else take n xs # chunks n (drop n xs))"
  by pat_completeness auto
termination
  by (relation "measure (length \<circ> snd)") auto

declare chunks.simps [simp del]

definition parallelForEachKey ::
  "nat \<Rightarrow> string list \<Rightarrow> (string \<Rightarrow> 's \<Rightarrow> 's \<times> bool) \<Rightarrow> 's \<Rightarrow> 's" where
  "parallelForEachKey workerNum keys fn s =
     (if keys = [] then s
      else if length keys < workerNum then each_key fn keys s
      else fold (each_key fn) (chunks ((length keys + workerNum - 1) div workerNum) keys) s)"

lemma concat_chunks: "n \<noteq> 0 \<Longrightarrow> concat (chunks n xs) = xs"
  by (induction n xs rule: chunks.induct) (subst chunks.simps, simp)

text \<open>Workers that never stop: each key is worked on, in order, as long as the states the workers see satisfy an invariant.\<close>

lemma each_key_append:
  assumes "\<And>key s. I s \<Longrightarrow> snd (fn key s) \<and> I (fst (fn key s))" "I s"
  shows "each_key fn (xs @ ys) s = each_key fn ys (each_key fn xs s) \<and> I (each_key fn xs s)"
  using assms(2) by (induction xs arbitrary: s) (simp_all add: case_prod_unfold assms(1))

lemma parallelForEachKey_all:
  assumes "\<And>key s. I s \<Longrightarrow> snd (fn key s) \<and> I (fst (fn key s))" "I s" "workerNum \<noteq> 0"
  shows "parallelForEachKey workerNum keys fn s = each_key fn keys s"
proof -
  have "fold (each_key fn) xss s = each_key fn (concat xss) s" for xss
    using assms(2) by (induction xss arbitrary: s) (simp_all add: each_key_append [of I, OF assms(1)])
  moreover have "(length keys + workerNum - 1) div workerNum \<noteq> 0" if "keys \<noteq> []"
    using that assms(3) by (cases keys) (auto simp: div_eq_0_iff)
  ultimately show ?thesis
    by (simp add: parallelForEachKey_def concat_chunks)
qed

section \<open>Batches\<close>

definition sizeBytesOffset :: nat where
  "sizeBytesOffset = 32"

record batch =
  sizeBytes :: u64
  enqueued :: bool
  bm :: "(string \<times> bytes) list"

definition empty_batch :: batch where
  "empty_batch = \<lparr>sizeBytes = 0, enqueued = False, bm = []\<rparr>"

definition batch_Load :: "batch \<Rightarrow> string \<Rightarrow> bytes option" where
  "batch_Load b key = map_of (bm b) key"

definition isEnqueued :: "batch \<Rightarrow> bool" where
  "isEnqueued b = enqueued b"

definition markEnqueued :: "batch \<Rightarrow> batch" where
  "markEnqueued b = b\<lparr>enqueued := True\<rparr>"

definition batch_Store :: "string \<Rightarrow> bytes \<Rightarrow> batch \<Rightarrow> batch" where
  "batch_Store key value b = b\<lparr>bm := AList.update key value (bm b)\<rparr>"

definition batch_Delete :: "string \<Rightarrow> batch \<Rightarrow> batch" where
  "batch_Delete key b = b\<lparr>bm := AList.delete key (bm b)\<rparr>"

section \<open>The store\<close>

record BatchStore =
  bsHeap :: "batch list"
  currentBatch :: nat
  readyBatches :: "nat list"
  batchMaxSize :: u32
  batchMaxSizeBytes :: u32
  keys2Batches :: "(string \<times> nat) list"

definition NewBatchStore :: "u32 \<Rightarrow> u32 \<Rightarrow> BatchStore" where
  "NewBatchStore maxSize maxBytes =
     \<lparr>bsHeap = [empty_batch], currentBatch = 0, readyBatches = [], batchMaxSize = maxSize,
      batchMaxSizeBytes = maxBytes, keys2Batches = []\<rparr>"

definition upd_batch :: "nat \<Rightarrow> (batch \<Rightarrow> batch) \<Rightarrow> BatchStore \<Rightarrow> BatchStore" where
  "upd_batch a f bs = bs\<lparr>bsHeap := (bsHeap bs)[a := f (bsHeap bs ! a)]\<rparr>"

definition fresh_current :: "BatchStore \<Rightarrow> BatchStore" where
  "fresh_current bs = bs\<lparr>bsHeap := bsHeap bs @ [empty_batch], currentBatch := length (bsHeap bs)\<rparr>"

definition Lookup :: "BatchStore \<Rightarrow> string \<Rightarrow> bytes option" where
  "Lookup bs key =
     (case map_of (keys2Batches bs) key of None \<Rightarrow> None | Some a \<Rightarrow> batch_Load (bsHeap bs ! a) key)"

text \<open>
  The steps of an insertion. The size of a batch, and its size in bytes, are the halves of one word that
  is increased by a single atomic addition, whether or not the request then goes into the batch.
\<close>

definition full_size :: "BatchStore \<Rightarrow> u64 \<Rightarrow> bool" where
  "full_size bs newSize \<longleftrightarrow>
     (ucast (drop_bit sizeBytesOffset newSize) :: u32) > batchMaxSize bs \<or>
     (ucast newSize :: u32) > batchMaxSizeBytes bs"

definition add_size :: "BatchStore \<Rightarrow> u32 \<Rightarrow> BatchStore \<times> bool" where
  "add_size bs reqSize =
     (let newSize = sizeBytes (bsHeap bs ! currentBatch bs) + (ucast reqSize + push_bit sizeBytesOffset 1)
      in (upd_batch (currentBatch bs) (\<lambda>b. b\<lparr>sizeBytes := newSize\<rparr>) bs, \<not> full_size bs newSize))"

definition claim_key :: "BatchStore \<Rightarrow> string \<Rightarrow> nat \<Rightarrow> BatchStore \<times> bool" where
  "claim_key bs key a =
     (if map_of (keys2Batches bs) key = None then (bs\<lparr>keys2Batches := (key, a) # keys2Batches bs\<rparr>, True)
      else (bs, False))"

definition store_value :: "nat \<Rightarrow> string \<Rightarrow> bytes \<Rightarrow> BatchStore \<Rightarrow> BatchStore" where
  "store_value a key value bs = upd_batch a (batch_Store key value) bs"

definition enqueue_batch :: "nat \<Rightarrow> BatchStore \<Rightarrow> BatchStore" where
  "enqueue_batch a bs =
     (if isEnqueued (bsHeap bs ! a) then bs
      else fresh_current ((upd_batch a markEnqueued bs)\<lparr>readyBatches := readyBatches bs @ [a]\<rparr>))"

text \<open>An insertion that is alone. The loop need not end: no result stands for that.\<close>

partial_function (option) Insert :: "BatchStore \<Rightarrow> string \<Rightarrow> bytes \<Rightarrow> u32 \<Rightarrow> (BatchStore \<times> bool) option" where
  "Insert bs key value reqSize =
     (let (bs1, room) = add_size bs reqSize in
      if room then
        (let (bs2, new) = claim_key bs1 key (currentBatch bs1) in
         Some (if new then store_value (currentBatch bs1) key value bs2 else bs2, new))
      else Insert (enqueue_batch (currentBatch bs1) bs1) key value reqSize)"

declare Insert.simps [code]

text \<open>The same loop that is given a number of turns, and has no result when it has not ended by then.\<close>

primrec Insert_turns :: "nat \<Rightarrow> BatchStore \<Rightarrow> string \<Rightarrow> bytes \<Rightarrow> u32 \<Rightarrow> (BatchStore \<times> bool) option" where
  "Insert_turns 0 bs key value reqSize = None"
| "Insert_turns (Suc t) bs key value reqSize =
     (let (bs1, room) = add_size bs reqSize in
      if room then
        (let (bs2, new) = claim_key bs1 key (currentBatch bs1) in
         Some (if new then store_value (currentBatch bs1) key value bs2 else bs2, new))
      else Insert_turns t (enqueue_batch (currentBatch bs1) bs1) key value reqSize)"

definition ForEach :: "BatchStore \<Rightarrow> (string \<times> bytes) list" where
  "ForEach bs = concat (map (\<lambda>a. bm (bsHeap bs ! a)) (readyBatches bs @ [currentBatch bs]))"

text \<open>The callback \<^verbatim>\<open>onDelete\<close> is a result: the keys it was called with.\<close>

definition Remove :: "string \<Rightarrow> BatchStore \<Rightarrow> BatchStore \<times> string list" where
  "Remove key bs =
     (case map_of (keys2Batches bs) key of
        None \<Rightarrow> (bs, [])
      | Some a \<Rightarrow>
          (upd_batch a (batch_Delete key) (bs\<lparr>keys2Batches := AList.delete key (keys2Batches bs)\<rparr>), [key]))"

fun remove_each :: "(string \<Rightarrow> 's \<Rightarrow> 's \<times> string list) \<Rightarrow> string list \<Rightarrow> 's \<Rightarrow> 's \<times> string list" where
  "remove_each release [] s = (s, [])"
| "remove_each release (key # keys) s =
     (let (s1, ds) = release key s; (s2, ds') = remove_each release keys s1 in (s2, ds @ ds'))"

definition RemoveRequests :: "nat \<Rightarrow> string list \<Rightarrow> BatchStore \<Rightarrow> BatchStore \<times> string list" where
  "RemoveRequests numCPU keys bs =
     parallelForEachKey numCPU keys (\<lambda>key (bs, ds). let (bs', d) = Remove key bs in ((bs', ds @ d), True)) (bs, [])"

definition prune_batch :: "(string \<Rightarrow> bytes \<Rightarrow> error option) \<Rightarrow> nat \<Rightarrow> BatchStore \<Rightarrow> BatchStore \<times> string list" where
  "prune_batch f a bs =
     remove_each Remove (map fst (filter (\<lambda>(k, v). f k v \<noteq> None) (bm (bsHeap bs ! a)))) bs"

fun prune_batches ::
  "(string \<Rightarrow> bytes \<Rightarrow> error option) \<Rightarrow> nat list \<Rightarrow> BatchStore \<Rightarrow> BatchStore \<times> string list" where
  "prune_batches f [] bs = (bs, [])"
| "prune_batches f (a # as) bs =
     (let (bs1, ds) = prune_batch f a bs; (bs2, ds') = prune_batches f as bs1 in (bs2, ds @ ds'))"

definition Prune :: "(string \<Rightarrow> bytes \<Rightarrow> error option) \<Rightarrow> BatchStore \<Rightarrow> BatchStore \<times> string list" where
  "Prune f bs = prune_batches f (readyBatches bs @ [currentBatch bs]) bs"

definition prepareBatch :: "nat \<Rightarrow> BatchStore \<Rightarrow> BatchStore \<times> bytes list \<times> string list" where
  "prepareBatch a bs =
     (upd_batch a markEnqueued bs, map snd (bm (bsHeap bs ! a)), map fst (bm (bsHeap bs ! a)))"

definition dequeueBatch :: "BatchStore \<Rightarrow> BatchStore \<times> bytes list \<times> string list" where
  "dequeueBatch bs =
     (let (bs1, result) = prepareBatch (hd (readyBatches bs)) bs in (bs1\<lparr>readyBatches := tl (readyBatches bs)\<rparr>, result))"

function fetch_ready :: "BatchStore \<Rightarrow> BatchStore \<times> (bytes list \<times> string list) option" where
  "fetch_ready bs =
     (if readyBatches bs = [] then (bs, None)
      else
        (let (bs1, dequeued, ids) = dequeueBatch bs in
         if dequeued = [] then fetch_ready bs1 else (bs1, Some (dequeued, ids))))"
  by pat_completeness auto

termination fetch_ready
proof (relation "measure (length \<circ> readyBatches)", goal_cases)
  case (2 bs x bs1 y dequeued ids)
  then show ?case
    by (cases "readyBatches bs") (auto simp: dequeueBatch_def prepareBatch_def)
qed simp

declare fetch_ready.simps [simp del]

text \<open>
  \<^verbatim>\<open>Fetch\<close> waits until a batch is ready or the context is done: no result stands for a caller that
  still waits.
\<close>

definition Fetch :: "bool \<Rightarrow> BatchStore \<Rightarrow> (BatchStore \<times> bytes list \<times> string list) option" where
  "Fetch ctxDone bs =
     (if readyBatches bs = [] \<and> \<not> ctxDone then None
      else
        (case fetch_ready bs of
           (bs1, Some (requests, ids)) \<Rightarrow> Some (bs1, requests, ids)
         | (bs1, None) \<Rightarrow>
             let returnedBatch = currentBatch bs1 in
             if sizeBytes (bsHeap bs1 ! returnedBatch) = 0 then Some (bs1, [], [])
             else Some (prepareBatch returnedBatch (fresh_current bs1))))"

lemma remove_parallel:
  assumes "\<And>key s ds. I s \<Longrightarrow> fn key (s, ds) = ((fst (release key s), ds @ snd (release key s)), True)"
    and "\<And>key s. I s \<Longrightarrow> I (fst (release key s))" "I s" "workerNum \<noteq> 0"
  shows "parallelForEachKey workerNum keys fn (s, []) = remove_each release keys s"
proof -
  have "parallelForEachKey workerNum keys fn (s, []) = each_key fn keys (s, [])"
    using assms by (intro parallelForEachKey_all [where I = "\<lambda>s. I (fst s)"]) auto
  moreover have "each_key fn keys (s, ds) = (let (s', ds') = remove_each release keys s in (s', ds @ ds'))" for ds
    using assms(3) by (induction keys arbitrary: s ds) (simp_all add: case_prod_unfold Let_def assms(1,2))
  ultimately show ?thesis
    by (simp add: case_prod_unfold)
qed

lemma RemoveRequests_keys: "numCPU \<noteq> 0 \<Longrightarrow> RemoveRequests numCPU keys bs = remove_each Remove keys bs"
  unfolding RemoveRequests_def
  by (rule remove_parallel [where I = "\<lambda>_. True"]) (simp_all add: case_prod_unfold Let_def)

lemma remove_each_frame:
  assumes "\<And>k s. g (fst (release k s)) = g s"
  shows "g (fst (remove_each release ks s)) = g s"
  by (induction ks arbitrary: s) (simp_all add: case_prod_unfold Let_def assms)

section \<open>Releasing requests\<close>

text \<open>
  What the pool relies on when a store lets go of requests: a store holds a finite set of keys, and an
  operation on one key tells exactly which key it gave up. The two stores of the pool have this
  contract for their removals and prunings.
\<close>

locale request_store =
  fixes inv :: "'s \<Rightarrow> bool" and held :: "'s \<Rightarrow> string set"
  assumes held_finite: "inv s \<Longrightarrow> finite (held s)"

locale releasing = request_store +
  fixes release :: "string \<Rightarrow> 's \<Rightarrow> 's \<times> string list"
  assumes release_inv: "inv s \<Longrightarrow> inv (fst (release k s))"
    and release_held: "inv s \<Longrightarrow> held (fst (release k s)) = held s - set (snd (release k s))"
    and release_keys: "inv s \<Longrightarrow> set (snd (release k s)) \<subseteq> held s \<inter> {k}"
    and release_once: "inv s \<Longrightarrow> distinct (snd (release k s))"
begin

lemma release_each:
  "inv s \<Longrightarrow> inv (fst (remove_each release ks s)) \<and>
     held (fst (remove_each release ks s)) = held s - set (snd (remove_each release ks s)) \<and>
     set (snd (remove_each release ks s)) \<subseteq> held s \<inter> set ks \<and> distinct (snd (remove_each release ks s))"
proof (induction ks arbitrary: s)
  case (Cons k ks)
  note IH = Cons.IH [OF release_inv [OF Cons.prems, of k]]
  show ?case
    using IH release_held [OF Cons.prems, of k] release_keys [OF Cons.prems, of k] release_once [OF Cons.prems, of k]
    by (simp add: case_prod_unfold Let_def) blast
qed simp

lemma release_each_card:
  assumes "inv s"
  shows "card (held (fst (remove_each release ks s))) + length (snd (remove_each release ks s)) = card (held s)"
proof -
  note r = release_each [OF assms, of ks]
  then have "card (held s - set (snd (remove_each release ks s))) = card (held s) - card (set (snd (remove_each release ks s)))"
    by (intro card_Diff_subset) auto
  moreover have "card (set (snd (remove_each release ks s))) \<le> card (held s)"
    using r held_finite [OF assms] by (intro card_mono) auto
  ultimately show ?thesis
    using r by (simp add: distinct_card)
qed

end

section \<open>Well-formed stores\<close>

text \<open>
  Pointers are valid, the current batch is not enqueued, and a key is indexed under a batch exactly
  when the batch holds it.
\<close>

definition bs_wf :: "BatchStore \<Rightarrow> bool" where
  "bs_wf bs \<longleftrightarrow>
     currentBatch bs < length (bsHeap bs) \<and> (\<forall>a\<in>set (readyBatches bs). a < length (bsHeap bs)) \<and>
     distinct (currentBatch bs # readyBatches bs) \<and> \<not> enqueued (bsHeap bs ! currentBatch bs) \<and>
     distinct (map fst (keys2Batches bs)) \<and> (\<forall>b\<in>set (bsHeap bs). distinct (map fst (bm b))) \<and>
     (\<forall>k a. map_of (keys2Batches bs) k = Some a \<longleftrightarrow>
        a < length (bsHeap bs) \<and> k \<in> fst ` set (bm (bsHeap bs ! a)))"

lemma upd_batch_simps [simp]:
  "length (bsHeap (upd_batch a f bs)) = length (bsHeap bs)" "currentBatch (upd_batch a f bs) = currentBatch bs"
  "readyBatches (upd_batch a f bs) = readyBatches bs" "batchMaxSize (upd_batch a f bs) = batchMaxSize bs"
  "batchMaxSizeBytes (upd_batch a f bs) = batchMaxSizeBytes bs" "keys2Batches (upd_batch a f bs) = keys2Batches bs"
  by (simp_all add: upd_batch_def)

lemma upd_batch_nth:
  "a < length (bsHeap bs) \<Longrightarrow> bsHeap (upd_batch a f bs) ! i = (if i = a then f (bsHeap bs ! a) else bsHeap bs ! i)"
  by (simp add: upd_batch_def nth_list_update)

lemma fresh_current_simps [simp]:
  "length (bsHeap (fresh_current bs)) = Suc (length (bsHeap bs))" "currentBatch (fresh_current bs) = length (bsHeap bs)"
  "readyBatches (fresh_current bs) = readyBatches bs" "batchMaxSize (fresh_current bs) = batchMaxSize bs"
  "batchMaxSizeBytes (fresh_current bs) = batchMaxSizeBytes bs" "keys2Batches (fresh_current bs) = keys2Batches bs"
  by (simp_all add: fresh_current_def)

lemma fresh_current_nth:
  "i \<le> length (bsHeap bs) \<Longrightarrow>
     bsHeap (fresh_current bs) ! i = (if i = length (bsHeap bs) then empty_batch else bsHeap bs ! i)"
  by (simp add: fresh_current_def nth_append)

lemma batch_simps [simp]:
  "bm empty_batch = []" "enqueued empty_batch = False" "sizeBytes empty_batch = 0"
  "bm (markEnqueued b) = bm b" "enqueued (markEnqueued b) = True" "sizeBytes (markEnqueued b) = sizeBytes b"
  "bm (batch_Store k v b) = AList.update k v (bm b)" "enqueued (batch_Store k v b) = enqueued b"
  "sizeBytes (batch_Store k v b) = sizeBytes b" "bm (batch_Delete k b) = AList.delete k (bm b)"
  "enqueued (batch_Delete k b) = enqueued b" "sizeBytes (batch_Delete k b) = sizeBytes b"
  by (simp_all add: empty_batch_def markEnqueued_def batch_Store_def batch_Delete_def)

lemma all_batches_conv_nth: "(\<forall>b\<in>set (bsHeap bs). P b) \<longleftrightarrow> (\<forall>i < length (bsHeap bs). P (bsHeap bs ! i))"
  by (simp add: all_set_conv_all_nth)

lemmas bs_wf_nth = bs_wf_def all_batches_conv_nth

lemma bs_wf_new: "bs_wf (NewBatchStore m n)"
  by (auto simp: bs_wf_def NewBatchStore_def nth_Cons')

lemma bs_wf_same_maps:
  assumes "bs_wf bs" "a < length (bsHeap bs)" "\<And>b. bm (f b) = bm b"
    and "a = currentBatch bs \<Longrightarrow> enqueued (f (bsHeap bs ! a)) = enqueued (bsHeap bs ! a)"
  shows "bs_wf (upd_batch a f bs)"
  using assms unfolding bs_wf_nth by (auto simp: upd_batch_nth)

lemma bs_wf_enqueue:
  assumes "bs_wf bs"
  shows "bs_wf (enqueue_batch (currentBatch bs) bs)"
proof -
  have "\<not> isEnqueued (bsHeap bs ! currentBatch bs)"
    using assms by (simp add: bs_wf_def isEnqueued_def)
  then show ?thesis
    using assms unfolding bs_wf_nth enqueue_batch_def
    by (auto simp: fresh_current_nth upd_batch_nth less_Suc_eq image_iff split: if_splits)
qed

lemma bs_wf_insert_new:
  assumes "bs_wf bs" "map_of (keys2Batches bs) key = None"
  shows "bs_wf (store_value (currentBatch bs) key v (bs\<lparr>keys2Batches := (key, currentBatch bs) # keys2Batches bs\<rparr>))"
proof -
  have "key \<notin> fst ` set (bm (bsHeap bs ! a))" if "a < length (bsHeap bs)" for a
    using assms that unfolding bs_wf_def by (metis option.distinct(1))
  then show ?thesis
    using assms unfolding bs_wf_nth store_value_def
    by (auto simp: upd_batch_nth distinct_update dom_update map_of_eq_None_iff)
qed

section \<open>An insertion alone\<close>

text \<open>The outcome of an attempt that finds room in the current batch.\<close>

definition place :: "BatchStore \<Rightarrow> string \<Rightarrow> bytes \<Rightarrow> BatchStore \<times> bool" where
  "place bs key v =
     (if map_of (keys2Batches bs) key = None
      then (store_value (currentBatch bs) key v (bs\<lparr>keys2Batches := (key, currentBatch bs) # keys2Batches bs\<rparr>), True)
      else (bs, False))"

lemma Insert_unfold:
  "Insert bs key v n =
     (if snd (add_size bs n) then Some (place (fst (add_size bs n)) key v)
      else Insert (enqueue_batch (currentBatch bs) (fst (add_size bs n))) key v n)"
  by (subst Insert.simps) (simp add: place_def claim_key_def add_size_def Let_def)

lemma add_size_simps [simp]:
  "currentBatch (fst (add_size bs n)) = currentBatch bs" "readyBatches (fst (add_size bs n)) = readyBatches bs"
  "keys2Batches (fst (add_size bs n)) = keys2Batches bs" "batchMaxSize (fst (add_size bs n)) = batchMaxSize bs"
  "batchMaxSizeBytes (fst (add_size bs n)) = batchMaxSizeBytes bs"
  "length (bsHeap (fst (add_size bs n))) = length (bsHeap bs)"
  by (simp_all add: add_size_def Let_def)

lemma bs_wf_add_size: "bs_wf bs \<Longrightarrow> bs_wf (fst (add_size bs n))"
  unfolding add_size_def Let_def fst_conv
  by (rule bs_wf_same_maps) (simp_all add: bs_wf_def)

lemma bs_wf_pointer:
  "bs_wf bs \<Longrightarrow> map_of (keys2Batches bs) k = Some a \<Longrightarrow> a < length (bsHeap bs) \<and> k \<in> fst ` set (bm (bsHeap bs ! a))"
  unfolding bs_wf_def by blast

lemma Lookup_None_iff: "bs_wf bs \<Longrightarrow> Lookup bs k = None \<longleftrightarrow> map_of (keys2Batches bs) k = None"
  using bs_wf_pointer [of bs k]
  by (cases "map_of (keys2Batches bs) k") (simp_all add: Lookup_def batch_Load_def map_of_eq_None_iff [of "bm _"])

lemma Lookup_same_maps:
  assumes "keys2Batches bs' = keys2Batches bs" "\<And>a. a < length (bsHeap bs) \<Longrightarrow> bm (bsHeap bs' ! a) = bm (bsHeap bs ! a)" "bs_wf bs"
  shows "Lookup bs' = Lookup bs"
proof
  fix k
  show "Lookup bs' k = Lookup bs k"
    using assms(1,2) bs_wf_pointer [OF assms(3)]
    by (cases "map_of (keys2Batches bs) k") (simp_all add: Lookup_def batch_Load_def)
qed

lemma Lookup_add_size: "bs_wf bs \<Longrightarrow> Lookup (fst (add_size bs n)) = Lookup bs"
  by (rule Lookup_same_maps) (auto simp: add_size_def Let_def upd_batch_nth bs_wf_def)

lemma enqueue_current:
  assumes "bs_wf bs"
  shows "keys2Batches (enqueue_batch (currentBatch bs) bs) = keys2Batches bs"
    "batchMaxSize (enqueue_batch (currentBatch bs) bs) = batchMaxSize bs"
    "batchMaxSizeBytes (enqueue_batch (currentBatch bs) bs) = batchMaxSizeBytes bs"
    "bsHeap (enqueue_batch (currentBatch bs) bs) ! currentBatch (enqueue_batch (currentBatch bs) bs) = empty_batch"
    "Lookup (enqueue_batch (currentBatch bs) bs) = Lookup bs"
proof -
  have e: "\<not> isEnqueued (bsHeap bs ! currentBatch bs)" "currentBatch bs < length (bsHeap bs)"
    using assms by (simp_all add: bs_wf_def isEnqueued_def)
  then show "keys2Batches (enqueue_batch (currentBatch bs) bs) = keys2Batches bs"
    "batchMaxSize (enqueue_batch (currentBatch bs) bs) = batchMaxSize bs"
    "batchMaxSizeBytes (enqueue_batch (currentBatch bs) bs) = batchMaxSizeBytes bs"
    "bsHeap (enqueue_batch (currentBatch bs) bs) ! currentBatch (enqueue_batch (currentBatch bs) bs) = empty_batch"
    by (simp_all add: enqueue_batch_def fresh_current_nth)
  then show "Lookup (enqueue_batch (currentBatch bs) bs) = Lookup bs"
    using e by (intro Lookup_same_maps assms) (simp_all add: enqueue_batch_def fresh_current_nth upd_batch_nth)
qed

lemma place_spec:
  assumes "bs_wf bs"
  shows "bs_wf (fst (place bs key v)) \<and> (snd (place bs key v) \<longleftrightarrow> Lookup bs key = None) \<and>
    Lookup (fst (place bs key v)) = (if Lookup bs key = None then (Lookup bs)(key \<mapsto> v) else Lookup bs)"
proof (cases "map_of (keys2Batches bs) key")
  case None
  let ?bs = "store_value (currentBatch bs) key v (bs\<lparr>keys2Batches := (key, currentBatch bs) # keys2Batches bs\<rparr>)"
  have cur: "currentBatch bs < length (bsHeap bs)"
    using assms by (simp add: bs_wf_def)
  have "Lookup ?bs k = ((Lookup bs)(key \<mapsto> v)) k" for k
    using cur by (simp add: Lookup_def store_value_def upd_batch_nth batch_Load_def update_conv' split: option.split)
  then show ?thesis
    using None bs_wf_insert_new [OF assms None] by (auto simp: place_def Lookup_def)
next
  case (Some a)
  then show ?thesis
    using assms by (simp add: place_def Lookup_None_iff)
qed

text \<open>The two halves of the packed size.\<close>

definition count_of :: "u64 \<Rightarrow> nat" where
  "count_of w = unat w div 2 ^ 32"

definition bytes_of :: "u64 \<Rightarrow> nat" where
  "bytes_of w = unat w mod 2 ^ 32"

lemma unat_low: "unat (ucast w :: u32) = bytes_of w" for w :: u64
  by (simp add: unsigned_ucast_eq unsigned_take_bit_eq take_bit_eq_mod bytes_of_def)

lemma bytes_of_drop: "bytes_of (drop_bit 32 w) = count_of w"
proof -
  have w: "unat w < 2 ^ 64"
    using unat_less_2p [of w] by simp
  then have "unat w div 2 ^ 32 < 2 ^ 32"
    by (simp add: less_mult_imp_div_less)
  then show ?thesis
    using take_bit_nat_eq_self [OF w]
    by (simp add: bytes_of_def count_of_def unsigned_drop_bit_eq drop_bit_eq_div [of 32 "unat w"])
qed

lemma full_size_iff:
  "full_size bs w \<longleftrightarrow> unat (batchMaxSize bs) < count_of w \<or> unat (batchMaxSizeBytes bs) < bytes_of w"
  by (simp add: full_size_def sizeBytesOffset_def word_less_nat_alt unat_low bytes_of_drop)

lemma packed_add:
  assumes "bytes_of w + unat n < 2 ^ 32" "count_of w + 1 < 2 ^ 32"
  shows "bytes_of (w + (ucast (n :: u32) + push_bit 32 1)) = bytes_of w + unat n"
    "count_of (w + (ucast n + push_bit 32 1)) = count_of w + 1"
proof -
  have n: "unat (ucast n :: u64) = unat n" "unat (push_bit 32 1 :: u64) = 2 ^ 32"
    using unat_less_2p [of n] by (simp_all add: unsigned_ucast_eq take_bit_nat_eq_self push_bit_eq_mult)
  have w: "unat w = count_of w * 2 ^ 32 + bytes_of w"
    by (simp add: count_of_def bytes_of_def)
  have bound: "count_of w * 2 ^ 32 + bytes_of w + (unat n + 2 ^ 32) < 2 ^ 64"
  proof -
    have "(count_of w + 2) * 2 ^ 32 \<le> 2 ^ 32 * (2 ^ 32 :: nat)"
      using assms(2) by (intro mult_right_mono) simp_all
    then show ?thesis
      using assms(1) by simp
  qed
  define c l where "c = count_of w" and "l = bytes_of w + unat n"
  have "unat (w + (ucast n + push_bit 32 1)) = (c + 1) * 2 ^ 32 + l" "l < 2 ^ 32"
    using bound assms(1) by (simp_all add: unat_word_ariths n w c_def l_def)
  then show "bytes_of (w + (ucast n + push_bit 32 1)) = bytes_of w + unat n"
    "count_of (w + (ucast n + push_bit 32 1)) = count_of w + 1"
    unfolding c_def [symmetric] l_def [symmetric]
    unfolding bytes_of_def [of "w + _"] count_of_def [of "w + _"]
    by (metis mod_less mod_mult_self3, metis add.commute add_0 div_less div_mult_self1 power_not_zero zero_neq_numeral)
qed

lemma add_size_room:
  assumes "bs_wf bs" "bytes_of (sizeBytes (bsHeap bs ! currentBatch bs)) + unat n < 2 ^ 32"
    and "count_of (sizeBytes (bsHeap bs ! currentBatch bs)) + 1 < 2 ^ 32"
  shows "snd (add_size bs n) \<longleftrightarrow>
    count_of (sizeBytes (bsHeap bs ! currentBatch bs)) + 1 \<le> unat (batchMaxSize bs) \<and>
    bytes_of (sizeBytes (bsHeap bs ! currentBatch bs)) + unat n \<le> unat (batchMaxSizeBytes bs)"
  using packed_add [OF assms(2,3)]
  by (simp add: add_size_def Let_def sizeBytesOffset_def full_size_iff not_less)

lemma halves_zero [simp]: "count_of 0 = 0" "bytes_of 0 = 0"
  by (simp_all add: count_of_def bytes_of_def)

text \<open>Into an empty current batch a request goes exactly when it fits a batch at all.\<close>

definition fits :: "BatchStore \<Rightarrow> u32 \<Rightarrow> bool" where
  "fits bs n \<longleftrightarrow> batchMaxSize bs \<noteq> 0 \<and> n \<le> batchMaxSizeBytes bs"

lemma empty_current_room:
  assumes "bs_wf bs" "bsHeap bs ! currentBatch bs = empty_batch"
  shows "snd (add_size bs n) \<longleftrightarrow> fits bs n"
  using add_size_room [OF assms(1), of n] unat_less_2p [of n] assms(2)
  by (auto simp: fits_def word_le_nat_alt unat_gt_0 Suc_le_eq)

lemma Insert_turns_unfold:
  "Insert_turns (Suc t) bs key v n =
     (if snd (add_size bs n) then Some (place (fst (add_size bs n)) key v)
      else Insert_turns t (enqueue_batch (currentBatch bs) (fst (add_size bs n))) key v n)"
  by (simp add: place_def claim_key_def add_size_def Let_def)

lemma Insert_turns_Insert: "Insert_turns t bs key v n = Some r \<Longrightarrow> Insert bs key v n = Some r"
proof (induction t arbitrary: bs)
  case (Suc t)
  then show ?case
    by (subst Insert_unfold) (auto simp: Insert_turns_unfold simp del: Insert_turns.simps(2) split: if_splits)
qed simp

lemma Insert_fits:
  assumes "bs_wf bs" "fits bs n"
  obtains bs1 where "Insert bs key v n = Some (place bs1 key v)" "bs_wf bs1" "Lookup bs1 = Lookup bs"
    "keys2Batches bs1 = keys2Batches bs" "batchMaxSize bs1 = batchMaxSize bs" "batchMaxSizeBytes bs1 = batchMaxSizeBytes bs"
    "\<And>a. a < length (bsHeap bs1) \<Longrightarrow> bm (bsHeap bs1 ! a) = (if a < length (bsHeap bs) then bm (bsHeap bs ! a) else [])"
    "Insert_turns 2 bs key v n = Some (place bs1 key v)"
proof -
  define bs1 where "bs1 = fst (add_size bs n)"
  define bs2 where "bs2 = enqueue_batch (currentBatch bs1) bs1"
  have c: "currentBatch bs < length (bsHeap bs)"
    using assms(1) by (simp add: bs_wf_def)
  have m: "length (bsHeap (fst (add_size bs n))) = length (bsHeap bs)"
      "bm (bsHeap (fst (add_size bs n)) ! a) = bm (bsHeap bs ! a)" if "bs_wf bs" for bs a
    using that by (simp_all add: add_size_def Let_def upd_batch_nth bs_wf_def)
  have w1: "bs_wf bs1" "Lookup bs1 = Lookup bs" "currentBatch bs1 = currentBatch bs"
    using assms(1) by (simp_all add: bs1_def bs_wf_add_size Lookup_add_size)
  have w2: "bs_wf bs2" "Lookup bs2 = Lookup bs" "keys2Batches bs2 = keys2Batches bs"
      "batchMaxSize bs2 = batchMaxSize bs" "batchMaxSizeBytes bs2 = batchMaxSizeBytes bs"
    using bs_wf_enqueue [OF w1(1)] enqueue_current(1-3,5) [OF w1(1)] w1(2) by (simp_all add: bs2_def bs1_def)
  have m2: "bm (bsHeap bs2 ! a) = (if a < length (bsHeap bs) then bm (bsHeap bs ! a) else [])" if "a < length (bsHeap bs2)" for a
    using that m [OF assms(1)] c w1(1,3) unfolding bs2_def bs_wf_def isEnqueued_def enqueue_batch_def
    by (auto simp: bs1_def fresh_current_nth upd_batch_nth)
  have "fits bs2 n"
    using assms(2) w2(4,5) by (simp add: fits_def)
  then have "snd (add_size bs2 n)"
    using empty_current_room [OF w2(1)] enqueue_current(4) [OF w1(1)] by (simp add: bs2_def)
  then have "Insert_turns 1 bs2 key v n = Some (place (fst (add_size bs2 n)) key v)"
    using Insert_turns_unfold [of 0 bs2] by simp
  then consider "Insert_turns 2 bs key v n = Some (place bs1 key v)"
    | "Insert_turns 2 bs key v n = Some (place (fst (add_size bs2 n)) key v)"
    using Insert_turns_unfold [of 1 bs key v n] unfolding Suc_1 bs1_def bs2_def add_size_simps(1) by (auto split: if_splits)
  then show thesis
  proof cases
    case 1
    then show thesis
      using that [OF Insert_turns_Insert [OF 1] w1(1,2) _ _ _ _ 1] m [OF assms(1)] by (simp add: bs1_def)
  next
    case 2
    then show thesis
      using that [OF Insert_turns_Insert [OF 2] bs_wf_add_size [OF w2(1)] _ _ _ _ _ 2] w2 m [OF w2(1)] m2 by (simp add: Lookup_add_size)
  qed
qed

text \<open>
  (C38) An insertion by a caller that is alone ends within two turns of its loop when the request fits a batch. It then
  inserts the request exactly when its key is new: the lookups are those of before and that of the new key, which gives the
  request, and the store is well formed.
\<close>

theorem insert_terminates:
  assumes "bs_wf bs" "fits bs n"
  shows "\<exists>bs' new. Insert_turns 2 bs key v n = Some (bs', new) \<and> Insert bs key v n = Some (bs', new) \<and> bs_wf bs' \<and>
    (new \<longleftrightarrow> Lookup bs key = None) \<and> Lookup bs' = (if new then (Lookup bs)(key \<mapsto> v) else Lookup bs)"
proof -
  obtain bs1 where "Insert_turns 2 bs key v n = Some (place bs1 key v)" "Insert bs key v n = Some (place bs1 key v)"
      "bs_wf bs1" "Lookup bs1 = Lookup bs"
    using Insert_fits [OF assms] by metis
  then show ?thesis
    using place_spec [of bs1 key v] by (cases "place bs1 key v") auto
qed

theorem insert_terminates_witness:
  "\<exists>bs' new. Insert_turns 2 (NewBatchStore 2 10) ''a'' [1] 1 = Some (bs', new) \<and>
     Insert (NewBatchStore 2 10) ''a'' [1] 1 = Some (bs', new) \<and> bs_wf bs' \<and>
     (new \<longleftrightarrow> Lookup (NewBatchStore 2 10) ''a'' = None) \<and>
     Lookup bs' = (if new then (Lookup (NewBatchStore 2 10))(''a'' \<mapsto> [1]) else Lookup (NewBatchStore 2 10))"
  by (rule insert_terminates [OF bs_wf_new]) (simp add: fits_def NewBatchStore_def)

lemma Insert_returned:
  assumes "Insert bs key v n = Some r"
  shows "\<not> (bs_wf bs \<and> \<not> fits bs n \<and> \<not> snd (add_size bs n))"
proof (rule Insert.raw_induct [OF _ assms, of "\<lambda>bs key v n r. \<not> (bs_wf bs \<and> \<not> fits bs n \<and> \<not> snd (add_size bs n))"])
  fix ins bs key v n r
  assume IH: "\<And>bs key v n r. ins bs key v n = Some r \<Longrightarrow> \<not> (bs_wf bs \<and> \<not> fits bs n \<and> \<not> snd (add_size bs n))"
    and body: "(let (bs1, room) = add_size bs n in
      if room then
        (let (bs2, new) = claim_key bs1 key (currentBatch bs1) in
         Some (if new then store_value (currentBatch bs1) key v bs2 else bs2, new))
      else ins (enqueue_batch (currentBatch bs1) bs1) key v n) = Some (r :: BatchStore \<times> bool)"
  define bs1 where "bs1 = fst (add_size bs n)"
  define bs2 where "bs2 = enqueue_batch (currentBatch bs1) bs1"
  show "\<not> (bs_wf bs \<and> \<not> fits bs n \<and> \<not> snd (add_size bs n))"
  proof
    assume a: "bs_wf bs \<and> \<not> fits bs n \<and> \<not> snd (add_size bs n)"
    then have bs1: "bs_wf bs1"
      by (simp add: bs1_def bs_wf_add_size)
    have "bs_wf bs2" "\<not> fits bs2 n" "bsHeap bs2 ! currentBatch bs2 = empty_batch"
      using a bs_wf_enqueue [OF bs1] enqueue_current(2-4) [OF bs1] by (simp_all add: bs2_def fits_def bs1_def)
    then have "\<not> snd (add_size bs2 n)" "bs_wf bs2 \<and> \<not> fits bs2 n"
      using empty_current_room by simp_all
    moreover have "ins bs2 key v n = Some r"
      using body a by (simp add: bs1_def bs2_def case_prod_unfold)
    ultimately show False
      using IH by blast
  qed
qed

text \<open>
  (C40) A request that fits no batch is never inserted, as long as adding it to the current batch does not carry out of the
  halves of the size word: the loop adds one more empty batch to the ready ones in each turn and does not end.
\<close>

theorem insert_oversized_diverges:
  assumes "bs_wf bs" "\<not> fits bs n" "bytes_of (sizeBytes (bsHeap bs ! currentBatch bs)) + unat n < 2 ^ 32"
    and "count_of (sizeBytes (bsHeap bs ! currentBatch bs)) + 1 < 2 ^ 32"
  shows "Insert bs key v n = None"
proof -
  have "\<not> snd (add_size bs n)"
    using assms(2) add_size_room [OF assms(1,3,4)] by (auto simp: fits_def word_le_nat_alt unat_eq_0)
  then show ?thesis
    using assms(1,2) Insert_returned [of bs key v n] by (cases "Insert bs key v n") auto
qed

theorem insert_oversized_diverges_witness: "Insert (NewBatchStore 100 10) ''a'' (replicate 11 0) 11 = None"
  by (rule insert_oversized_diverges [OF bs_wf_new]) (simp_all add: fits_def NewBatchStore_def)

section \<open>Removing and fetching\<close>

lemma set_alist_delete: "set (AList.delete k al) = {p \<in> set al. fst p \<noteq> k}"
  by (auto simp: AList.delete_eq)

lemma set_alist_update: "set (AList.update k v al) \<subseteq> insert (k, v) (set al)"
  by (induction al) auto

lemma keys_alist_delete: "fst ` set (AList.delete k al) = fst ` set al - {k}"
  by (auto simp: set_alist_delete)

text \<open>The store as the pool uses it: every request is under an id that owns it.\<close>

definition bs_inv :: "(string \<Rightarrow> bytes \<Rightarrow> bool) \<Rightarrow> BatchStore \<Rightarrow> bool" where
  "bs_inv own bs \<longleftrightarrow> bs_wf bs \<and> (\<forall>a < length (bsHeap bs). \<forall>(k, v)\<in>set (bm (bsHeap bs ! a)). own k v)"

definition bs_held :: "BatchStore \<Rightarrow> string set" where
  "bs_held bs = fst ` set (keys2Batches bs)"

lemma bs_inv_Remove:
  assumes "bs_inv own bs"
  shows "bs_inv own (fst (Remove k bs))"
proof (cases "map_of (keys2Batches bs) k")
  case (Some a)
  have a: "a < length (bsHeap bs)"
    using bs_wf_pointer [OF _ Some] assms by (simp add: bs_inv_def)
  have other: "k \<notin> fst ` set (bm (bsHeap bs ! b))" if "b < length (bsHeap bs)" "b \<noteq> a" for b
    using assms Some that unfolding bs_inv_def bs_wf_def by (metis option.inject)
  have index: "(map_of (AList.delete k (keys2Batches bs)) k' = Some b) \<longleftrightarrow>
      b < length (bsHeap bs) \<and> k' \<in> fst ` set (bm (if b = a then batch_Delete k (bsHeap bs ! a) else bsHeap bs ! b))" for k' b
    using assms a other unfolding bs_inv_def bs_wf_def
    by (auto simp: delete_conv' keys_alist_delete)
  have R: "fst (Remove k bs) = upd_batch a (batch_Delete k) (bs\<lparr>keys2Batches := AList.delete k (keys2Batches bs)\<rparr>)"
    by (simp add: Remove_def Some)
  have "bs_wf (fst (Remove k bs))"
    using assms index a unfolding bs_inv_def bs_wf_nth R
    by (auto simp: upd_batch_nth distinct_delete)
  moreover have "\<forall>b < length (bsHeap bs). \<forall>(k', v)\<in>set (bm (bsHeap (fst (Remove k bs)) ! b)). own k' v"
    using assms a unfolding R by (auto simp: bs_inv_def upd_batch_nth set_alist_delete split: if_splits)
  ultimately show ?thesis
    by (simp add: bs_inv_def R)
qed (simp add: Remove_def assms)

lemma bs_held_Remove:
  "bs_held (fst (Remove k bs)) = bs_held bs - set (snd (Remove k bs))"
  "set (snd (Remove k bs)) \<subseteq> bs_held bs \<inter> {k}" "distinct (snd (Remove k bs))"
  by (auto simp: bs_held_def Remove_def keys_alist_delete map_of_eq_None_iff dest: map_of_SomeD split: option.splits)
    (force dest: map_of_SomeD)+

interpretation bs_store: request_store "bs_inv own" bs_held for own
  by unfold_locales (simp add: bs_held_def)

interpretation bs_remove: releasing "bs_inv own" bs_held Remove for own
  by unfold_locales (rule bs_inv_Remove bs_held_Remove; assumption?)+

lemma prune_batches_release:
  assumes "bs_inv own bs"
  shows "bs_inv own (fst (prune_batches f as bs)) \<and>
    bs_held (fst (prune_batches f as bs)) \<subseteq> bs_held bs \<and>
    card (bs_held (fst (prune_batches f as bs))) + length (snd (prune_batches f as bs)) = card (bs_held bs)"
  using assms
proof (induction as arbitrary: bs)
  case (Cons a as)
  let ?bs1 = "fst (prune_batch f a bs)"
  have 1: "bs_inv own ?bs1" "bs_held ?bs1 \<subseteq> bs_held bs" "card (bs_held ?bs1) + length (snd (prune_batch f a bs)) = card (bs_held bs)"
    using bs_remove.release_each [OF Cons.prems] bs_remove.release_each_card [OF Cons.prems]
    by (auto simp: prune_batch_def)
  show ?case
    using Cons.IH [OF 1(1)] 1 by (auto simp: case_prod_unfold Let_def)
qed simp

lemma bs_inv_same_maps:
  assumes "bs_inv own bs" "a < length (bsHeap bs)" "a \<noteq> currentBatch bs" "\<And>b. bm (f b) = bm b"
  shows "bs_inv own ((upd_batch a f bs)\<lparr>readyBatches := filter P (readyBatches bs)\<rparr>)"
  using assms unfolding bs_inv_def bs_wf_nth by (auto simp: upd_batch_nth)

lemma fetch_ready_inv:
  "bs_inv own bs \<Longrightarrow> bs_inv own (fst (fetch_ready bs)) \<and> keys2Batches (fst (fetch_ready bs)) = keys2Batches bs"
proof (induction bs rule: fetch_ready.induct)
  case (1 bs)
  show ?case
  proof (cases "readyBatches bs")
    case (Cons a as)
    let ?bs1 = "(upd_batch a markEnqueued bs)\<lparr>readyBatches := as\<rparr>"
    have a: "a < length (bsHeap bs)" "a \<noteq> currentBatch bs" "filter (\<lambda>x. x \<noteq> a) (readyBatches bs) = as"
      using 1(2) Cons by (auto simp: bs_inv_def bs_wf_def filter_id_conv)
    have d: "dequeueBatch bs = (?bs1, map snd (bm (bsHeap bs ! a)), map fst (bm (bsHeap bs ! a)))"
      using Cons by (simp add: dequeueBatch_def prepareBatch_def)
    have bs1: "bs_inv own ?bs1"
      using bs_inv_same_maps [OF 1(2) a(1,2), of markEnqueued "\<lambda>x. x \<noteq> a"] a(3) by simp
    show ?thesis
    proof (cases "bm (bsHeap bs ! a) = []")
      case True
      then have "fetch_ready bs = fetch_ready ?bs1"
        using d Cons by (subst fetch_ready.simps) simp
      then show ?thesis
        using 1(1) [OF _ d [symmetric] refl refl] bs1 Cons True by simp
    next
      case False
      then have "fetch_ready bs = (?bs1, Some (map snd (bm (bsHeap bs ! a)), map fst (bm (bsHeap bs ! a))))"
        using d Cons by (subst fetch_ready.simps) simp
      then show ?thesis
        using bs1 by simp
    qed
  next
    case Nil
    then show ?thesis
      using 1(2) by (subst (1 2) fetch_ready.simps) simp
  qed
qed

lemma bs_inv_Fetch:
  assumes "bs_inv own bs" "Fetch ctxDone bs = Some (bs', requests, ids)"
  shows "bs_inv own bs' \<and> keys2Batches bs' = keys2Batches bs"
proof -
  let ?bs1 = "fst (fetch_ready bs)"
  have 1: "bs_inv own ?bs1" "keys2Batches ?bs1 = keys2Batches bs"
    using fetch_ready_inv [OF assms(1)] by simp_all
  then have "bs_inv own (upd_batch (currentBatch ?bs1) markEnqueued (fresh_current ?bs1))"
    unfolding bs_inv_def bs_wf_nth by (auto simp: upd_batch_nth fresh_current_nth less_Suc_eq image_iff split: if_splits)
  then show ?thesis
    using assms(2) 1 by (auto simp: Fetch_def prepareBatch_def Let_def split: if_splits prod.splits option.splits)
qed

text \<open>Only the creation of a store sets its limits.\<close>

definition limits :: "BatchStore \<Rightarrow> u32 \<times> u32" where
  "limits bs = (batchMaxSize bs, batchMaxSizeBytes bs)"

lemma limits_Remove: "limits (fst (Remove k bs)) = limits bs"
  by (simp add: Remove_def limits_def split: option.split)

lemma limits_prune_batches: "limits (fst (prune_batches f as bs)) = limits bs"
  by (induction as arbitrary: bs)
    (simp_all add: case_prod_unfold Let_def prune_batch_def remove_each_frame [of limits, OF limits_Remove])

lemma limits_fetch_ready: "limits (fst (fetch_ready bs)) = limits bs"
proof (induction bs rule: fetch_ready.induct)
  case (1 bs)
  obtain bs1 dequeued ids where d: "dequeueBatch bs = (bs1, dequeued, ids)"
    by (cases "dequeueBatch bs") auto
  then have "limits bs1 = limits bs"
    by (auto simp: dequeueBatch_def prepareBatch_def limits_def)
  then show ?case
    using 1 [OF _ d [symmetric] refl] by (subst fetch_ready.simps) (simp add: d Let_def)
qed

lemma limits_Fetch: "Fetch ctxDone bs = Some (bs', requests, ids) \<Longrightarrow> limits bs' = limits bs"
  using limits_fetch_ready [of bs]
  by (auto simp: Fetch_def prepareBatch_def Let_def limits_def split: if_splits prod.splits option.splits)

lemma bs_inv_new: "bs_inv own (NewBatchStore m n)" "bs_held (NewBatchStore m n) = {}"
  using bs_wf_new [of m n] by (simp_all add: bs_inv_def NewBatchStore_def bs_held_def)

lemma bs_inv_Insert:
  assumes "bs_inv own bs" "fits bs n" "own key v"
  obtains bs' where "Insert bs key v n = Some (bs', key \<notin> bs_held bs)" "bs_inv own bs'" "bs_held bs' = insert key (bs_held bs)"
    "batchMaxSize bs' = batchMaxSize bs" "batchMaxSizeBytes bs' = batchMaxSizeBytes bs"
proof -
  have wf: "bs_wf bs"
    using assms(1) by (simp add: bs_inv_def)
  obtain bs1 where bs1: "Insert bs key v n = Some (place bs1 key v)" "bs_wf bs1"
      "keys2Batches bs1 = keys2Batches bs" "batchMaxSize bs1 = batchMaxSize bs" "batchMaxSizeBytes bs1 = batchMaxSizeBytes bs"
      "\<And>a. a < length (bsHeap bs1) \<Longrightarrow> bm (bsHeap bs1 ! a) = (if a < length (bsHeap bs) then bm (bsHeap bs ! a) else [])"
    using Insert_fits [OF wf assms(2)] by metis
  have inv1: "\<forall>a < length (bsHeap bs1). \<forall>(k, v)\<in>set (bm (bsHeap bs1 ! a)). own k v"
    using assms(1) bs1(6) by (auto simp: bs_inv_def)
  have "bs_inv own (fst (place bs1 key v))"
    using place_spec [OF bs1(2), of key v] inv1 assms(3) bs1(2)
    by (auto simp: bs_inv_def place_def store_value_def upd_batch_nth bs_wf_def dest!: set_alist_update [THEN subsetD])
  moreover have "place bs1 key v = (fst (place bs1 key v), key \<notin> bs_held bs)"
    by (auto simp: place_def bs_held_def bs1(3) map_of_eq_None_iff)
  moreover have "bs_held (fst (place bs1 key v)) = insert key (bs_held bs)" "batchMaxSize (fst (place bs1 key v)) = batchMaxSize bs"
      "batchMaxSizeBytes (fst (place bs1 key v)) = batchMaxSizeBytes bs"
    using bs1(3-5) by (auto simp: place_def bs_held_def store_value_def map_of_eq_None_iff)
  ultimately show thesis
    using that bs1(1) by metis
qed

lemma distinct_concat_keys:
  assumes "distinct as" "\<And>a. a \<in> set as \<Longrightarrow> distinct (map fst (m a))"
    and "\<And>k a b. a \<in> set as \<Longrightarrow> b \<in> set as \<Longrightarrow> k \<in> fst ` set (m a) \<Longrightarrow> k \<in> fst ` set (m b) \<Longrightarrow> a = b"
  shows "distinct (map fst (concat (map m as)))"
  using assms
proof (induction as)
  case (Cons a as)
  have "k \<notin> fst ` set (m b)" if "b \<in> set as" "k \<in> fst ` set (m a)" for k b
    using Cons.prems(1) Cons.prems(3) [of a b k] that by auto
  then have "fst ` set (m a) \<inter> fst ` set (concat (map m as)) = {}"
    by auto
  moreover have "distinct (map fst (concat (map m as)))"
    using Cons.prems by (intro Cons.IH) auto
  ultimately show ?case
    using Cons.prems(2) [of a] by simp
qed simp

text \<open>The requests that are not fetched, and the ids of those: no id twice, and only held ones.\<close>

lemma ForEach_held:
  assumes "bs_inv own bs"
  shows "distinct (map fst (ForEach bs))" "fst ` set (ForEach bs) \<subseteq> bs_held bs" "p \<in> set (ForEach bs) \<Longrightarrow> own (fst p) (snd p)"
proof -
  let ?as = "readyBatches bs @ [currentBatch bs]" and ?m = "\<lambda>a. bm (bsHeap bs ! a)"
  have wf: "bs_wf bs"
    using assms by (simp add: bs_inv_def)
  then have as: "a < length (bsHeap bs)" if "a \<in> set ?as" for a
    using that by (auto simp: bs_wf_def)
  have index: "map_of (keys2Batches bs) k = Some a" if "a \<in> set ?as" "k \<in> fst ` set (?m a)" for k a
    using wf as [OF that(1)] that(2) by (simp add: bs_wf_def)
  show "distinct (map fst (ForEach bs))"
    unfolding ForEach_def
  proof (rule distinct_concat_keys)
    show "distinct ?as"
      using wf by (simp add: bs_wf_def)
    show "distinct (map fst (?m a))" if "a \<in> set ?as" for a
      using wf nth_mem [OF as [OF that]] by (simp add: bs_wf_def)
    show "a = b" if "a \<in> set ?as" "b \<in> set ?as" "k \<in> fst ` set (?m a)" "k \<in> fst ` set (?m b)" for k a b
      using index [OF that(1,3)] index [OF that(2,4)] by simp
  qed
  show "fst ` set (ForEach bs) \<subseteq> bs_held bs"
  proof
    fix k
    assume "k \<in> fst ` set (ForEach bs)"
    then obtain a where "a \<in> set ?as" "k \<in> fst ` set (?m a)"
      unfolding ForEach_def set_concat set_map by blast
    then show "k \<in> bs_held bs"
      using map_of_SomeD [OF index] unfolding bs_held_def by force
  qed
  show "own (fst p) (snd p)" if p: "p \<in> set (ForEach bs)"
  proof -
    obtain a where a: "a \<in> set ?as" "p \<in> set (?m a)"
      using p unfolding ForEach_def set_concat set_map by blast
    then show ?thesis
      using as [OF a(1)] assms by (simp add: bs_inv_def case_prod_unfold)
  qed
qed

end
