(* ===== verification/PendingStore.thy ===== *)
theory PendingStore
  imports BatchStore
begin

text \<open>
  The store in which a secondary batcher keeps the requests that the primary should batch
  (\<^verbatim>\<open>src/request/pending.go\<close>, \<^verbatim>\<open>src/request/bucket.go\<close>). Requests are in buckets by their time of arrival; a bucket
  that is not emptied in time strikes twice: its requests are sent to the primary, then the primary is
  complained about. The index \<^verbatim>\<open>reqID2Bucket\<close> maps an id to its bucket, a position of the heap, or to the
  tombstone of a request that was removed before it came.

  Operations are taken one at a time. The strikes call back: the calls are results.
\<close>

section \<open>Buckets\<close>

definition errBucketSealed :: error where
  "errBucketSealed = ErrNew ''bucket sealed''"

text \<open>A zero \<^verbatim>\<open>time.Time\<close> is \<^const>\<open>None\<close>.\<close>

record bucket =
  bkId :: u64
  bkSize :: u32
  lastTimestamp :: "int option"
  firstStrikeTimestamp :: "int option"
  bkRequests :: "(string \<times> bytes) list"

datatype bucket_ref = Tombstone int | InBucket nat

fun processedTimestamp :: "bucket_ref \<Rightarrow> int option" where
  "processedTimestamp (Tombstone t) = Some t"
| "processedTimestamp (InBucket a) = None"

definition newBucket :: "u64 \<Rightarrow> bucket" where
  "newBucket i = \<lparr>bkId = i, bkSize = 0, lastTimestamp = None, firstStrikeTimestamp = None, bkRequests = []\<rparr>"

definition resetTimestamp :: "int \<Rightarrow> bucket \<Rightarrow> bucket" where
  "resetTimestamp t b = b\<lparr>lastTimestamp := Some t, firstStrikeTimestamp := None\<rparr>"

definition setFirstStrikeTimestamp :: "int \<Rightarrow> bucket \<Rightarrow> bucket" where
  "setFirstStrikeTimestamp t b = b\<lparr>firstStrikeTimestamp := Some t\<rparr>"

text \<open>\<^verbatim>\<open>seal\<close> gives the sealed bucket and the one that follows it.\<close>

definition seal :: "int \<Rightarrow> bucket \<Rightarrow> bucket \<times> bucket" where
  "seal now b = (b\<lparr>lastTimestamp := Some now\<rparr>, newBucket (bkId b + 1))"

definition bucket_delete :: "string \<Rightarrow> bucket \<Rightarrow> bucket \<times> bool" where
  "bucket_delete reqID b =
     (if map_of (bkRequests b) reqID = None then (b, False)
      else (b\<lparr>bkRequests := AList.delete reqID (bkRequests b), bkSize := bkSize b - 1\<rparr>, True))"

text \<open>The duration \<^verbatim>\<open>now.Sub(t)\<close>, which saturates for the zero time.\<close>

definition since :: "int \<Rightarrow> int option \<Rightarrow> int" where
  "since now t = (case t of None \<Rightarrow> 2 ^ 63 - 1 | Some x \<Rightarrow> now - x)"

section \<open>The store\<close>

record pending_options =
  ReqIDGCInterval :: int
  ReqIDLifetime :: int
  FirstStrikeThreshold :: int
  SecondStrikeThreshold :: int
  Epoch :: int

record PendingStore =
  psHeap :: "bucket list"
  psCurrent :: nat
  psBuckets :: "nat list"
  reqID2Bucket :: "(string \<times> bucket_ref) list"
  lastTick :: int
  lastEpochChange :: int
  lastProcessedGC :: int
  psStopped :: bool
  psClosed :: bool

definition PendingStore_Init :: "int \<Rightarrow> PendingStore" where
  "PendingStore_Init startTime =
     \<lparr>psHeap = [newBucket 1], psCurrent = 0, psBuckets = [], reqID2Bucket = [], lastTick = startTime,
      lastEpochChange = startTime, lastProcessedGC = startTime, psStopped = False, psClosed = False\<rparr>"

definition upd_bucket :: "nat \<Rightarrow> (bucket \<Rightarrow> bucket) \<Rightarrow> PendingStore \<Rightarrow> PendingStore" where
  "upd_bucket a f ps = ps\<lparr>psHeap := (psHeap ps)[a := f (psHeap ps ! a)]\<rparr>"

fun isDummyBucket :: "PendingStore \<Rightarrow> bucket_ref \<Rightarrow> bool" where
  "isDummyBucket ps (Tombstone t) = True"
| "isDummyBucket ps (InBucket a) = (bkId (psHeap ps ! a) = 0)"

section \<open>Submission and removal\<close>

definition already_inserted :: "string \<Rightarrow> error" where
  "already_inserted reqID = ErrNew (''request '' @ reqID @ '' already inserted'')"

definition tryInsert :: "nat \<Rightarrow> string \<Rightarrow> bytes \<Rightarrow> PendingStore \<Rightarrow> PendingStore \<times> error option" where
  "tryInsert a reqID request ps =
     (let b = psHeap ps ! a in
      if lastTimestamp b \<noteq> None then (ps, Some errBucketSealed)
      else if map_of (reqID2Bucket ps) reqID \<noteq> None then (ps, Some (already_inserted reqID))
      else if map_of (bkRequests b) reqID \<noteq> None then (ps, Some (already_inserted reqID))
      else
        (let ps1 = upd_bucket a (\<lambda>b. b\<lparr>bkRequests := bkRequests b @ [(reqID, request)], bkSize := bkSize b + 1\<rparr>) ps in
         if map_of (reqID2Bucket ps1) reqID \<noteq> None
         then (upd_bucket a (\<lambda>b. b\<lparr>bkRequests := AList.delete reqID (bkRequests b), bkSize := bkSize b - 1\<rparr>) ps1,
               Some (already_inserted reqID))
         else (ps1\<lparr>reqID2Bucket := (reqID, InBucket a) # reqID2Bucket ps1\<rparr>, None)))"

text \<open>The loop waits for a bucket that is not sealed; no result stands for one that never comes.\<close>

partial_function (option) submit_loop :: "string \<Rightarrow> bytes \<Rightarrow> PendingStore \<Rightarrow> (PendingStore \<times> error option) option" where
  "submit_loop reqID request ps =
     (case tryInsert (psCurrent ps) reqID request ps of
        (ps1, None) \<Rightarrow> Some (ps1, None)
      | (ps1, Some e) \<Rightarrow> if errors_Is e errBucketSealed then submit_loop reqID request ps1 else Some (ps1, Some e))"

declare submit_loop.simps [code]

definition PendingStore_Submit ::
  "(bytes \<Rightarrow> string) \<Rightarrow> bytes \<Rightarrow> PendingStore \<Rightarrow> (PendingStore \<times> error option) option" where
  "PendingStore_Submit requestID request ps =
     (if psClosed ps then Some (ps, Some (ErrNew ''pending store closed, request rejected''))
      else submit_loop (requestID request) request ps)"

text \<open>The ids that the callback \<^verbatim>\<open>OnDelete\<close> is called with are results.\<close>

definition removeRequest :: "string \<Rightarrow> int \<Rightarrow> PendingStore \<Rightarrow> PendingStore \<times> string list" where
  "removeRequest reqID tombstone ps =
     (let ps1 = ps\<lparr>reqID2Bucket := AList.update reqID (Tombstone tombstone) (reqID2Bucket ps)\<rparr> in
      case map_of (reqID2Bucket ps) reqID of
        None \<Rightarrow> (ps1, [])
      | Some (Tombstone t) \<Rightarrow> (ps1, [])
      | Some (InBucket a) \<Rightarrow>
          if isDummyBucket ps (InBucket a) then (ps1, [])
          else
            (let (b, existed) = bucket_delete reqID (psHeap ps ! a) in
             if existed
             then (ps1\<lparr>psHeap := (psHeap ps)[a := b], reqID2Bucket := AList.delete reqID (reqID2Bucket ps1)\<rparr>, [reqID])
             else (ps1, [])))"

definition PendingStore_RemoveRequests :: "nat \<Rightarrow> string list \<Rightarrow> PendingStore \<Rightarrow> PendingStore \<times> string list" where
  "PendingStore_RemoveRequests numCPU requestIDs ps =
     (let tombstone = lastTick ps in
      parallelForEachKey numCPU requestIDs
        (\<lambda>reqID (ps, ds). if psClosed ps then ((ps, ds), False)
           else let (ps', d) = removeRequest reqID tombstone ps in ((ps', ds @ d), True)) (ps, []))"

definition PendingStore_Contains :: "PendingStore \<Rightarrow> string \<Rightarrow> bool" where
  "PendingStore_Contains ps reqID =
     (case map_of (reqID2Bucket ps) reqID of
        None \<Rightarrow> False
      | Some (Tombstone t) \<Rightarrow> False
      | Some (InBucket a) \<Rightarrow>
          \<not> isDummyBucket ps (InBucket a) \<and> map_of (bkRequests (psHeap ps ! a)) reqID \<noteq> None)"

definition prune_request ::
  "(bytes \<Rightarrow> error option) \<Rightarrow> string \<Rightarrow> PendingStore \<Rightarrow> PendingStore \<times> string list" where
  "prune_request predicate reqID ps =
     (case map_of (reqID2Bucket ps) reqID of
        Some (InBucket a) \<Rightarrow>
          (case map_of (bkRequests (psHeap ps ! a)) reqID of
             None \<Rightarrow> (ps, [])
           | Some request \<Rightarrow>
               if predicate request = None then (ps, [])
               else
                 (let (b, existed) = bucket_delete reqID (psHeap ps ! a) in
                  (ps\<lparr>reqID2Bucket := AList.delete reqID (reqID2Bucket ps), psHeap := (psHeap ps)[a := b]\<rparr>,
                   if existed then [reqID] else [])))
      | _ \<Rightarrow> (ps, []))"

fun prune_requests ::
  "(bytes \<Rightarrow> error option) \<Rightarrow> string list \<Rightarrow> PendingStore \<Rightarrow> PendingStore \<times> string list" where
  "prune_requests predicate [] ps = (ps, [])"
| "prune_requests predicate (reqID # reqIDs) ps =
     (let (ps1, ds) = prune_request predicate reqID ps; (ps2, ds') = prune_requests predicate reqIDs ps1 in (ps2, ds @ ds'))"

definition PendingStore_Prune :: "(bytes \<Rightarrow> error option) \<Rightarrow> PendingStore \<Rightarrow> PendingStore \<times> string list" where
  "PendingStore_Prune predicate ps = prune_requests predicate (map fst (reqID2Bucket ps)) ps"

section \<open>Epochs and strikes\<close>

definition rotateBuckets :: "int \<Rightarrow> PendingStore \<Rightarrow> PendingStore" where
  "rotateBuckets now ps =
     (if bkSize (psHeap ps ! psCurrent ps) = 0 then ps
      else
        (let (sealed, next) = seal now (psHeap ps ! psCurrent ps) in
         ps\<lparr>psHeap := (psHeap ps)[psCurrent ps := sealed] @ [next], psCurrent := length (psHeap ps),
            psBuckets := psBuckets ps @ [psCurrent ps]\<rparr>))"

definition garbageCollectEmptyBuckets :: "PendingStore \<Rightarrow> PendingStore" where
  "garbageCollectEmptyBuckets ps = ps\<lparr>psBuckets := filter (\<lambda>a. bkSize (psHeap ps ! a) > 0) (psBuckets ps)\<rparr>"

definition garbageCollectProcessed :: "pending_options \<Rightarrow> int \<Rightarrow> PendingStore \<Rightarrow> PendingStore" where
  "garbageCollectProcessed opts now ps =
     ps\<lparr>reqID2Bucket := filter (\<lambda>(k, r). \<not> (isDummyBucket ps r \<and> since now (processedTimestamp r) > ReqIDLifetime opts))
          (reqID2Bucket ps)\<rparr>"

definition first_strike_due :: "pending_options \<Rightarrow> int \<Rightarrow> bucket \<Rightarrow> bool" where
  "first_strike_due opts now b \<longleftrightarrow> firstStrikeTimestamp b = None \<and> since now (lastTimestamp b) > FirstStrikeThreshold opts"

text \<open>The result has the requests that \<^verbatim>\<open>FirstStrikeCallback\<close> is called with.\<close>

definition checkFirstStrike :: "pending_options \<Rightarrow> int \<Rightarrow> PendingStore \<Rightarrow> PendingStore \<times> bytes list" where
  "checkFirstStrike opts now ps =
     (let due = filter (\<lambda>a. first_strike_due opts now (psHeap ps ! a)) (psBuckets ps) in
      (fold (\<lambda>a. upd_bucket a (setFirstStrikeTimestamp now)) due ps,
       concat (map (\<lambda>a. map snd (bkRequests (psHeap ps ! a))) due)))"

definition second_strike_due :: "pending_options \<Rightarrow> int \<Rightarrow> bucket \<Rightarrow> bool" where
  "second_strike_due opts now b \<longleftrightarrow>
     firstStrikeTimestamp b \<noteq> None \<and> since now (firstStrikeTimestamp b) > SecondStrikeThreshold opts"

definition checkSecondStrike :: "pending_options \<Rightarrow> int \<Rightarrow> PendingStore \<Rightarrow> PendingStore \<times> bool" where
  "checkSecondStrike opts now ps =
     (case filter (\<lambda>a. second_strike_due opts now (psHeap ps ! a)) (psBuckets ps) of
        [] \<Rightarrow> (ps, False)
      | a # _ \<Rightarrow> (upd_bucket a (resetTimestamp (lastTick ps)) ps, True))"

definition changeEpochs :: "pending_options \<Rightarrow> int \<Rightarrow> PendingStore \<Rightarrow> PendingStore \<times> bytes list \<times> bool" where
  "changeEpochs opts now ps =
     (if psStopped ps then (ps, [], False)
      else if now - lastEpochChange ps \<le> Epoch opts then (ps, [], False)
      else
        (let ps1 = garbageCollectEmptyBuckets (rotateBuckets now (ps\<lparr>lastEpochChange := now\<rparr>));
             ps2 = (if now - lastProcessedGC ps1 > ReqIDGCInterval opts
                    then garbageCollectProcessed opts now (ps1\<lparr>lastProcessedGC := now\<rparr>) else ps1);
             (ps3, firstStrikes) = checkFirstStrike opts now ps2;
             (ps4, secondStrike) = checkSecondStrike opts now ps3
         in (ps4, firstStrikes, secondStrike)))"

text \<open>A tick of the clock in the loop \<^verbatim>\<open>run\<close>, which ends when the store is closed.\<close>

definition run_tick :: "pending_options \<Rightarrow> int \<Rightarrow> PendingStore \<Rightarrow> PendingStore \<times> bytes list \<times> bool" where
  "run_tick opts now ps = (if psClosed ps then (ps, [], False) else changeEpochs opts now (ps\<lparr>lastTick := now\<rparr>))"

definition PendingStore_reset :: "PendingStore \<Rightarrow> PendingStore" where
  "PendingStore_reset ps = (fold (\<lambda>a. upd_bucket a (resetTimestamp (lastTick ps))) (psBuckets ps) ps)\<lparr>psStopped := False\<rparr>"

definition ResetTimestamps :: "PendingStore \<Rightarrow> PendingStore" where
  "ResetTimestamps ps = (if psClosed ps then ps else PendingStore_reset ps)"

definition PendingStore_Stop :: "PendingStore \<Rightarrow> PendingStore" where
  "PendingStore_Stop ps = (if psClosed ps then ps else ps\<lparr>psStopped := True\<rparr>)"

definition PendingStore_Close :: "PendingStore \<Rightarrow> PendingStore" where
  "PendingStore_Close ps = ps\<lparr>psStopped := True, psClosed := True\<rparr>"

definition GetAllRequests :: "PendingStore \<Rightarrow> PendingStore \<times> bytes list" where
  "GetAllRequests ps =
     (if psStopped ps then ps else PendingStore_Stop ps,
      concat (map (\<lambda>a. map snd (bkRequests (psHeap ps ! a))) (psBuckets ps @ [psCurrent ps])))"

section \<open>Well-formed stores\<close>

text \<open>
  Pointers are valid, the current bucket is not sealed, ids count the buckets, sizes the requests, every
  request is under an id that owns it, and an id is indexed under a bucket exactly when the bucket holds it.
\<close>

definition ps_held :: "PendingStore \<Rightarrow> string set" where
  "ps_held ps = {k. \<exists>a. map_of (reqID2Bucket ps) k = Some (InBucket a)}"

definition bucket_ok :: "(string \<Rightarrow> bytes \<Rightarrow> bool) \<Rightarrow> nat \<Rightarrow> bucket \<Rightarrow> bool" where
  "bucket_ok own a b \<longleftrightarrow> bkId b = of_nat (Suc a) \<and> bkSize b = of_nat (length (bkRequests b)) \<and>
     distinct (map fst (bkRequests b)) \<and> (\<forall>(k, v)\<in>set (bkRequests b). own k v)"

definition ps_inv :: "(string \<Rightarrow> bytes \<Rightarrow> bool) \<Rightarrow> PendingStore \<Rightarrow> bool" where
  "ps_inv own ps \<longleftrightarrow>
     Suc (psCurrent ps) = length (psHeap ps) \<and> (\<forall>a\<in>set (psBuckets ps). a < length (psHeap ps)) \<and>
     distinct (psCurrent ps # psBuckets ps) \<and> lastTimestamp (psHeap ps ! psCurrent ps) = None \<and>
     length (psHeap ps) < 2 ^ 64 \<and> distinct (map fst (reqID2Bucket ps)) \<and> card (ps_held ps) < 2 ^ 32 \<and>
     (\<forall>a < length (psHeap ps). bucket_ok own a (psHeap ps ! a) \<and>
        (bkRequests (psHeap ps ! a) \<noteq> [] \<longrightarrow> a \<in> set (psCurrent ps # psBuckets ps))) \<and>
     (\<forall>k a. map_of (reqID2Bucket ps) k = Some (InBucket a) \<longleftrightarrow>
        a < length (psHeap ps) \<and> k \<in> fst ` set (bkRequests (psHeap ps ! a)))"

lemma bucket_ok_new: "bucket_ok own a (newBucket (of_nat (Suc a)))" "bkRequests (newBucket i) = []"
  by (simp_all add: bucket_ok_def newBucket_def)

lemma bucket_ok_times [simp]: "bucket_ok own a (b\<lparr>lastTimestamp := t\<rparr>) = bucket_ok own a b"
  by (simp add: bucket_ok_def)

lemma upd_bucket_simps [simp]:
  "length (psHeap (upd_bucket a f ps)) = length (psHeap ps)" "psCurrent (upd_bucket a f ps) = psCurrent ps"
  "psBuckets (upd_bucket a f ps) = psBuckets ps" "reqID2Bucket (upd_bucket a f ps) = reqID2Bucket ps"
  "psClosed (upd_bucket a f ps) = psClosed ps" "lastTick (upd_bucket a f ps) = lastTick ps"
  "psStopped (upd_bucket a f ps) = psStopped ps"
  by (simp_all add: upd_bucket_def)

lemma upd_bucket_nth:
  "a < length (psHeap ps) \<Longrightarrow> psHeap (upd_bucket a f ps) ! i = (if i = a then f (psHeap ps ! a) else psHeap ps ! i)"
  by (simp add: upd_bucket_def nth_list_update)

lemma ps_held_finite: "finite (ps_held ps)"
  by (rule finite_subset [of _ "fst ` set (reqID2Bucket ps)"]) (force simp: ps_held_def dest: map_of_SomeD)+

lemma ps_inv_Init: "ps_inv own (PendingStore_Init t)" "ps_held (PendingStore_Init t) = {}"
  by (auto simp: ps_inv_def PendingStore_Init_def ps_held_def bucket_ok_def newBucket_def nth_Cons')

lemma not_dummy: "ps_inv own ps \<Longrightarrow> a < length (psHeap ps) \<Longrightarrow> \<not> isDummyBucket ps (InBucket a)"
proof
  assume "ps_inv own ps" "a < length (psHeap ps)" "isDummyBucket ps (InBucket a)"
  then have "(of_nat (Suc a) :: u64) = 0" "Suc a < 2 ^ 64"
    by (auto simp: ps_inv_def bucket_ok_def)
  moreover from this(2) have "unat (of_nat (Suc a) :: u64) = Suc a"
    by (simp add: unat_of_nat del: of_nat_Suc)
  ultimately show False
    by (metis nat.distinct(1) unat_0)
qed

lemma ps_pointer:
  "ps_inv own ps \<Longrightarrow> map_of (reqID2Bucket ps) k = Some (InBucket a) \<Longrightarrow>
     a < length (psHeap ps) \<and> k \<in> fst ` set (bkRequests (psHeap ps ! a))"
  by (simp add: ps_inv_def)

text \<open>A store whose buckets changed in their time stamps, and whose index lost tombstones at most.\<close>

lemma ps_inv_times:
  assumes "ps_inv own ps" "length (psHeap ps') = length (psHeap ps)" "psCurrent ps' = psCurrent ps"
    and "set (psBuckets ps') \<subseteq> set (psBuckets ps)" "distinct (psBuckets ps')"
    and "\<And>a. a < length (psHeap ps) \<Longrightarrow> bkId (psHeap ps' ! a) = bkId (psHeap ps ! a) \<and>
      bkSize (psHeap ps' ! a) = bkSize (psHeap ps ! a) \<and> bkRequests (psHeap ps' ! a) = bkRequests (psHeap ps ! a)"
    and "lastTimestamp (psHeap ps' ! psCurrent ps) = None"
    and "\<And>a. a \<in> set (psBuckets ps) \<Longrightarrow> bkRequests (psHeap ps ! a) \<noteq> [] \<Longrightarrow> a \<in> set (psBuckets ps')"
    and "distinct (map fst (reqID2Bucket ps'))"
    and "\<And>k a. map_of (reqID2Bucket ps') k = Some (InBucket a) \<longleftrightarrow> map_of (reqID2Bucket ps) k = Some (InBucket a)"
  shows "ps_inv own ps' \<and> ps_held ps' = ps_held ps"
proof -
  have h: "ps_held ps' = ps_held ps"
    by (simp add: ps_held_def assms(10))
  note inv = assms(1) [unfolded ps_inv_def]
  have "a < length (psHeap ps') \<Longrightarrow> bucket_ok own a (psHeap ps' ! a) \<and>
      (bkRequests (psHeap ps' ! a) \<noteq> [] \<longrightarrow> a \<in> set (psCurrent ps' # psBuckets ps'))" for a
    using inv assms(2,3,6,8) by (auto simp: bucket_ok_def)
  moreover have "map_of (reqID2Bucket ps') k = Some (InBucket a) \<longleftrightarrow>
      a < length (psHeap ps') \<and> k \<in> fst ` set (bkRequests (psHeap ps' ! a))" for k a
    using inv assms(2,6) assms(10) [of k a] by metis
  moreover have "distinct (psCurrent ps' # psBuckets ps')" "\<forall>a\<in>set (psBuckets ps'). a < length (psHeap ps')"
    using inv assms(2-5) by auto
  ultimately show ?thesis
    using inv assms(2,3,7,9) h unfolding ps_inv_def by simp
qed

text \<open>Time stamps of buckets other than the current one.\<close>

lemma fold_upd_bucket:
  assumes "\<And>b. bkId (f b) = bkId b \<and> bkSize (f b) = bkSize b \<and> bkRequests (f b) = bkRequests b"
    and "\<forall>a\<in>set as. a < length (psHeap ps)"
  shows "length (psHeap (fold (\<lambda>a. upd_bucket a f) as ps)) = length (psHeap ps) \<and>
    psCurrent (fold (\<lambda>a. upd_bucket a f) as ps) = psCurrent ps \<and>
    psBuckets (fold (\<lambda>a. upd_bucket a f) as ps) = psBuckets ps \<and>
    reqID2Bucket (fold (\<lambda>a. upd_bucket a f) as ps) = reqID2Bucket ps \<and>
    psClosed (fold (\<lambda>a. upd_bucket a f) as ps) = psClosed ps \<and>
    psStopped (fold (\<lambda>a. upd_bucket a f) as ps) = psStopped ps \<and>
    lastTick (fold (\<lambda>a. upd_bucket a f) as ps) = lastTick ps \<and>
    (\<forall>i. bkId (psHeap (fold (\<lambda>a. upd_bucket a f) as ps) ! i) = bkId (psHeap ps ! i) \<and>
      bkSize (psHeap (fold (\<lambda>a. upd_bucket a f) as ps) ! i) = bkSize (psHeap ps ! i) \<and>
      bkRequests (psHeap (fold (\<lambda>a. upd_bucket a f) as ps) ! i) = bkRequests (psHeap ps ! i) \<and>
      (i \<notin> set as \<longrightarrow> psHeap (fold (\<lambda>a. upd_bucket a f) as ps) ! i = psHeap ps ! i))"
  using assms(2) by (induction as arbitrary: ps) (simp_all add: upd_bucket_nth assms(1))

lemma ps_inv_fold:
  assumes "ps_inv own ps" "\<And>b. bkId (f b) = bkId b \<and> bkSize (f b) = bkSize b \<and> bkRequests (f b) = bkRequests b"
    and "set as \<subseteq> set (psBuckets ps)"
  shows "ps_inv own (fold (\<lambda>a. upd_bucket a f) as ps) \<and> ps_held (fold (\<lambda>a. upd_bucket a f) as ps) = ps_held ps"
proof -
  have as: "\<forall>a\<in>set as. a < length (psHeap ps)" "psCurrent ps \<notin> set as" "lastTimestamp (psHeap ps ! psCurrent ps) = None"
    "distinct (psBuckets ps)" "distinct (map fst (reqID2Bucket ps))"
    using assms(1,3) unfolding ps_inv_def by auto
  show ?thesis
    using fold_upd_bucket [OF assms(2) as(1)] as by (intro ps_inv_times [OF assms(1)]) simp_all
qed

lemma ps_inv_fields:
  "ps_inv own (ps\<lparr>lastTick := t\<rparr>) = ps_inv own ps" "ps_inv own (ps\<lparr>lastEpochChange := t\<rparr>) = ps_inv own ps"
  "ps_inv own (ps\<lparr>lastProcessedGC := t\<rparr>) = ps_inv own ps" "ps_inv own (ps\<lparr>psStopped := b\<rparr>) = ps_inv own ps"
  "ps_inv own (ps\<lparr>psClosed := b\<rparr>) = ps_inv own ps"
  "ps_held (ps\<lparr>lastTick := t\<rparr>) = ps_held ps" "ps_held (ps\<lparr>lastEpochChange := t\<rparr>) = ps_held ps"
  "ps_held (ps\<lparr>lastProcessedGC := t\<rparr>) = ps_held ps" "ps_held (ps\<lparr>psStopped := b\<rparr>) = ps_held ps"
  "ps_held (ps\<lparr>psClosed := b\<rparr>) = ps_held ps"
  by (simp_all add: ps_inv_def ps_held_def)

lemma ps_inv_rotate:
  assumes "ps_inv own ps" "Suc (length (psHeap ps)) < 2 ^ 64"
  shows "ps_inv own (rotateBuckets now ps) \<and> ps_held (rotateBuckets now ps) = ps_held ps \<and>
    length (psHeap (rotateBuckets now ps)) \<le> Suc (length (psHeap ps))"
proof (cases "bkSize (psHeap ps ! psCurrent ps) = 0")
  case False
  note inv = assms(1) [unfolded ps_inv_def]
  let ?n = "length (psHeap ps)" and ?ps = "rotateBuckets now ps"
  have cur: "psCurrent ps < ?n" "bkId (psHeap ps ! psCurrent ps) = of_nat (Suc (psCurrent ps))"
    using inv by (auto simp: bucket_ok_def simp del: of_nat_Suc)
  have heap: "psHeap ?ps = (psHeap ps)[psCurrent ps := (psHeap ps ! psCurrent ps)\<lparr>lastTimestamp := Some now\<rparr>] @
      [newBucket (of_nat (Suc (psCurrent ps)) + 1)]" "psCurrent ?ps = ?n" "psBuckets ?ps = psBuckets ps @ [psCurrent ps]"
    "reqID2Bucket ?ps = reqID2Bucket ps"
    using False cur by (simp_all add: rotateBuckets_def seal_def)
  have nth: "psHeap ?ps ! a = (if a = ?n then newBucket (of_nat (Suc ?n)) else if a = psCurrent ps
      then (psHeap ps ! psCurrent ps)\<lparr>lastTimestamp := Some now\<rparr> else psHeap ps ! a)" if "a < Suc ?n" for a
    using that inv cur by (auto simp: heap(1) nth_append nth_list_update add.commute)
  have len: "length (psHeap ?ps) = Suc ?n"
    by (simp add: heap(1))
  have held: "ps_held ?ps = ps_held ps"
    by (simp add: ps_held_def heap(4))
  have "a < length (psHeap ?ps) \<Longrightarrow> bucket_ok own a (psHeap ?ps ! a) \<and>
      (bkRequests (psHeap ?ps ! a) \<noteq> [] \<longrightarrow> a \<in> set (psCurrent ?ps # psBuckets ?ps))" for a
    using inv cur nth [of a] by (cases "a = ?n") (auto simp: len heap(2,3) bucket_ok_new less_Suc_eq simp del: of_nat_Suc)
  moreover have "map_of (reqID2Bucket ?ps) k = Some (InBucket a) \<longleftrightarrow>
      a < length (psHeap ?ps) \<and> k \<in> fst ` set (bkRequests (psHeap ?ps ! a))" for k a
    using inv nth [of a] by (cases "a < Suc ?n") (auto simp: len heap(4) newBucket_def)
  moreover have "lastTimestamp (psHeap ?ps ! psCurrent ?ps) = None"
    using nth [of ?n] by (simp add: heap(2) newBucket_def)
  moreover have "distinct (psCurrent ?ps # psBuckets ?ps)" "\<forall>a\<in>set (psBuckets ?ps). a < length (psHeap ?ps)"
    using inv cur by (auto simp: heap(2,3) len)
  ultimately show ?thesis
    using inv assms(2) held unfolding ps_inv_def by (simp add: len heap(2,4))
qed (simp add: rotateBuckets_def assms(1))

lemma bucket_size_zero:
  assumes "ps_inv own ps" "a < length (psHeap ps)"
  shows "bkSize (psHeap ps ! a) = 0 \<longleftrightarrow> bkRequests (psHeap ps ! a) = []"
proof -
  have b: "bucket_ok own a (psHeap ps ! a)" "card (ps_held ps) < 2 ^ 32"
    using assms by (simp_all add: ps_inv_def)
  have "fst ` set (bkRequests (psHeap ps ! a)) \<subseteq> ps_held ps"
    using assms unfolding ps_inv_def ps_held_def by blast
  then have "card (fst ` set (bkRequests (psHeap ps ! a))) \<le> card (ps_held ps)"
    by (intro card_mono ps_held_finite)
  then have "length (bkRequests (psHeap ps ! a)) < 2 ^ 32"
    using b distinct_card [of "map fst (bkRequests (psHeap ps ! a))"] by (simp add: bucket_ok_def)
  then have "unat (of_nat (length (bkRequests (psHeap ps ! a))) :: u32) = length (bkRequests (psHeap ps ! a))"
    by (simp add: unat_of_nat)
  then have "(of_nat (length (bkRequests (psHeap ps ! a))) :: u32) = 0 \<longleftrightarrow> length (bkRequests (psHeap ps ! a)) = 0"
    by (simp only: unat_eq_0 [symmetric])
  then show ?thesis
    using b(1) by (simp only: bucket_ok_def length_0_conv)
qed

lemma ps_inv_gc_empty:
  assumes "ps_inv own ps"
  shows "ps_inv own (garbageCollectEmptyBuckets ps) \<and> ps_held (garbageCollectEmptyBuckets ps) = ps_held ps"
  using assms bucket_size_zero [OF assms]
  by (intro ps_inv_times [OF assms])
    (auto simp: garbageCollectEmptyBuckets_def ps_inv_def word_gt_0)

lemma ps_inv_gc_processed:
  assumes "ps_inv own ps"
  shows "ps_inv own (garbageCollectProcessed opts now ps) \<and> ps_held (garbageCollectProcessed opts now ps) = ps_held ps"
proof -
  let ?P = "\<lambda>(k, r). \<not> (isDummyBucket ps r \<and> since now (processedTimestamp r) > ReqIDLifetime opts)"
  have d: "distinct (map fst (reqID2Bucket ps))" "distinct (psBuckets ps)" "lastTimestamp (psHeap ps ! psCurrent ps) = None"
    using assms by (simp_all add: ps_inv_def)
  have "map_of (filter ?P (reqID2Bucket ps)) k = Some (InBucket a) \<longleftrightarrow> map_of (reqID2Bucket ps) k = Some (InBucket a)" for k a
    using d(1) ps_pointer [OF assms] not_dummy [OF assms, of a] map_of_eq_Some_iff [OF d(1)]
      map_of_eq_Some_iff [OF distinct_map_filter [OF d(1), of ?P]]
    by auto
  then show ?thesis
    using d by (intro ps_inv_times [OF assms]) (simp_all add: garbageCollectProcessed_def distinct_map_filter)
qed

lemma ps_inv_strikes:
  assumes "ps_inv own ps"
  shows "ps_inv own (fst (checkFirstStrike opts now ps)) \<and> ps_held (fst (checkFirstStrike opts now ps)) = ps_held ps"
    "ps_inv own (fst (checkSecondStrike opts now ps)) \<and> ps_held (fst (checkSecondStrike opts now ps)) = ps_held ps"
proof -
  show "ps_inv own (fst (checkFirstStrike opts now ps)) \<and> ps_held (fst (checkFirstStrike opts now ps)) = ps_held ps"
    unfolding checkFirstStrike_def Let_def fst_conv
    by (rule ps_inv_fold [OF assms]) (auto simp: setFirstStrikeTimestamp_def)
  show "ps_inv own (fst (checkSecondStrike opts now ps)) \<and> ps_held (fst (checkSecondStrike opts now ps)) = ps_held ps"
  proof (cases "filter (\<lambda>a. second_strike_due opts now (psHeap ps ! a)) (psBuckets ps)")
    case (Cons a as)
    then have "a \<in> set (psBuckets ps)"
      by (metis filter_is_subset list.set_intros(1) subset_iff)
    then show ?thesis
      using ps_inv_fold [OF assms, of "resetTimestamp (lastTick ps)" "[a]"] Cons
      by (simp add: checkSecondStrike_def resetTimestamp_def)
  qed (simp add: checkSecondStrike_def assms)
qed

lemma ps_inv_tick:
  assumes "ps_inv own ps" "Suc (length (psHeap ps)) < 2 ^ 64"
  shows "ps_inv own (fst (run_tick opts now ps)) \<and> ps_held (fst (run_tick opts now ps)) = ps_held ps"
proof -
  define ps1 where "ps1 = garbageCollectEmptyBuckets (rotateBuckets now (ps\<lparr>lastTick := now, lastEpochChange := now\<rparr>))"
  define ps2 where "ps2 = (if now - lastProcessedGC ps1 > ReqIDGCInterval opts
    then garbageCollectProcessed opts now (ps1\<lparr>lastProcessedGC := now\<rparr>) else ps1)"
  let ?r = "rotateBuckets now (ps\<lparr>lastTick := now, lastEpochChange := now\<rparr>)"
  have "ps_inv own ?r \<and> ps_held ?r = ps_held ps"
    using ps_inv_rotate [of own "ps\<lparr>lastTick := now, lastEpochChange := now\<rparr>" now] assms by (simp add: ps_inv_fields)
  then have "ps_inv own ps1 \<and> ps_held ps1 = ps_held ps"
    using ps_inv_gc_empty [of own ?r] by (simp add: ps1_def)
  then have "ps_inv own ps2 \<and> ps_held ps2 = ps_held ps"
    using ps_inv_gc_processed [of own "ps1\<lparr>lastProcessedGC := now\<rparr>" opts now] by (simp add: ps2_def ps_inv_fields)
  then have "ps_inv own (fst (checkSecondStrike opts now (fst (checkFirstStrike opts now ps2)))) \<and>
      ps_held (fst (checkSecondStrike opts now (fst (checkFirstStrike opts now ps2)))) = ps_held ps"
    using ps_inv_strikes(1) [of own ps2 opts now] ps_inv_strikes(2) [of own "fst (checkFirstStrike opts now ps2)" opts now] by simp
  then show ?thesis
    using assms(1) by (simp add: run_tick_def changeEpochs_def ps_inv_fields Let_def case_prod_unfold
        ps1_def [symmetric] ps2_def [symmetric])
qed

lemma fold_frame:
  "psClosed (fold (\<lambda>a. upd_bucket a f) as ps) = psClosed ps"
  "length (psHeap (fold (\<lambda>a. upd_bucket a f) as ps)) = length (psHeap ps)"
  by (induction as arbitrary: ps) simp_all

lemma strike_frame:
  "psClosed (fst (checkFirstStrike opts now ps)) = psClosed ps" "psClosed (fst (checkSecondStrike opts now ps)) = psClosed ps"
  "length (psHeap (fst (checkFirstStrike opts now ps))) = length (psHeap ps)"
  "length (psHeap (fst (checkSecondStrike opts now ps))) = length (psHeap ps)"
  by (simp_all add: checkFirstStrike_def checkSecondStrike_def Let_def fold_frame split: list.split)

lemma gc_frame:
  "psClosed (garbageCollectEmptyBuckets ps) = psClosed ps" "psHeap (garbageCollectEmptyBuckets ps) = psHeap ps"
  "psClosed (garbageCollectProcessed opts now ps) = psClosed ps" "psHeap (garbageCollectProcessed opts now ps) = psHeap ps"
  by (simp_all add: garbageCollectEmptyBuckets_def garbageCollectProcessed_def)

lemma rotate_frame:
  "psClosed (rotateBuckets now ps) = psClosed ps" "length (psHeap (rotateBuckets now ps)) \<le> Suc (length (psHeap ps))"
  by (simp_all add: rotateBuckets_def Let_def case_prod_unfold)

lemma tick_frame:
  "psClosed (fst (run_tick opts now ps)) = psClosed ps"
  "length (psHeap (fst (run_tick opts now ps))) \<le> Suc (length (psHeap ps))"
  using rotate_frame(2) [of now "ps\<lparr>lastTick := now, lastEpochChange := now\<rparr>"]
  by (simp_all add: run_tick_def changeEpochs_def Let_def case_prod_unfold strike_frame gc_frame rotate_frame(1) if_distrib [of fst])

lemma ps_inv_reset: "ps_inv own ps \<Longrightarrow> ps_inv own (ResetTimestamps ps) \<and> ps_held (ResetTimestamps ps) = ps_held ps"
  using ps_inv_fold [of own ps "resetTimestamp (lastTick ps)" "psBuckets ps"]
  by (simp add: ResetTimestamps_def PendingStore_reset_def ps_inv_fields resetTimestamp_def)

section \<open>Submission\<close>

lemma ps_inv_insert:
  assumes "ps_inv own ps" "map_of (reqID2Bucket ps) (rid v) = None" "Suc (card (ps_held ps)) < 2 ^ 32" "own (rid v) v"
  defines "ps' \<equiv> (upd_bucket (psCurrent ps) (\<lambda>b. b\<lparr>bkRequests := bkRequests b @ [(rid v, v)], bkSize := bkSize b + 1\<rparr>) ps)
    \<lparr>reqID2Bucket := (rid v, InBucket (psCurrent ps)) # reqID2Bucket ps\<rparr>"
  shows "ps_inv own ps' \<and> ps_held ps' = insert (rid v) (ps_held ps) \<and> rid v \<notin> ps_held ps"
proof -
  note inv = assms(1) [unfolded ps_inv_def]
  let ?c = "psCurrent ps"
  have c: "?c < length (psHeap ps)"
    using inv by linarith
  have new: "rid v \<notin> fst ` set (bkRequests (psHeap ps ! a))" if "a < length (psHeap ps)" for a
    using inv that assms(2) by (metis option.distinct(1))
  have nth: "psHeap ps' ! a = (if a = ?c then (psHeap ps ! ?c)\<lparr>bkRequests := bkRequests (psHeap ps ! ?c) @ [(rid v, v)],
      bkSize := bkSize (psHeap ps ! ?c) + 1\<rparr> else psHeap ps ! a)" for a
    using c by (simp add: ps'_def upd_bucket_nth)
  have f: "length (psHeap ps') = length (psHeap ps)" "psCurrent ps' = ?c" "psBuckets ps' = psBuckets ps"
    "reqID2Bucket ps' = (rid v, InBucket ?c) # reqID2Bucket ps"
    by (simp_all add: ps'_def)
  have held: "ps_held ps' = insert (rid v) (ps_held ps)" "rid v \<notin> ps_held ps"
    using assms(2) by (auto simp: ps_held_def f)
  have "a < length (psHeap ps') \<Longrightarrow> bucket_ok own a (psHeap ps' ! a) \<and>
      (bkRequests (psHeap ps' ! a) \<noteq> [] \<longrightarrow> a \<in> set (psCurrent ps' # psBuckets ps'))" for a
    using inv new [OF c] assms(4) by (auto simp: f nth bucket_ok_def)
  moreover have "map_of (reqID2Bucket ps') k = Some (InBucket a) \<longleftrightarrow>
      a < length (psHeap ps') \<and> k \<in> fst ` set (bkRequests (psHeap ps' ! a))" for k a
    using inv new c by (auto simp: f nth)
  moreover have "distinct (map fst (reqID2Bucket ps'))"
    using inv assms(2) by (simp add: f map_of_eq_None_iff)
  moreover have "card (ps_held ps') < 2 ^ 32"
    using assms(3) held ps_held_finite [of ps] by simp
  moreover have "lastTimestamp (psHeap ps' ! psCurrent ps') = None"
    using inv by (simp add: f nth)
  ultimately show ?thesis
    using inv held unfolding ps_inv_def by (simp add: f)
qed

lemma submit_spec:
  assumes "ps_inv own ps" "\<not> psClosed ps" "Suc (card (ps_held ps)) < 2 ^ 32" "own (rid v) v"
  obtains ps' where "PendingStore_Submit rid v ps = Some (ps', None)" "map_of (reqID2Bucket ps) (rid v) = None" "ps_inv own ps'"
    "ps_held ps' = insert (rid v) (ps_held ps)" "rid v \<notin> ps_held ps" "psClosed ps' = psClosed ps"
    "length (psHeap ps') = length (psHeap ps)" "\<And>k t. map_of (reqID2Bucket ps') k = Some (Tombstone t) \<longleftrightarrow> map_of (reqID2Bucket ps) k = Some (Tombstone t)"
  | "PendingStore_Submit rid v ps = Some (ps, Some (already_inserted (rid v)))" "map_of (reqID2Bucket ps) (rid v) \<noteq> None"
proof -
  let ?ps' = "(upd_bucket (psCurrent ps) (\<lambda>b. b\<lparr>bkRequests := bkRequests b @ [(rid v, v)], bkSize := bkSize b + 1\<rparr>) ps)
    \<lparr>reqID2Bucket := (rid v, InBucket (psCurrent ps)) # reqID2Bucket ps\<rparr>"
  note inv = assms(1) [unfolded ps_inv_def]
  have c: "lastTimestamp (psHeap ps ! psCurrent ps) = None" "psCurrent ps < length (psHeap ps)"
    using inv by (blast, linarith)
  show thesis
  proof (cases "map_of (reqID2Bucket ps) (rid v)")
    case None
    have "rid v \<notin> fst ` set (bkRequests (psHeap ps ! psCurrent ps))"
      using inv c(2) None by (metis option.distinct(1))
    then have "PendingStore_Submit rid v ps = Some (?ps', None)"
      using None c assms(2) unfolding PendingStore_Submit_def
      by (subst submit_loop.simps) (simp add: tryInsert_def map_of_eq_None_iff [of "bkRequests _"])
    then show thesis
      using that(1) None ps_inv_insert [where rid = rid, OF assms(1) None assms(3,4)] by auto
  next
    case (Some r)
    have "errors_Is (already_inserted (rid v)) errBucketSealed = False"
      by (simp add: already_inserted_def errBucketSealed_def)
    then have "PendingStore_Submit rid v ps = Some (ps, Some (already_inserted (rid v)))"
      using Some c assms(2) unfolding PendingStore_Submit_def
      by (subst submit_loop.simps) (simp add: tryInsert_def)
    then show thesis
      using that(2) Some by simp
  qed
qed

section \<open>Removal\<close>

lemma ps_inv_distinct: "ps_inv own ps \<Longrightarrow> distinct (map fst (reqID2Bucket ps))"
  by (simp add: ps_inv_def)

lemma length_alist_delete:
  "distinct (map fst al) \<Longrightarrow> k \<in> fst ` set al \<Longrightarrow> length al = Suc (length (AList.delete k al))"
  by (induction al) auto

lemma ps_inv_delete:
  assumes "ps_inv own ps" "map_of (reqID2Bucket ps) k = Some (InBucket a)"
    and "length (psHeap ps') = length (psHeap ps)" "psCurrent ps' = psCurrent ps" "psBuckets ps' = psBuckets ps"
    and "psHeap ps' = (psHeap ps)[a := fst (bucket_delete k (psHeap ps ! a))]" "distinct (map fst (reqID2Bucket ps'))"
    and "map_of (reqID2Bucket ps') = (map_of (reqID2Bucket ps))(k := None)"
  shows "ps_inv own ps' \<and> ps_held ps' = ps_held ps - {k} \<and> k \<in> ps_held ps \<and> snd (bucket_delete k (psHeap ps ! a))"
proof -
  note inv = assms(1) [unfolded ps_inv_def]
  have a: "a < length (psHeap ps)" "k \<in> fst ` set (bkRequests (psHeap ps ! a))"
    using ps_pointer [OF assms(1,2)] by simp_all
  then have d: "bucket_delete k (psHeap ps ! a) =
      ((psHeap ps ! a)\<lparr>bkRequests := AList.delete k (bkRequests (psHeap ps ! a)), bkSize := bkSize (psHeap ps ! a) - 1\<rparr>, True)"
    by (simp add: bucket_delete_def map_of_eq_None_iff)
  have other: "k \<notin> fst ` set (bkRequests (psHeap ps ! b))" if "b < length (psHeap ps)" "b \<noteq> a" for b
    using inv assms(2) that by (metis bucket_ref.inject(2) option.inject)
  have len: "length (bkRequests (psHeap ps ! a)) = Suc (length (AList.delete k (bkRequests (psHeap ps ! a))))"
    using inv a by (intro length_alist_delete) (simp_all add: bucket_ok_def)
  have held: "ps_held ps' = ps_held ps - {k}" "k \<in> ps_held ps"
    using assms(2,8) by (auto simp: ps_held_def)
  have nth: "psHeap ps' ! b = (if b = a then fst (bucket_delete k (psHeap ps ! a)) else psHeap ps ! b)" for b
    using a(1) by (simp add: assms(6) nth_list_update)
  have "b < length (psHeap ps') \<Longrightarrow> bucket_ok own b (psHeap ps' ! b) \<and>
      (bkRequests (psHeap ps' ! b) \<noteq> [] \<longrightarrow> b \<in> set (psCurrent ps' # psBuckets ps'))" for b
    using inv a len by (auto simp: assms(3-5) nth d bucket_ok_def distinct_delete set_alist_delete)
  moreover have "map_of (reqID2Bucket ps') k' = Some (InBucket b) \<longleftrightarrow>
      b < length (psHeap ps') \<and> k' \<in> fst ` set (bkRequests (psHeap ps' ! b))" for k' b
    using inv a other by (auto simp: assms(3,8) nth d keys_alist_delete)
  moreover have "card (ps_held ps') < 2 ^ 32"
    using inv held ps_held_finite [of ps] by (auto intro: le_less_trans [OF card_mono])
  moreover have "lastTimestamp (psHeap ps' ! psCurrent ps') = None"
    using inv by (auto simp: assms(4) nth d)
  ultimately show ?thesis
    using inv held assms(7) d unfolding ps_inv_def by (simp add: assms(3-5))
qed

lemma ps_inv_tombstone:
  assumes "ps_inv own ps" "k \<notin> ps_held ps"
  shows "ps_inv own (ps\<lparr>reqID2Bucket := AList.update k (Tombstone t) (reqID2Bucket ps)\<rparr>) \<and>
    ps_held (ps\<lparr>reqID2Bucket := AList.update k (Tombstone t) (reqID2Bucket ps)\<rparr>) = ps_held ps"
proof -
  have d: "distinct (map fst (reqID2Bucket ps))" "distinct (psBuckets ps)" "lastTimestamp (psHeap ps ! psCurrent ps) = None"
    using assms(1) by (simp_all add: ps_inv_def)
  have "map_of (AList.update k (Tombstone t) (reqID2Bucket ps)) k' = Some (InBucket a) \<longleftrightarrow> map_of (reqID2Bucket ps) k' = Some (InBucket a)" for k' a
    using assms(2) by (auto simp: update_conv' ps_held_def)
  then show ?thesis
    using d by (intro ps_inv_times [OF assms(1)]) (simp_all add: distinct_update)
qed

lemma removeRequest_cases:
  assumes "ps_inv own ps"
  shows "removeRequest k t ps =
    (case map_of (reqID2Bucket ps) k of
       Some (InBucket a) \<Rightarrow>
         (ps\<lparr>psHeap := (psHeap ps)[a := fst (bucket_delete k (psHeap ps ! a))],
             reqID2Bucket := AList.delete k (reqID2Bucket ps)\<rparr>, [k])
     | _ \<Rightarrow> (ps\<lparr>reqID2Bucket := AList.update k (Tombstone t) (reqID2Bucket ps)\<rparr>, []))"
proof -
  have "\<not> isDummyBucket ps (InBucket a) \<and> snd (bucket_delete k (psHeap ps ! a))"
    if "map_of (reqID2Bucket ps) k = Some (InBucket a)" for a
    using ps_pointer [OF assms that] not_dummy [OF assms] by (auto simp: bucket_delete_def map_of_eq_None_iff)
  then show ?thesis
    by (auto simp: removeRequest_def Let_def case_prod_unfold delete_update_same split: option.split bucket_ref.split)
qed

lemma ps_release:
  assumes "ps_inv own ps"
  shows "ps_inv own (fst (removeRequest k t ps))"
    "ps_held (fst (removeRequest k t ps)) = ps_held ps - set (snd (removeRequest k t ps))"
    "set (snd (removeRequest k t ps)) \<subseteq> ps_held ps \<inter> {k}" "distinct (snd (removeRequest k t ps))"
proof -
  have del: "ps_inv own (ps\<lparr>psHeap := (psHeap ps)[a := fst (bucket_delete k (psHeap ps ! a))],
        reqID2Bucket := AList.delete k (reqID2Bucket ps)\<rparr>) \<and>
      ps_held (ps\<lparr>psHeap := (psHeap ps)[a := fst (bucket_delete k (psHeap ps ! a))],
        reqID2Bucket := AList.delete k (reqID2Bucket ps)\<rparr>) = ps_held ps - {k} \<and> k \<in> ps_held ps"
    if "map_of (reqID2Bucket ps) k = Some (InBucket a)" for a
    using distinct_delete [of "reqID2Bucket ps" k] ps_inv_distinct [OF assms] ps_inv_delete [OF assms that, of "ps\<lparr>psHeap := (psHeap ps)[a := fst (bucket_delete k (psHeap ps ! a))],
        reqID2Bucket := AList.delete k (reqID2Bucket ps)\<rparr>"]
    by (simp add: delete_conv')
  note tomb = ps_inv_tombstone [OF assms, of k t]
  show "ps_inv own (fst (removeRequest k t ps))"
    "ps_held (fst (removeRequest k t ps)) = ps_held ps - set (snd (removeRequest k t ps))"
    "set (snd (removeRequest k t ps)) \<subseteq> ps_held ps \<inter> {k}" "distinct (snd (removeRequest k t ps))"
    unfolding removeRequest_cases [OF assms]
    using del tomb by (auto simp: ps_held_def split: option.split bucket_ref.split)
qed

lemma ps_prune:
  assumes "ps_inv own ps"
  shows "ps_inv own (fst (prune_request P k ps))"
    "ps_held (fst (prune_request P k ps)) = ps_held ps - set (snd (prune_request P k ps))"
    "set (snd (prune_request P k ps)) \<subseteq> ps_held ps \<inter> {k}" "distinct (snd (prune_request P k ps))"
proof -
  have del: "ps_inv own (ps\<lparr>reqID2Bucket := AList.delete k (reqID2Bucket ps),
        psHeap := (psHeap ps)[a := fst (bucket_delete k (psHeap ps ! a))]\<rparr>) \<and>
      ps_held (ps\<lparr>reqID2Bucket := AList.delete k (reqID2Bucket ps),
        psHeap := (psHeap ps)[a := fst (bucket_delete k (psHeap ps ! a))]\<rparr>) = ps_held ps - {k} \<and> k \<in> ps_held ps \<and>
      snd (bucket_delete k (psHeap ps ! a))"
    if "map_of (reqID2Bucket ps) k = Some (InBucket a)" for a
    using distinct_delete [of "reqID2Bucket ps" k] ps_inv_distinct [OF assms] ps_inv_delete [OF assms that, of
      "ps\<lparr>reqID2Bucket := AList.delete k (reqID2Bucket ps), psHeap := (psHeap ps)[a := fst (bucket_delete k (psHeap ps ! a))]\<rparr>"]
    by (simp add: delete_conv')
  show "ps_inv own (fst (prune_request P k ps))"
    "ps_held (fst (prune_request P k ps)) = ps_held ps - set (snd (prune_request P k ps))"
    "set (snd (prune_request P k ps)) \<subseteq> ps_held ps \<inter> {k}" "distinct (snd (prune_request P k ps))"
    unfolding prune_request_def using del assms
    by (auto simp: case_prod_unfold Let_def split: option.split bucket_ref.split)
qed

interpretation ps_store: request_store "ps_inv own" ps_held for own
  by unfold_locales (rule ps_held_finite)

interpretation ps_remove: releasing "ps_inv own" ps_held "\<lambda>k. removeRequest k t" for own t
  by unfold_locales (rule ps_release; assumption)+

interpretation ps_pruning: releasing "ps_inv own" ps_held "prune_request P" for own P
  by unfold_locales (rule ps_prune; assumption)+

lemma prune_requests_each: "prune_requests P ks ps = remove_each (prune_request P) ks ps"
  by (induction ks arbitrary: ps) (simp_all add: case_prod_unfold Let_def)

lemma removeRequest_length: "length (psHeap (fst (removeRequest k t ps))) = length (psHeap ps)"
  by (simp add: removeRequest_def Let_def case_prod_unfold split: option.split bucket_ref.split)

lemma prune_request_frame:
  "length (psHeap (fst (prune_request P k ps))) = length (psHeap ps)" "psClosed (fst (prune_request P k ps)) = psClosed ps"
  by (simp_all add: prune_request_def Let_def case_prod_unfold split: option.split bucket_ref.split)

lemma reset_frame:
  "psClosed (ResetTimestamps ps) = psClosed ps" "length (psHeap (ResetTimestamps ps)) = length (psHeap ps)"
  by (simp_all add: ResetTimestamps_def PendingStore_reset_def fold_frame)

lemma removeRequest_closed: "psClosed (fst (removeRequest k t ps)) = psClosed ps" "lastTick (fst (removeRequest k t ps)) = lastTick ps"
  by (simp_all add: removeRequest_def Let_def case_prod_unfold split: option.split bucket_ref.split)

lemma removeRequests_each:
  assumes "numCPU \<noteq> 0" "\<not> psClosed ps"
  shows "PendingStore_RemoveRequests numCPU ks ps = remove_each (\<lambda>k. removeRequest k (lastTick ps)) ks ps"
  unfolding PendingStore_RemoveRequests_def Let_def [of "lastTick ps"]
  by (rule remove_parallel [where I = "\<lambda>s. \<not> psClosed s"])
    (simp_all add: case_prod_unfold Let_def removeRequest_closed assms)

section \<open>All requests\<close>

lemma ps_bucket:
  assumes "ps_inv own ps" "a < length (psHeap ps)"
  shows "distinct (map fst (bkRequests (psHeap ps ! a)))" "p \<in> set (bkRequests (psHeap ps ! a)) \<Longrightarrow> own (fst p) (snd p)"
    "bkRequests (psHeap ps ! a) \<noteq> [] \<Longrightarrow> a \<in> set (psBuckets ps @ [psCurrent ps])"
proof -
  have ok: "bucket_ok own a (psHeap ps ! a)" "bkRequests (psHeap ps ! a) \<noteq> [] \<longrightarrow> a = psCurrent ps \<or> a \<in> set (psBuckets ps)"
    using assms by (simp_all add: ps_inv_def)
  show "distinct (map fst (bkRequests (psHeap ps ! a)))" "p \<in> set (bkRequests (psHeap ps ! a)) \<Longrightarrow> own (fst p) (snd p)"
    using ok(1) by (auto simp: bucket_ok_def)
  show "bkRequests (psHeap ps ! a) \<noteq> [] \<Longrightarrow> a \<in> set (psBuckets ps @ [psCurrent ps])"
    using ok(2) by auto
qed

lemma ps_index:
  assumes "ps_inv own ps"
  shows "map_of (reqID2Bucket ps) k = Some (InBucket a) \<longleftrightarrow> a < length (psHeap ps) \<and> k \<in> fst ` set (bkRequests (psHeap ps ! a))"
  using assms by (simp add: ps_inv_def)

lemma GetAllRequests_held:
  assumes "ps_inv own ps" "\<And>k v. own k v \<Longrightarrow> k = rid v"
  shows "distinct (map rid (snd (GetAllRequests ps)))" "set (map rid (snd (GetAllRequests ps))) = ps_held ps"
    "v \<in> set (snd (GetAllRequests ps)) \<Longrightarrow> own (rid v) v"
proof -
  let ?as = "psBuckets ps @ [psCurrent ps]" and ?m = "\<lambda>a. bkRequests (psHeap ps ! a)"
  have ok: "distinct (psCurrent ps # psBuckets ps)" "\<forall>a \<in> set (psBuckets ps). a < length (psHeap ps)"
      "Suc (psCurrent ps) = length (psHeap ps)"
    using assms(1) by (simp_all add: ps_inv_def)
  then have as: "a < length (psHeap ps)" if "a \<in> set ?as" for a
    using that by auto
  have rid: "map rid (snd (GetAllRequests ps)) = map fst (concat (map ?m ?as))"
  proof -
    have "map (\<lambda>p. rid (snd p)) (?m a) = map fst (?m a)" if "a \<in> set ?as" for a
      using assms(2) ps_bucket(2) [OF assms(1) as [OF that]] by (metis (no_types, lifting) map_cong)
    then have "map (\<lambda>a. map (\<lambda>p. rid (snd p)) (?m a)) ?as = map (\<lambda>a. map fst (?m a)) ?as"
      by (rule map_cong [OF refl])
    then show ?thesis
      unfolding GetAllRequests_def snd_conv map_concat map_map comp_def by (rule arg_cong)
  qed
  show "own (rid v) v" if v: "v \<in> set (snd (GetAllRequests ps))"
  proof -
    obtain a k where a: "a \<in> set ?as" "(k, v) \<in> set (?m a)"
      using v unfolding GetAllRequests_def by (simp add: bex_Un) (metis imageE prod.collapse)
    then show ?thesis
      using ps_bucket(2) [OF assms(1) as [OF a(1)] a(2)] assms(2) by fastforce
  qed
  show "distinct (map rid (snd (GetAllRequests ps)))"
    unfolding rid
  proof (rule distinct_concat_keys)
    show "distinct ?as"
      using ok(1) by simp
    show "distinct (map fst (?m a))" if "a \<in> set ?as" for a
      using ps_bucket(1) [OF assms(1) as [OF that]] .
    show "a = b" if "a \<in> set ?as" "b \<in> set ?as" "k \<in> fst ` set (?m a)" "k \<in> fst ` set (?m b)" for k a b
      using ps_index [OF assms(1), of k a] ps_index [OF assms(1), of k b] as [OF that(1)] as [OF that(2)] that(3,4) by simp
  qed
  have "k \<in> fst ` set (concat (map ?m ?as)) \<longleftrightarrow> (\<exists>a \<in> set ?as. k \<in> fst ` set (?m a))" for k
    by auto
  moreover have "(\<exists>a \<in> set ?as. k \<in> fst ` set (?m a)) \<longleftrightarrow> k \<in> ps_held ps" for k
  proof
    assume "k \<in> ps_held ps"
    then obtain a where a: "a < length (psHeap ps)" "k \<in> fst ` set (?m a)"
      using ps_index [OF assms(1), of k] by (auto simp: ps_held_def)
    then have "?m a \<noteq> []"
      by auto
    then show "\<exists>a \<in> set ?as. k \<in> fst ` set (?m a)"
      using ps_bucket(3) [OF assms(1) a(1)] a(2) by blast
  next
    assume "\<exists>a \<in> set ?as. k \<in> fst ` set (?m a)"
    then obtain a where "a \<in> set ?as" "k \<in> fst ` set (?m a)"
      by blast
    then have "map_of (reqID2Bucket ps) k = Some (InBucket a)"
      using ps_index [OF assms(1), of k a] as by simp
    then show "k \<in> ps_held ps"
      by (auto simp: ps_held_def)
  qed
  ultimately show "set (map rid (snd (GetAllRequests ps))) = ps_held ps"
    unfolding rid set_map by (simp add: set_eq_iff)
qed

end
