(* ===== verification/Pool.thy ===== *)
theory Pool
  imports PendingStore "HOL-Library.Signed_Division"
begin

text \<open>
  The pool of the requests of a batcher (\<^verbatim>\<open>src/request/pool.go\<close>). A secondary keeps them in a pending store, a
  primary in a batch store, and \<^verbatim>\<open>Restart\<close> moves them from one to the other when the role changes. A weighted
  semaphore (\<^verbatim>\<open>golang.org/x/sync/semaphore\<close>) bounds the number of requests: a submission takes a permit, and a
  request that leaves the pool gives it back.

  Operations are taken one at a time here. \<^verbatim>\<open>Halt\<close>, \<^verbatim>\<open>Restart\<close> and \<^verbatim>\<open>Close\<close> do run alone, under the write lock
  of the pool; \<open>PoolCallers\<close> has the interleavings of the other calls, and \<open>BatchStoreCallers\<close> those within the batch
  store. A result of \<^const>\<open>None\<close> stands for a call that does not return.
\<close>

section \<open>The semaphore\<close>

record Weighted =
  semSize :: int
  semCur :: int

definition NewWeighted :: "int \<Rightarrow> fault + Weighted" where
  "NewWeighted n =
     (if n < 0 then Inl (Panicked ''semaphore: size < 0'') else Inr \<lparr>semSize = n, semCur = 0\<rparr>)"

text \<open>With one caller at a time there are no waiters; a caller that has to wait does so until its context is done.\<close>

definition Acquire :: "bool \<Rightarrow> int \<Rightarrow> Weighted \<Rightarrow> fault + Weighted \<times> bool" where
  "Acquire ctxDone n s =
     (if n < 0 then Inl (Panicked ''semaphore: n < 0'')
      else if ctxDone then Inr (s, False)
      else if semSize s - semCur s \<ge> n then Inr (s\<lparr>semCur := semCur s + n\<rparr>, True)
      else Inr (s, False))"

definition Release :: "int \<Rightarrow> Weighted \<Rightarrow> fault + Weighted" where
  "Release n s =
     (if n < 0 then Inl (Panicked ''semaphore: n < 0'')
      else if semCur s - n < 0 then Inl (Panicked ''semaphore: released more than held'')
      else Inr (s\<lparr>semCur := semCur s - n\<rparr>))"

section \<open>The pool\<close>

record PoolOptions =
  MaxSize :: u64
  BatchMaxSize :: u32
  BatchMaxSizeBytes :: u32
  RequestMaxBytes :: u64
  SubmitTimeout :: int
  PoolFirstStrikeThreshold :: int
  PoolSecondStrikeThreshold :: int
  AutoRemoveTimeout :: int

record Pool =
  pending :: "PendingStore option"
  options :: PoolOptions
  batchStore :: "BatchStore option"
  semaphore :: Weighted
  closed :: bool
  stopped :: bool
  batchingEnabled :: bool
  pool_size :: int

text \<open>What \<^verbatim>\<open>createPendingStore\<close> configures the store with; durations are nanoseconds.\<close>

definition createPendingStore :: "PoolOptions \<Rightarrow> pending_options" where
  "createPendingStore opts =
     \<lparr>ReqIDGCInterval = AutoRemoveTimeout opts sdiv 4, ReqIDLifetime = AutoRemoveTimeout opts,
      FirstStrikeThreshold = PoolFirstStrikeThreshold opts, SecondStrikeThreshold = PoolSecondStrikeThreshold opts,
      Epoch = 1000000000\<rparr>"

definition createBatchStore :: "PoolOptions \<Rightarrow> BatchStore" where
  "createBatchStore opts = NewBatchStore (BatchMaxSize opts) (BatchMaxSizeBytes opts)"

definition NewPool :: "PoolOptions \<Rightarrow> int \<Rightarrow> fault + Pool" where
  "NewPool opts now =
     res_bind (NewWeighted (sint (MaxSize opts))) (\<lambda>sem.
       Inr \<lparr>pending = Some (PendingStore_Init now), options = opts, batchStore = Some (createBatchStore opts),
            semaphore = sem, closed = False, stopped = False, batchingEnabled = False, pool_size = 0\<rparr>)"

text \<open>The callback of both stores, for each request they delete.\<close>

definition onDelete :: "Pool \<Rightarrow> fault + Pool" where
  "onDelete rp =
     res_bind (Release 1 (semaphore rp)) (\<lambda>sem. Inr (rp\<lparr>semaphore := sem, pool_size := pool_size rp - 1\<rparr>))"

fun on_deletes :: "string list \<Rightarrow> Pool \<Rightarrow> fault + Pool" where
  "on_deletes [] rp = Inr rp"
| "on_deletes (key # keys) rp = res_bind (onDelete rp) (on_deletes keys)"

section \<open>Submission\<close>

definition submitToPendingStore ::
  "(bytes \<Rightarrow> string) \<Rightarrow> string \<Rightarrow> bytes \<Rightarrow> Pool \<Rightarrow> (fault + Pool \<times> error option) option" where
  "submitToPendingStore requestID reqID request rp =
     (case pending rp of
        None \<Rightarrow> Some (Inl NilDereference)
      | Some ps \<Rightarrow>
          (case PendingStore_Submit requestID request ps of
             None \<Rightarrow> None
           | Some (ps', Some err) \<Rightarrow>
               Some (res_bind (Release 1 (semaphore rp)) (\<lambda>sem.
                 Inr (rp\<lparr>pending := Some ps', semaphore := sem\<rparr>, Some err)))
           | Some (ps', None) \<Rightarrow>
               Some (Inr (rp\<lparr>pending := Some ps', pool_size := pool_size rp + 1\<rparr>, None))))"

definition submitToBatchStore :: "string \<Rightarrow> bytes \<Rightarrow> Pool \<Rightarrow> (fault + Pool \<times> error option) option" where
  "submitToBatchStore reqID request rp =
     (case batchStore rp of
        None \<Rightarrow> Some (Inl NilDereference)
      | Some bs \<Rightarrow>
          (case Insert bs reqID request (of_nat (length request)) of
             None \<Rightarrow> None
           | Some (bs', inserted) \<Rightarrow>
               if \<not> inserted then
                 Some (res_bind (Release 1 (semaphore rp)) (\<lambda>sem.
                   Inr (rp\<lparr>batchStore := Some bs', semaphore := sem\<rparr>, Some (already_inserted reqID))))
               else Some (Inr (rp\<lparr>batchStore := Some bs', pool_size := pool_size rp + 1\<rparr>, None))))"

text \<open>The context of a submission is done from the start when the time-out is not positive.\<close>

definition Pool_Submit :: "(bytes \<Rightarrow> string) \<Rightarrow> bytes \<Rightarrow> Pool \<Rightarrow> (fault + Pool \<times> error option) option" where
  "Pool_Submit requestID request rp =
     (if closed rp \<or> stopped rp then Some (Inr (rp, Some (ErrNew ''pool halted or closed, request rejected'')))
      else if (of_nat (length request) :: u64) > RequestMaxBytes (options rp)
      then Some (Inr (rp, Some (ErrNew ''submitted request is bigger than request max bytes'')))
      else
        (let reqID = requestID request in
         case Acquire (SubmitTimeout (options rp) \<le> 0) 1 (semaphore rp) of
           Inl f \<Rightarrow> Some (Inl f)
         | Inr (sem, False) \<Rightarrow>
             Some (Inr (rp\<lparr>semaphore := sem\<rparr>, Some (ErrNew (''timed out enqueuing request '' @ reqID @ '' to pool''))))
         | Inr (sem, True) \<Rightarrow>
             if \<not> batchingEnabled rp then submitToPendingStore requestID reqID request (rp\<lparr>semaphore := sem\<rparr>)
             else submitToBatchStore reqID request (rp\<lparr>semaphore := sem\<rparr>)))"

section \<open>Batching and removal\<close>

definition NextRequests :: "bool \<Rightarrow> Pool \<Rightarrow> (fault + Pool \<times> bytes list \<times> string list) option" where
  "NextRequests ctxDone rp =
     (if closed rp \<or> stopped rp then Some (Inr (rp, [], []))
      else if \<not> batchingEnabled rp then Some (Inr (rp, [], []))
      else
        (case batchStore rp of
           None \<Rightarrow> Some (Inl NilDereference)
         | Some bs \<Rightarrow>
             (case Fetch ctxDone bs of
                None \<Rightarrow> None
              | Some (bs', requests, ids) \<Rightarrow> Some (Inr (rp\<lparr>batchStore := Some bs'\<rparr>, requests, ids)))))"

definition Pool_RemoveRequests :: "nat \<Rightarrow> string list \<Rightarrow> Pool \<Rightarrow> fault + Pool" where
  "Pool_RemoveRequests numCPU requestIDs rp =
     (if closed rp then Inr rp
      else if \<not> batchingEnabled rp then
        (case pending rp of
           None \<Rightarrow> Inl NilDereference
         | Some ps \<Rightarrow>
             let (ps', ds) = PendingStore_RemoveRequests numCPU requestIDs ps
             in on_deletes ds (rp\<lparr>pending := Some ps'\<rparr>))
      else
        (case batchStore rp of
           None \<Rightarrow> Inl NilDereference
         | Some bs \<Rightarrow>
             let (bs', ds) = RemoveRequests numCPU requestIDs bs in on_deletes ds (rp\<lparr>batchStore := Some bs'\<rparr>)))"

definition Pool_Contains :: "Pool \<Rightarrow> string \<Rightarrow> fault + bool" where
  "Pool_Contains rp reqID =
     (if closed rp \<or> stopped rp then Inr False
      else if batchingEnabled rp then Inr False
      else (case pending rp of None \<Rightarrow> Inl NilDereference | Some ps \<Rightarrow> Inr (PendingStore_Contains ps reqID)))"

definition RequestCount :: "Pool \<Rightarrow> int" where
  "RequestCount rp = pool_size rp"

definition Pool_Prune :: "(bytes \<Rightarrow> error option) \<Rightarrow> Pool \<Rightarrow> fault + Pool" where
  "Pool_Prune predicate rp =
     (if closed rp then Inr rp
      else if batchingEnabled rp then
        (case batchStore rp of
           None \<Rightarrow> Inl NilDereference
         | Some bs \<Rightarrow> let (bs', ds) = Prune (\<lambda>_ req. predicate req) bs in on_deletes ds (rp\<lparr>batchStore := Some bs'\<rparr>))
      else
        (case pending rp of
           None \<Rightarrow> Inl NilDereference
         | Some ps \<Rightarrow> let (ps', ds) = PendingStore_Prune predicate ps in on_deletes ds (rp\<lparr>pending := Some ps'\<rparr>)))"

section \<open>Halting and changing roles\<close>

text \<open>\<^verbatim>\<open>Close\<close> closes the pending store before it drops it.\<close>

definition Pool_Close :: "Pool \<Rightarrow> Pool" where
  "Pool_Close rp = rp\<lparr>closed := True, pending := None, batchStore := None, pool_size := 0\<rparr>"

definition halt :: "Pool \<Rightarrow> fault + Pool" where
  "halt rp =
     (let rp1 = rp\<lparr>stopped := True\<rparr> in
      if \<not> batchingEnabled rp1 then
        (case pending rp1 of
           None \<Rightarrow> Inl NilDereference
         | Some ps \<Rightarrow> Inr (rp1\<lparr>pending := Some (PendingStore_Stop ps)\<rparr>))
      else Inr rp1)"

fun submit_moved_pending :: "(bytes \<Rightarrow> string) \<Rightarrow> bytes list \<Rightarrow> Pool \<Rightarrow> (fault + Pool) option" where
  "submit_moved_pending requestID [] rp = Some (Inr rp)"
| "submit_moved_pending requestID (req # reqs) rp =
     (case submitToPendingStore requestID (requestID req) req rp of
        None \<Rightarrow> None
      | Some (Inl f) \<Rightarrow> Some (Inl f)
      | Some (Inr (rp', err)) \<Rightarrow> submit_moved_pending requestID reqs rp')"

definition moveToPendingStore :: "(bytes \<Rightarrow> string) \<Rightarrow> int \<Rightarrow> Pool \<Rightarrow> (fault + Pool) option" where
  "moveToPendingStore requestID now rp =
     (case batchStore rp of
        None \<Rightarrow> Some (Inl NilDereference)
      | Some bs \<Rightarrow>
          let requests = map snd (ForEach bs);
              dropped = pool_size rp - int (length requests);
              rp1 = rp\<lparr>pool_size := 0\<rparr>
          in (case (if dropped > 0 then Release dropped (semaphore rp1) else Inr (semaphore rp1)) of
                Inl f \<Rightarrow> Some (Inl f)
              | Inr sem \<Rightarrow>
                  (case submit_moved_pending requestID requests
                          (rp1\<lparr>semaphore := sem, pending := Some (PendingStore_Init now)\<rparr>) of
                     Some (Inr rp2) \<Rightarrow> Some (Inr (rp2\<lparr>batchStore := None\<rparr>))
                   | r \<Rightarrow> r)))"

text \<open>The second result tells whether every request was moved.\<close>

fun submit_moved_batch :: "(bytes \<Rightarrow> string) \<Rightarrow> bytes list \<Rightarrow> Pool \<Rightarrow> (fault + Pool \<times> bool) option" where
  "submit_moved_batch requestID [] rp = Some (Inr (rp, True))"
| "submit_moved_batch requestID (req # reqs) rp =
     (case submitToBatchStore (requestID req) req rp of
        None \<Rightarrow> None
      | Some (Inl f) \<Rightarrow> Some (Inl f)
      | Some (Inr (rp', Some err)) \<Rightarrow> Some (Inr (rp', False))
      | Some (Inr (rp', None)) \<Rightarrow> submit_moved_batch requestID reqs rp')"

definition moveToBatchStore :: "(bytes \<Rightarrow> string) \<Rightarrow> Pool \<Rightarrow> (fault + Pool) option" where
  "moveToBatchStore requestID rp =
     (case pending rp of
        None \<Rightarrow> Some (Inl NilDereference)
      | Some ps \<Rightarrow>
          let (ps', requests) = GetAllRequests (PendingStore_Close ps);
              rp1 = rp\<lparr>pending := Some ps', batchStore := Some (createBatchStore (options rp))\<rparr>
          in (case submit_moved_batch requestID requests rp1 of
                None \<Rightarrow> None
              | Some (Inl f) \<Rightarrow> Some (Inl f)
              | Some (Inr (rp2, False)) \<Rightarrow> Some (Inr rp2)
              | Some (Inr (rp2, True)) \<Rightarrow> Some (Inr (rp2\<lparr>pending := None, pool_size := int (length requests)\<rparr>))))"

definition Restart :: "(bytes \<Rightarrow> string) \<Rightarrow> int \<Rightarrow> bool \<Rightarrow> Pool \<Rightarrow> (fault + Pool) option" where
  "Restart requestID now batching rp =
     (if closed rp then Some (Inr (rp\<lparr>stopped := False\<rparr>))
      else
        (case halt rp of
           Inl f \<Rightarrow> Some (Inl f)
         | Inr rp1 \<Rightarrow>
             let batchingWasEnabled = batchingEnabled rp1 in
             if batchingWasEnabled \<and> batching then Some (Inr (rp1\<lparr>stopped := False\<rparr>))
             else if \<not> batchingWasEnabled \<and> \<not> batching then
               (case pending rp1 of
                  None \<Rightarrow> Some (Inl NilDereference)
                | Some ps \<Rightarrow> Some (Inr (rp1\<lparr>pending := Some (ResetTimestamps ps), stopped := False\<rparr>)))
             else
               (let rp2 = rp1\<lparr>batchingEnabled := batching\<rparr> in
                case (if batchingWasEnabled then moveToPendingStore requestID now rp2 else moveToBatchStore requestID rp2) of
                  None \<Rightarrow> None
                | Some (Inl f) \<Rightarrow> Some (Inl f)
                | Some (Inr rp3) \<Rightarrow> Some (Inr (rp3\<lparr>stopped := False\<rparr>)))))"

text \<open>A tick of the clock reaches the pending store, if there is one, which runs on its own.\<close>

definition pool_tick :: "int \<Rightarrow> Pool \<Rightarrow> Pool" where
  "pool_tick now rp =
     (case pending rp of
        None \<Rightarrow> rp
      | Some ps \<Rightarrow> rp\<lparr>pending := Some (fst (run_tick (createPendingStore (options rp)) now ps))\<rparr>)"

section \<open>Histories of a pool\<close>

datatype pool_op =
    DoSubmit bytes
  | DoNext bool
  | DoRemove "string list"
  | DoPrune "bytes \<Rightarrow> error option"
  | DoHalt
  | DoRestart int bool
  | DoTick int
  | DoClose

text \<open>
  The batcher calls \<^verbatim>\<open>NextRequests\<close> with a context that has a deadline (\<^verbatim>\<open>BatchTimeout\<close>). A call that waits, and
  that no other call wakes, goes on when the deadline passes.
\<close>

fun pool_exec :: "(bytes \<Rightarrow> string) \<Rightarrow> nat \<Rightarrow> pool_op \<Rightarrow> Pool \<Rightarrow> (fault + Pool) option" where
  "pool_exec requestID numCPU (DoSubmit request) rp = map_option (map_sum id fst) (Pool_Submit requestID request rp)"
| "pool_exec requestID numCPU (DoNext ctxDone) rp =
     map_option (map_sum id fst)
       (case NextRequests ctxDone rp of None \<Rightarrow> NextRequests True rp | Some r \<Rightarrow> Some r)"
| "pool_exec requestID numCPU (DoRemove ids) rp = Some (Pool_RemoveRequests numCPU ids rp)"
| "pool_exec requestID numCPU (DoPrune predicate) rp = Some (Pool_Prune predicate rp)"
| "pool_exec requestID numCPU DoHalt rp = Some (halt rp)"
| "pool_exec requestID numCPU (DoRestart now batching) rp = Restart requestID now batching rp"
| "pool_exec requestID numCPU (DoTick now) rp = Some (Inr (pool_tick now rp))"
| "pool_exec requestID numCPU DoClose rp = Some (Inr (Pool_Close rp))"

fun pool_run :: "(bytes \<Rightarrow> string) \<Rightarrow> nat \<Rightarrow> pool_op list \<Rightarrow> Pool \<Rightarrow> (fault + Pool) option" where
  "pool_run requestID numCPU [] rp = Some (Inr rp)"
| "pool_run requestID numCPU (op # ops) rp =
     (case pool_exec requestID numCPU op rp of
        None \<Rightarrow> None
      | Some (Inl f) \<Rightarrow> Some (Inl f)
      | Some (Inr rp') \<Rightarrow> pool_run requestID numCPU ops rp')"

text \<open>
  The batcher never halts a pool that it has closed (\<^verbatim>\<open>SoftStop\<close> of \<^verbatim>\<open>src/node/batcher/batcher_role.go\<close>
  returns at once after \<^verbatim>\<open>Stop\<close>).
\<close>

fun halts_open :: "pool_op list \<Rightarrow> bool" where
  "halts_open [] \<longleftrightarrow> True"
| "halts_open (op # ops) \<longleftrightarrow> (op = DoClose \<longrightarrow> DoHalt \<notin> set ops) \<and> halts_open ops"

fun ticks :: "pool_op list \<Rightarrow> nat" where
  "ticks [] = 0"
| "ticks (DoTick now # ops) = Suc (ticks ops)"
| "ticks (op # ops) = ticks ops"

section \<open>The accounts of a pool\<close>

text \<open>
  Options under which every accepted request fits a batch, and the counters of buckets do not wrap. The
  requests of a store are under their own ids and within the limit of the pool.
\<close>

definition options_ok :: "PoolOptions \<Rightarrow> bool" where
  "options_ok opts \<longleftrightarrow>
     BatchMaxSize opts \<noteq> 0 \<and> RequestMaxBytes opts \<le> ucast (BatchMaxSizeBytes opts) \<and> MaxSize opts < 2 ^ 32"

definition owns :: "(bytes \<Rightarrow> string) \<Rightarrow> PoolOptions \<Rightarrow> string \<Rightarrow> bytes \<Rightarrow> bool" where
  "owns rid opts k v \<longleftrightarrow> k = rid v \<and> (of_nat (length v) :: u64) \<le> RequestMaxBytes opts"

definition pool_held :: "Pool \<Rightarrow> string set" where
  "pool_held rp =
     (if batchingEnabled rp then (case batchStore rp of None \<Rightarrow> {} | Some bs \<Rightarrow> bs_held bs)
      else (case pending rp of None \<Rightarrow> {} | Some ps \<Rightarrow> ps_held ps))"

definition primary_inv :: "(bytes \<Rightarrow> string) \<Rightarrow> PoolOptions \<Rightarrow> BatchStore \<Rightarrow> bool" where
  "primary_inv rid opts bs \<longleftrightarrow> bs_inv (owns rid opts) bs \<and> limits bs = (BatchMaxSize opts, BatchMaxSizeBytes opts)"

definition secondary_inv :: "(bytes \<Rightarrow> string) \<Rightarrow> PoolOptions \<Rightarrow> nat \<Rightarrow> PendingStore \<Rightarrow> bool" where
  "secondary_inv rid opts n ps \<longleftrightarrow> ps_inv (owns rid opts) ps \<and> \<not> psClosed ps \<and> length (psHeap ps) \<le> Suc n"

definition store_inv :: "(bytes \<Rightarrow> string) \<Rightarrow> nat \<Rightarrow> Pool \<Rightarrow> bool" where
  "store_inv rid n rp \<longleftrightarrow>
     (if batchingEnabled rp then \<exists>bs. batchStore rp = Some bs \<and> primary_inv rid (options rp) bs
      else \<exists>ps. pending rp = Some ps \<and> secondary_inv rid (options rp) n ps)"

text \<open>The permits that are taken, the size of the pool and the requests that it holds agree.\<close>

definition accounts :: "Pool \<Rightarrow> bool" where
  "accounts rp \<longleftrightarrow>
     semCur (semaphore rp) = int (card (pool_held rp)) \<and> pool_size rp = int (card (pool_held rp)) \<and>
     semCur (semaphore rp) \<le> semSize (semaphore rp)"

definition pool_inv :: "(bytes \<Rightarrow> string) \<Rightarrow> PoolOptions \<Rightarrow> nat \<Rightarrow> Pool \<Rightarrow> bool" where
  "pool_inv rid opts n rp \<longleftrightarrow>
     options rp = opts \<and> semSize (semaphore rp) = uint (MaxSize opts) \<and>
     (if closed rp then pool_size rp = 0 else store_inv rid n rp \<and> accounts rp)"

interpretation primary: request_store "primary_inv rid opts" bs_held for rid opts
  by unfold_locales (simp add: bs_held_def)

interpretation primary_remove: releasing "primary_inv rid opts" bs_held Remove for rid opts
  by unfold_locales (auto simp: primary_inv_def limits_Remove bs_remove.release_inv bs_remove.release_held
      dest: bs_remove.release_keys [THEN subsetD] intro: bs_remove.release_once)

interpretation secondary: request_store "secondary_inv rid opts n" ps_held for rid opts n
  by unfold_locales (rule ps_held_finite)

interpretation secondary_remove: releasing "secondary_inv rid opts n" ps_held "\<lambda>k. removeRequest k t" for rid opts n t
  by unfold_locales (auto simp: secondary_inv_def removeRequest_closed removeRequest_length ps_remove.release_inv
      ps_remove.release_held dest: ps_remove.release_keys [THEN subsetD] intro: ps_remove.release_once)

interpretation secondary_prune: releasing "secondary_inv rid opts n" ps_held "prune_request P" for rid opts n P
  by unfold_locales (auto simp: secondary_inv_def prune_request_frame ps_pruning.release_inv
      ps_pruning.release_held dest: ps_pruning.release_keys [THEN subsetD] intro: ps_pruning.release_once)

lemma on_deletes_spec:
  "int (length ds) \<le> semCur (semaphore rp) \<Longrightarrow>
     on_deletes ds rp = Inr (rp\<lparr>semaphore := (semaphore rp)\<lparr>semCur := semCur (semaphore rp) - int (length ds)\<rparr>,
       pool_size := pool_size rp - int (length ds)\<rparr>)"
  by (induction ds arbitrary: rp) (simp_all add: onDelete_def Release_def)

lemma owned_fits:
  assumes "options_ok opts" "owns rid opts k v" "limits bs = (BatchMaxSize opts, BatchMaxSizeBytes opts)"
  shows "fits bs (of_nat (length v))"
proof -
  let ?w = "of_nat (length v) :: u64"
  have "unat ?w \<le> unat (ucast (BatchMaxSizeBytes opts) :: u64)"
    using assms(1,2) unfolding options_ok_def owns_def by (metis order_trans word_le_nat_alt)
  then have "unat ?w \<le> unat (BatchMaxSizeBytes opts)"
    by (simp add: unsigned_ucast_eq) (metis le_trans take_bit_nat_less_eq_self)
  moreover have "(of_nat (length v) :: u32) = ucast ?w"
    by transfer simp
  ultimately have "(of_nat (length v) :: u32) \<le> BatchMaxSizeBytes opts"
    unfolding word_le_nat_alt by (simp only: unat_low bytes_of_def) (metis le_trans mod_less_eq_dividend)
  then show ?thesis
    using assms(1,3) by (simp add: fits_def limits_def options_ok_def)
qed

text \<open>
  A submission either adds the id of the request or gives the permit back; in both cases there is one
  permit less that no request accounts for.
\<close>

lemma submitToPendingStore_spec:
  assumes "pending rp = Some ps" "secondary_inv rid (options rp) n ps" "owns rid (options rp) (rid v) v"
    and "Suc (card (ps_held ps)) < 2 ^ 32" "semCur (semaphore rp) \<ge> 1"
  obtains ps' sem c err where
    "submitToPendingStore rid (rid v) v rp = Some (Inr (rp\<lparr>pending := Some ps', semaphore := sem, pool_size := c\<rparr>, err))"
    "secondary_inv rid (options rp) n ps'" "semSize sem = semSize (semaphore rp)" "semCur sem \<le> semCur (semaphore rp)"
    "semCur sem - int (card (ps_held ps')) = semCur (semaphore rp) - int (card (ps_held ps)) - 1"
    "c - int (card (ps_held ps')) = pool_size rp - int (card (ps_held ps))"
proof -
  have ps: "ps_inv (owns rid (options rp)) ps" "\<not> psClosed ps" "length (psHeap ps) \<le> Suc n"
    using assms(2) by (simp_all add: secondary_inv_def)
  show thesis
  proof (rule submit_spec [where rid = rid and v = v, OF ps(1,2) assms(4,3)], goal_cases)
    case (1 ps')
    then show thesis
      using ps assms(1) card_insert_disjoint [OF ps_held_finite, of "rid v" ps]
      by (intro that [where ps' = ps' and sem = "semaphore rp" and c = "pool_size rp + 1" and err = None]) (simp_all add: submitToPendingStore_def secondary_inv_def)
  next
    case 2
    then show thesis
      using ps assms(1,5)
      by (intro that [where ps' = ps and sem = "(semaphore rp)\<lparr>semCur := semCur (semaphore rp) - 1\<rparr>" and c = "pool_size rp" and err = "Some (already_inserted (rid v))"])
        (simp_all add: submitToPendingStore_def secondary_inv_def Release_def)
  qed
qed

lemma submitToBatchStore_spec:
  assumes "options_ok (options rp)" "batchStore rp = Some bs" "primary_inv rid (options rp) bs" "owns rid (options rp) (rid v) v"
    and "semCur (semaphore rp) \<ge> 1"
  obtains bs' sem c err where
    "submitToBatchStore (rid v) v rp = Some (Inr (rp\<lparr>batchStore := Some bs', semaphore := sem, pool_size := c\<rparr>, err))"
    "primary_inv rid (options rp) bs'" "semSize sem = semSize (semaphore rp)" "semCur sem \<le> semCur (semaphore rp)"
    "semCur sem - int (card (bs_held bs')) = semCur (semaphore rp) - int (card (bs_held bs)) - 1"
    "c - int (card (bs_held bs')) = pool_size rp - int (card (bs_held bs))"
    "bs_held bs' = insert (rid v) (bs_held bs)" "err = None \<longleftrightarrow> rid v \<notin> bs_held bs"
proof -
  have bs: "bs_inv (owns rid (options rp)) bs" "limits bs = (BatchMaxSize (options rp), BatchMaxSizeBytes (options rp))"
    using assms(3) by (simp_all add: primary_inv_def)
  obtain bs' where bs': "Insert bs (rid v) v (of_nat (length v)) = Some (bs', rid v \<notin> bs_held bs)"
      "primary_inv rid (options rp) bs'" "bs_held bs' = insert (rid v) (bs_held bs)"
    by (rule bs_inv_Insert [OF bs(1) owned_fits [OF assms(1,4) bs(2)] assms(4)])
      (use bs(2) in \<open>simp add: primary_inv_def limits_def\<close>)
  have fin: "finite (bs_held bs)"
    by (simp add: bs_held_def)
  show thesis
  proof (cases "rid v \<in> bs_held bs")
    case True
    then show thesis
      using bs' assms(2,5) by (intro that [where bs' = bs' and sem = "(semaphore rp)\<lparr>semCur := semCur (semaphore rp) - 1\<rparr>" and c = "pool_size rp" and err = "Some (already_inserted (rid v))"])
        (simp_all add: submitToBatchStore_def Release_def insert_absorb)
  next
    case False
    then show thesis
      using bs' assms(2) fin by (intro that [where bs' = bs' and sem = "semaphore rp" and c = "pool_size rp + 1" and err = None])
        (simp_all add: submitToBatchStore_def)
  qed
qed

section \<open>Every operation keeps the accounts\<close>

lemma pool_inv_open:
  "pool_inv rid opts n rp \<Longrightarrow> \<not> closed rp \<Longrightarrow> options rp = opts \<and> store_inv rid n rp \<and> accounts rp"
  by (simp add: pool_inv_def)

lemma submitted:
  assumes "options_ok opts" "pool_inv rid opts n rp"
  shows "\<exists>rp' err. Pool_Submit rid v rp = Some (Inr (rp', err)) \<and> pool_inv rid opts n rp'"
proof (cases "closed rp \<or> stopped rp \<or> (of_nat (length v) :: u64) > RequestMaxBytes opts \<or>
    SubmitTimeout opts \<le> 0 \<or> semSize (semaphore rp) - semCur (semaphore rp) < 1")
  case True
  then show ?thesis
    using assms(2) by (auto simp: Pool_Submit_def Acquire_def pool_inv_def Let_def)
next
  case notF: False
  let ?sem = "(semaphore rp)\<lparr>semCur := semCur (semaphore rp) + 1\<rparr>"
  let ?rp = "rp\<lparr>semaphore := ?sem\<rparr>"
  have o: "options rp = opts" "store_inv rid n rp" "accounts rp" "semSize (semaphore rp) = uint (MaxSize opts)"
    using assms(2) notF by (auto simp: pool_inv_def)
  have own: "owns rid (options rp) (rid v) v"
    using notF by (simp add: owns_def o(1) not_less)
  have sub: "Pool_Submit rid v rp =
      (if \<not> batchingEnabled rp then submitToPendingStore rid (rid v) v ?rp else submitToBatchStore (rid v) v ?rp)"
    using notF by (simp add: Pool_Submit_def Acquire_def Let_def o(1))
  have room: "semCur (semaphore rp) + 1 \<le> uint (MaxSize opts)" "uint (MaxSize opts) < 2 ^ 32"
    using notF o(4) assms(1) by (auto simp: options_ok_def word_less_def)
  show ?thesis
  proof (cases "batchingEnabled rp")
    case True
    then obtain bs where bs: "batchStore rp = Some bs" "primary_inv rid (options rp) bs"
      using o(2) by (auto simp: store_inv_def)
    have cur: "semCur (semaphore rp) = int (card (bs_held bs))" "pool_size rp = int (card (bs_held bs))"
      using o(3) True bs by (simp_all add: accounts_def pool_held_def)
    have p: "options_ok (options ?rp)" "batchStore ?rp = Some bs" "primary_inv rid (options ?rp) bs"
        "owns rid (options ?rp) (rid v) v" "semCur (semaphore ?rp) \<ge> 1"
      using assms(1) o(1) bs own cur by simp_all
    obtain bs' sem c err where s:
        "submitToBatchStore (rid v) v ?rp = Some (Inr (?rp\<lparr>batchStore := Some bs', semaphore := sem, pool_size := c\<rparr>, err))"
        "primary_inv rid (options ?rp) bs'" "semSize sem = semSize (semaphore ?rp)" "semCur sem \<le> semCur (semaphore ?rp)"
        "semCur sem - int (card (bs_held bs')) = semCur (semaphore ?rp) - int (card (bs_held bs)) - 1"
        "c - int (card (bs_held bs')) = pool_size ?rp - int (card (bs_held bs))"
      by (rule submitToBatchStore_spec [OF p])
    then show ?thesis
      using True sub o(1,4) cur room notF by (simp add: pool_inv_def store_inv_def accounts_def pool_held_def)
  next
    case False
    then obtain ps where ps: "pending rp = Some ps" "secondary_inv rid (options rp) n ps"
      using o(2) by (auto simp: store_inv_def)
    have cur: "semCur (semaphore rp) = int (card (ps_held ps))" "pool_size rp = int (card (ps_held ps))"
      using o(3) False ps by (simp_all add: accounts_def pool_held_def)
    have p: "pending ?rp = Some ps" "secondary_inv rid (options ?rp) n ps"
        "owns rid (options ?rp) (rid v) v" "Suc (card (ps_held ps)) < 2 ^ 32" "semCur (semaphore ?rp) \<ge> 1"
      using o(1) ps own cur room by simp_all
    obtain ps' sem c err where s:
        "submitToPendingStore rid (rid v) v ?rp = Some (Inr (?rp\<lparr>pending := Some ps', semaphore := sem, pool_size := c\<rparr>, err))"
        "secondary_inv rid (options ?rp) n ps'" "semSize sem = semSize (semaphore ?rp)" "semCur sem \<le> semCur (semaphore ?rp)"
        "semCur sem - int (card (ps_held ps')) = semCur (semaphore ?rp) - int (card (ps_held ps)) - 1"
        "c - int (card (ps_held ps')) = pool_size ?rp - int (card (ps_held ps))"
      by (rule submitToPendingStore_spec [OF p])
    then show ?thesis
      using False sub o(1,4) cur room notF by (simp add: pool_inv_def store_inv_def accounts_def pool_held_def)
  qed
qed

lemma fetched:
  assumes "pool_inv rid opts n rp"
  shows "NextRequests ctxDone rp = None \<or>
    (\<exists>rp' requests ids. NextRequests ctxDone rp = Some (Inr (rp', requests, ids)) \<and> pool_inv rid opts n rp')"
proof (cases "closed rp \<or> stopped rp \<or> \<not> batchingEnabled rp")
  case True
  then show ?thesis
    using assms by (auto simp: NextRequests_def)
next
  case False
  then obtain bs where bs: "batchStore rp = Some bs" "primary_inv rid opts bs"
    using pool_inv_open [OF assms] by (auto simp: store_inv_def)
  show ?thesis
  proof (cases "Fetch ctxDone bs")
    case (Some r)
    then obtain bs' requests ids where r: "Fetch ctxDone bs = Some (bs', requests, ids)"
      by (cases r) auto
    have "primary_inv rid opts bs'" "bs_held bs' = bs_held bs"
      using bs_inv_Fetch [OF _ r] limits_Fetch [OF r] bs(2) by (auto simp: primary_inv_def bs_held_def)
    then show ?thesis
      using False bs r assms by (simp add: NextRequests_def pool_inv_def store_inv_def accounts_def pool_held_def)
  qed (use False bs in \<open>simp add: NextRequests_def\<close>)
qed

lemma deadline_returns: "NextRequests True rp \<noteq> None"
  by (auto simp: NextRequests_def Fetch_def Let_def split: option.split prod.split)

text \<open>Both stores tell the pool exactly which requests they gave up, so it gives back as many permits.\<close>

lemma deleted:
  assumes "pool_inv rid opts n rp" "\<not> closed rp" "store_inv rid n rp'" "options rp' = opts" "\<not> closed rp'"
    and "semaphore rp' = semaphore rp" "pool_size rp' = pool_size rp" "card (pool_held rp') + length ds = card (pool_held rp)"
  shows "\<exists>rp''. on_deletes ds rp' = Inr rp'' \<and> pool_inv rid opts n rp''"
proof -
  have a: "semCur (semaphore rp) = int (card (pool_held rp))" "pool_size rp = int (card (pool_held rp))"
      "semCur (semaphore rp) \<le> semSize (semaphore rp)" "semSize (semaphore rp) = uint (MaxSize opts)"
    using assms(1,2) by (simp_all add: pool_inv_def accounts_def)
  have h: "pool_held (rp'\<lparr>semaphore := sem, pool_size := c\<rparr>) = pool_held rp'"
      "store_inv rid n (rp'\<lparr>semaphore := sem, pool_size := c\<rparr>) = store_inv rid n rp'" for sem c
    by (simp_all add: pool_held_def store_inv_def)
  have "int (length ds) \<le> semCur (semaphore rp')"
    using a(1) assms(6,8) by simp
  then show ?thesis
    using on_deletes_spec [of ds rp'] a assms(3-8) by (simp add: pool_inv_def h accounts_def)
qed

lemma removed:
  assumes "pool_inv rid opts n rp" "numCPU \<noteq> 0"
  shows "\<exists>rp'. Pool_RemoveRequests numCPU ids rp = Inr rp' \<and> pool_inv rid opts n rp'"
proof (cases "closed rp")
  case False
  note o = pool_inv_open [OF assms(1) False]
  show ?thesis
  proof (cases "batchingEnabled rp")
    case True
    then obtain bs where bs: "batchStore rp = Some bs" "primary_inv rid opts bs"
      using o by (auto simp: store_inv_def)
    let ?r = "remove_each Remove ids bs"
    have "\<exists>rp''. on_deletes (snd ?r) (rp\<lparr>batchStore := Some (fst ?r)\<rparr>) = Inr rp'' \<and> pool_inv rid opts n rp''"
      using primary_remove.release_each [OF bs(2), of ids] primary_remove.release_each_card [OF bs(2), of ids] True False bs o
      by (intro deleted [OF assms(1) False]) (simp_all add: store_inv_def pool_held_def)
    then show ?thesis
      using False True bs by (simp add: Pool_RemoveRequests_def RemoveRequests_keys [OF assms(2)] case_prod_unfold Let_def)
  next
    case sec: False
    then obtain ps where ps: "pending rp = Some ps" "secondary_inv rid opts n ps"
      using o by (auto simp: store_inv_def)
    let ?r = "remove_each (\<lambda>k. removeRequest k (lastTick ps)) ids ps"
    have "\<exists>rp''. on_deletes (snd ?r) (rp\<lparr>pending := Some (fst ?r)\<rparr>) = Inr rp'' \<and> pool_inv rid opts n rp''"
      using secondary_remove.release_each [OF ps(2), of "lastTick ps" ids] secondary_remove.release_each_card [OF ps(2), of "lastTick ps" ids]
        sec False ps o
      by (intro deleted [OF assms(1) False]) (simp_all add: store_inv_def pool_held_def)
    moreover have "PendingStore_RemoveRequests numCPU ids ps = ?r"
      using ps(2) by (intro removeRequests_each assms(2)) (simp add: secondary_inv_def)
    ultimately show ?thesis
      using False sec ps by (simp add: Pool_RemoveRequests_def case_prod_unfold Let_def)
  qed
qed (use assms(1) in \<open>simp add: Pool_RemoveRequests_def\<close>)

lemma prune_primary:
  assumes "primary_inv rid opts bs"
  shows "primary_inv rid opts (fst (Prune f bs)) \<and> card (bs_held (fst (Prune f bs))) + length (snd (Prune f bs)) = card (bs_held bs)"
proof -
  have bs: "bs_inv (owns rid opts) bs" "limits bs = (BatchMaxSize opts, BatchMaxSizeBytes opts)"
    using assms by (simp_all add: primary_inv_def)
  show ?thesis
    using prune_batches_release [OF bs(1), of f "readyBatches bs @ [currentBatch bs]"] bs(2)
    unfolding Prune_def primary_inv_def limits_prune_batches by blast
qed

lemma pruned:
  assumes "pool_inv rid opts n rp"
  shows "\<exists>rp'. Pool_Prune P rp = Inr rp' \<and> pool_inv rid opts n rp'"
proof (cases "closed rp")
  case False
  note o = pool_inv_open [OF assms(1) False]
  show ?thesis
  proof (cases "batchingEnabled rp")
    case True
    then obtain bs where bs: "batchStore rp = Some bs" "primary_inv rid opts bs"
      using o by (auto simp: store_inv_def)
    let ?r = "Prune (\<lambda>_. P) bs"
    have "\<exists>rp''. on_deletes (snd ?r) (rp\<lparr>batchStore := Some (fst ?r)\<rparr>) = Inr rp'' \<and> pool_inv rid opts n rp''"
      using prune_primary [OF bs(2), of "\<lambda>_. P"] True False bs(1) o
      by (intro deleted [OF assms(1) False]) (simp_all add: store_inv_def pool_held_def)
    then show ?thesis
      using False True bs by (simp add: Pool_Prune_def case_prod_unfold Let_def)
  next
    case sec: False
    then obtain ps where ps: "pending rp = Some ps" "secondary_inv rid opts n ps"
      using o by (auto simp: store_inv_def)
    let ?ks = "map fst (reqID2Bucket ps)"
    let ?r = "remove_each (prune_request P) ?ks ps"
    have "\<exists>rp''. on_deletes (snd ?r) (rp\<lparr>pending := Some (fst ?r)\<rparr>) = Inr rp'' \<and> pool_inv rid opts n rp''"
      using secondary_prune.release_each [OF ps(2), of P ?ks] secondary_prune.release_each_card [OF ps(2), of P ?ks]
        sec False ps o
      by (intro deleted [OF assms(1) False]) (simp_all add: store_inv_def pool_held_def)
    then show ?thesis
      using False sec ps by (simp add: Pool_Prune_def PendingStore_Prune_def prune_requests_each case_prod_unfold Let_def)
  qed
qed (use assms(1) in \<open>simp add: Pool_Prune_def\<close>)

lemma moved_pending:
  assumes "pending rp = Some ps" "secondary_inv rid (options rp) n ps" "\<forall>v \<in> set reqs. owns rid (options rp) (rid v) v"
    and "semCur (semaphore rp) = int (card (ps_held ps)) + int (length reqs)" "pool_size rp = int (card (ps_held ps))"
    and "semCur (semaphore rp) \<le> semSize (semaphore rp)" "semSize (semaphore rp) < 2 ^ 32"
  shows "\<exists>ps' sem. submit_moved_pending rid reqs rp =
      Some (Inr (rp\<lparr>pending := Some ps', semaphore := sem, pool_size := int (card (ps_held ps'))\<rparr>)) \<and>
    secondary_inv rid (options rp) n ps' \<and> semCur sem = int (card (ps_held ps')) \<and>
    semSize sem = semSize (semaphore rp) \<and> semCur sem \<le> semSize sem"
  using assms
proof (induction reqs arbitrary: rp ps)
  case Nil
  then show ?case
    by (intro exI [of _ ps] exI [of _ "semaphore rp"]) simp
next
  case (Cons v reqs)
  have p: "pending rp = Some ps" "secondary_inv rid (options rp) n ps" "owns rid (options rp) (rid v) v"
      "Suc (card (ps_held ps)) < 2 ^ 32" "semCur (semaphore rp) \<ge> 1"
    using Cons.prems by simp_all
  obtain ps' sem c err where s:
      "submitToPendingStore rid (rid v) v rp = Some (Inr (rp\<lparr>pending := Some ps', semaphore := sem, pool_size := c\<rparr>, err))"
      "secondary_inv rid (options rp) n ps'" "semSize sem = semSize (semaphore rp)" "semCur sem \<le> semCur (semaphore rp)"
      "semCur sem - int (card (ps_held ps')) = semCur (semaphore rp) - int (card (ps_held ps)) - 1"
      "c - int (card (ps_held ps')) = pool_size rp - int (card (ps_held ps))"
    by (rule submitToPendingStore_spec [OF p])
  show ?case
    using Cons.IH [of "rp\<lparr>pending := Some ps', semaphore := sem, pool_size := c\<rparr>" ps'] Cons.prems s by simp
qed

lemma moved_batch:
  assumes "options_ok (options rp)" "batchStore rp = Some bs" "primary_inv rid (options rp) bs" "\<forall>v \<in> set reqs. owns rid (options rp) (rid v) v"
    and "distinct (map rid reqs)" "rid ` set reqs \<inter> bs_held bs = {}"
    and "semCur (semaphore rp) = int (card (bs_held bs)) + int (length reqs)"
  shows "\<exists>bs' c. submit_moved_batch rid reqs rp = Some (Inr (rp\<lparr>batchStore := Some bs', pool_size := c\<rparr>, True)) \<and>
    primary_inv rid (options rp) bs' \<and> card (bs_held bs') = card (bs_held bs) + length reqs"
  using assms
proof (induction reqs arbitrary: rp bs)
  case Nil
  then show ?case
    by (intro exI [of _ bs] exI [of _ "pool_size rp"]) simp
next
  case (Cons v reqs)
  have p: "options_ok (options rp)" "batchStore rp = Some bs" "primary_inv rid (options rp) bs" "owns rid (options rp) (rid v) v"
      "semCur (semaphore rp) \<ge> 1"
    using Cons.prems by simp_all
  have v: "rid v \<notin> bs_held bs"
    using Cons.prems(6) by simp
  obtain bs' sem c where s:
      "submitToBatchStore (rid v) v rp = Some (Inr (rp\<lparr>batchStore := Some bs', semaphore := sem, pool_size := c\<rparr>, None))"
      "primary_inv rid (options rp) bs'"
      "semCur sem - int (card (bs_held bs')) = semCur (semaphore rp) - int (card (bs_held bs)) - 1"
      "bs_held bs' = insert (rid v) (bs_held bs)" "semSize sem = semSize (semaphore rp)"
    using submitToBatchStore_spec [OF p] v by metis
  have card: "card (bs_held bs') = Suc (card (bs_held bs))"
    using v s(4) by (simp add: bs_held_def)
  then have "semCur sem = semCur (semaphore rp)"
    using s(3) by simp
  then have "sem = semaphore rp"
    using s(5) by (cases sem, cases "semaphore rp") simp
  then show ?case
    using Cons.IH [of "rp\<lparr>batchStore := Some bs', pool_size := c\<rparr>" bs'] Cons.prems s card by auto
qed

lemma pool_primary:
  assumes "\<not> closed rp" "batchingEnabled rp" "batchStore rp = Some bs"
  shows "pool_inv rid opts n rp \<longleftrightarrow>
    options rp = opts \<and> semSize (semaphore rp) = uint (MaxSize opts) \<and> primary_inv rid opts bs \<and>
    semCur (semaphore rp) = int (card (bs_held bs)) \<and> pool_size rp = int (card (bs_held bs)) \<and>
    semCur (semaphore rp) \<le> semSize (semaphore rp)"
  using assms by (auto simp: pool_inv_def store_inv_def accounts_def pool_held_def)

lemma pool_secondary:
  assumes "\<not> closed rp" "\<not> batchingEnabled rp" "pending rp = Some ps"
  shows "pool_inv rid opts n rp \<longleftrightarrow>
    options rp = opts \<and> semSize (semaphore rp) = uint (MaxSize opts) \<and> secondary_inv rid opts n ps \<and>
    semCur (semaphore rp) = int (card (ps_held ps)) \<and> pool_size rp = int (card (ps_held ps)) \<and>
    semCur (semaphore rp) \<le> semSize (semaphore rp)"
  using assms by (auto simp: pool_inv_def store_inv_def accounts_def pool_held_def)

lemma pool_inv_closed:
  "closed rp \<Longrightarrow> pool_inv rid opts n rp \<longleftrightarrow> options rp = opts \<and> semSize (semaphore rp) = uint (MaxSize opts) \<and> pool_size rp = 0"
  by (simp add: pool_inv_def)

lemma pool_cases:
  assumes "pool_inv rid opts n rp"
  obtains "closed rp"
  | bs where "\<not> closed rp" "batchingEnabled rp" "batchStore rp = Some bs"
  | ps where "\<not> closed rp" "\<not> batchingEnabled rp" "pending rp = Some ps"
  using assms that unfolding pool_inv_def store_inv_def by metis

lemmas pool_simps = pool_primary pool_secondary pool_inv_closed

lemma to_pending:
  assumes "options_ok opts" "options rp = opts" "batchStore rp = Some bs" "primary_inv rid opts bs" "\<not> closed rp" "\<not> batchingEnabled rp"
    and "semCur (semaphore rp) = int (card (bs_held bs))" "pool_size rp = int (card (bs_held bs))"
    and "semCur (semaphore rp) \<le> semSize (semaphore rp)" "semSize (semaphore rp) = uint (MaxSize opts)"
  shows "\<exists>rp'. moveToPendingStore rid now rp = Some (Inr rp') \<and> pool_inv rid opts n (rp'\<lparr>stopped := False\<rparr>)"
proof -
  let ?reqs = "map snd (ForEach bs)"
  have inv: "bs_inv (owns rid opts) bs"
    using assms(4) by (simp add: primary_inv_def)
  have "card (fst ` set (ForEach bs)) = length (ForEach bs)"
    using distinct_card [OF ForEach_held(1) [OF inv]] by simp
  then have len: "length ?reqs \<le> card (bs_held bs)"
    using card_mono [OF _ ForEach_held(2) [OF inv]] by (simp add: bs_held_def)
  have own: "\<forall>v \<in> set ?reqs. owns rid opts (rid v) v"
    using ForEach_held(3) [OF inv] by (auto simp: owns_def)
  define sem where "sem = (semaphore rp)\<lparr>semCur := int (length ?reqs)\<rparr>"
  have sem: "(if int (length (ForEach bs)) < pool_size rp
      then Release (pool_size rp - int (length ?reqs)) (semaphore (rp\<lparr>pool_size := 0\<rparr>))
      else Inr (semaphore (rp\<lparr>pool_size := 0\<rparr>))) = Inr sem"
    using len assms(7,8) by (auto simp: sem_def Release_def)
  let ?rp = "rp\<lparr>pool_size := 0, semaphore := sem, pending := Some (PendingStore_Init now)\<rparr>"
  have new: "secondary_inv rid (options ?rp) n (PendingStore_Init now)" "ps_held (PendingStore_Init now) = {}"
    using ps_inv_Init by (simp_all add: secondary_inv_def) (simp_all add: PendingStore_Init_def)
  have "semSize (semaphore rp) < 2 ^ 32"
    using assms(1,10) by (simp add: options_ok_def word_less_def)
  then obtain ps' sem' where s: "submit_moved_pending rid ?reqs ?rp =
      Some (Inr (?rp\<lparr>pending := Some ps', semaphore := sem', pool_size := int (card (ps_held ps'))\<rparr>))"
      "secondary_inv rid opts n ps'" "semCur sem' = int (card (ps_held ps'))" "semSize sem' = semSize (semaphore rp)" "semCur sem' \<le> semSize sem'"
    using moved_pending [of ?rp "PendingStore_Init now" rid n ?reqs] new own len assms(2,7,9) by (auto simp: sem_def)
  have "moveToPendingStore rid now rp =
      Some (Inr (?rp\<lparr>pending := Some ps', semaphore := sem', pool_size := int (card (ps_held ps')), batchStore := None\<rparr>))"
    using s(1) assms(3) by (simp add: moveToPendingStore_def Let_def sem split del: if_split)
  then show ?thesis
    using assms(2,5,6,10) s by (simp add: pool_secondary)
qed

lemma to_batch:
  assumes "options_ok opts" "options rp = opts" "pending rp = Some ps" "secondary_inv rid opts n ps" "\<not> closed rp" "batchingEnabled rp"
    and "semCur (semaphore rp) = int (card (ps_held ps))"
    and "semCur (semaphore rp) \<le> semSize (semaphore rp)" "semSize (semaphore rp) = uint (MaxSize opts)"
  shows "\<exists>rp'. moveToBatchStore rid rp = Some (Inr rp') \<and> pool_inv rid opts n (rp'\<lparr>stopped := False\<rparr>)"
proof -
  obtain ps' reqs where g: "GetAllRequests (PendingStore_Close ps) = (ps', reqs)"
    by (cases "GetAllRequests (PendingStore_Close ps)")
  have inv: "ps_inv (owns rid opts) (PendingStore_Close ps)" "ps_held (PendingStore_Close ps) = ps_held ps"
    using assms(4) by (simp_all add: secondary_inv_def PendingStore_Close_def ps_inv_fields)
  have reqs: "distinct (map rid reqs)" "rid ` set reqs = ps_held ps" "\<forall>v \<in> set reqs. owns rid opts (rid v) v"
    using GetAllRequests_held [OF inv(1), of rid] g inv(2) by (auto simp: owns_def)
  then have len: "card (ps_held ps) = length reqs"
    using distinct_card [OF reqs(1)] by simp
  let ?rp = "rp\<lparr>pending := Some ps', batchStore := Some (createBatchStore opts)\<rparr>"
  have new: "primary_inv rid opts (createBatchStore opts)" "bs_held (createBatchStore opts) = {}"
    using bs_inv_new by (simp_all add: primary_inv_def createBatchStore_def) (simp add: limits_def NewBatchStore_def)
  obtain bs' c where s: "submit_moved_batch rid reqs ?rp = Some (Inr (?rp\<lparr>batchStore := Some bs', pool_size := c\<rparr>, True))"
      "primary_inv rid opts bs'" "card (bs_held bs') = length reqs"
    using moved_batch [of ?rp "createBatchStore opts" rid reqs] new reqs len assms(1,2,7) by auto
  have "moveToBatchStore rid rp =
      Some (Inr (?rp\<lparr>batchStore := Some bs', pending := None, pool_size := int (length reqs)\<rparr>))"
    using s(1) g assms(2,3) by (simp add: moveToBatchStore_def Let_def)
  then show ?thesis
    using assms(2,5-9) len s by (simp add: pool_primary)
qed

lemma halted:
  assumes "pool_inv rid opts n rp" "\<not> closed rp"
  shows "\<exists>rp'. halt rp = Inr rp' \<and> pool_inv rid opts n rp' \<and> \<not> closed rp' \<and> batchingEnabled rp' = batchingEnabled rp"
  using assms(1)
proof (cases rule: pool_cases)
  case (2 bs)
  then show ?thesis
    using assms(1) by (simp add: halt_def pool_primary)
next
  case (3 ps)
  moreover have "secondary_inv rid opts n (PendingStore_Stop ps)" "ps_held (PendingStore_Stop ps) = ps_held ps"
    using assms(1) 3 by (simp_all add: pool_secondary PendingStore_Stop_def secondary_inv_def ps_inv_fields)
  ultimately show ?thesis
    using assms(1) by (simp add: halt_def pool_secondary)
qed (use assms(2) in simp)

lemma ticked:
  assumes "pool_inv rid opts n rp" "n < 2 ^ 64 - 2"
  shows "pool_inv rid opts (Suc n) (pool_tick now rp)"
  using assms(1)
proof (cases rule: pool_cases)
  case 1
  then show ?thesis
    using assms(1) by (simp add: pool_tick_def pool_inv_closed split: option.split)
next
  case (2 bs)
  then show ?thesis
    using assms(1) by (simp add: pool_tick_def pool_primary split: option.split)
next
  case (3 ps)
  let ?ps = "fst (run_tick (createPendingStore opts) now ps)"
  have "secondary_inv rid opts (Suc n) ?ps" "ps_held ?ps = ps_held ps"
    using ps_inv_tick [of "owns rid opts" ps "createPendingStore opts" now] tick_frame [of "createPendingStore opts" now ps]
      assms 3 by (simp_all add: pool_secondary secondary_inv_def)
  then show ?thesis
    using assms(1) 3 by (simp add: pool_tick_def pool_secondary)
qed

lemma restarted:
  assumes "options_ok opts" "pool_inv rid opts n rp"
  shows "\<exists>rp'. Restart rid now batching rp = Some (Inr rp') \<and> pool_inv rid opts n rp'"
proof (cases "closed rp")
  case False
  obtain rp1 where rp1: "halt rp = Inr rp1" "pool_inv rid opts n rp1" "\<not> closed rp1" "batchingEnabled rp1 = batchingEnabled rp"
    using halted [OF assms(2) False] by blast
  show ?thesis
    using rp1(2)
  proof (cases rule: pool_cases)
    case (2 bs)
    note inv = rp1(2) [unfolded pool_primary [OF 2]]
    show ?thesis
    proof (cases batching)
      case True
      then show ?thesis
        using False rp1(1,4) 2 inv by (simp add: Restart_def Let_def pool_primary)
    next
      case False
      then obtain rp' where "moveToPendingStore rid now (rp1\<lparr>batchingEnabled := False\<rparr>) = Some (Inr rp')"
          "pool_inv rid opts n (rp'\<lparr>stopped := False\<rparr>)"
        using to_pending [OF assms(1), of "rp1\<lparr>batchingEnabled := False\<rparr>" bs rid now n] 2 inv by auto
      then show ?thesis
        using False \<open>\<not> closed rp\<close> rp1(1,4) 2 by (simp add: Restart_def Let_def)
    qed
  next
    case (3 ps)
    note inv = rp1(2) [unfolded pool_secondary [OF 3]]
    show ?thesis
    proof (cases batching)
      case True
      then obtain rp' where "moveToBatchStore rid (rp1\<lparr>batchingEnabled := True\<rparr>) = Some (Inr rp')"
          "pool_inv rid opts n (rp'\<lparr>stopped := False\<rparr>)"
        using to_batch [OF assms(1), of "rp1\<lparr>batchingEnabled := True\<rparr>" ps rid n] 3 inv by auto
      then show ?thesis
        using True False rp1(1,4) 3 by (simp add: Restart_def Let_def)
    next
      case nb: False
      have "secondary_inv rid opts n (ResetTimestamps ps)" "ps_held (ResetTimestamps ps) = ps_held ps"
        using ps_inv_reset [of "owns rid opts" ps] inv by (simp_all add: secondary_inv_def reset_frame)
      then show ?thesis
        using False nb rp1(1,4) 3 inv by (simp add: Restart_def Let_def pool_secondary)
    qed
  qed (use rp1(3) in simp)
qed (use assms(2) in \<open>simp add: Restart_def pool_inv_closed\<close>)

text \<open>Only \<^verbatim>\<open>Close\<close> closes a pool.\<close>

lemma on_deletes_closed: "on_deletes ds rp = Inr rp' \<Longrightarrow> closed rp' = closed rp"
proof (induction ds arbitrary: rp)
  case (Cons d ds)
  then obtain sem where "on_deletes ds (rp\<lparr>semaphore := sem, pool_size := pool_size rp - 1\<rparr>) = Inr rp'"
    by (auto simp: onDelete_def res_bind_Inr_iff)
  then show ?case
    using Cons.IH by fastforce
qed simp

lemma submit_closed:
  "submitToPendingStore rid k v rp = Some (Inr (rp', err)) \<Longrightarrow> closed rp' = closed rp"
  "submitToBatchStore k v rp = Some (Inr (rp', err)) \<Longrightarrow> closed rp' = closed rp"
  by (auto simp: submitToPendingStore_def submitToBatchStore_def res_bind_Inr_iff split: option.splits prod.splits if_splits)

lemma Submit_closed: "Pool_Submit rid v rp = Some (Inr (rp', err)) \<Longrightarrow> closed rp' = closed rp"
  by (auto simp: Pool_Submit_def Let_def split: if_splits sum.splits prod.splits bool.splits dest!: submit_closed)

lemma moved_closed:
  "submit_moved_pending rid reqs rp = Some (Inr rp') \<Longrightarrow> closed rp' = closed rp"
  "submit_moved_batch rid reqs rp = Some (Inr (rp', b)) \<Longrightarrow> closed rp' = closed rp"
  by (induction reqs arbitrary: rp) (auto simp: submit_closed split: option.splits sum.splits prod.splits dest!: submit_closed)

lemma move_closed:
  "moveToPendingStore rid now rp = Some (Inr rp') \<Longrightarrow> closed rp' = closed rp"
  "moveToBatchStore rid rp = Some (Inr rp') \<Longrightarrow> closed rp' = closed rp"
  by (auto simp: moveToPendingStore_def moveToBatchStore_def Let_def split: option.splits sum.splits prod.splits if_splits bool.splits
      dest!: moved_closed)

lemma halt_closed: "halt rp = Inr rp' \<Longrightarrow> closed rp' = closed rp"
  by (auto simp: halt_def Let_def split: option.splits if_splits)

lemma exec_closed: "pool_exec rid numCPU op rp = Some (Inr rp') \<Longrightarrow> op \<noteq> DoClose \<Longrightarrow> closed rp' = closed rp"
proof (cases op)
  case (DoSubmit v)
  assume "pool_exec rid numCPU op rp = Some (Inr rp')"
  then obtain err where "Pool_Submit rid v rp = Some (Inr (rp', err))"
    using DoSubmit by (cases "Pool_Submit rid v rp"; cases "the (Pool_Submit rid v rp)") auto
  then show "closed rp' = closed rp"
    by (rule Submit_closed)
next
  case (DoNext ctxDone)
  then show "pool_exec rid numCPU op rp = Some (Inr rp') \<Longrightarrow> closed rp' = closed rp"
    by (auto simp: NextRequests_def split: if_splits option.splits)
next
  case (DoRestart now batching)
  then show "pool_exec rid numCPU op rp = Some (Inr rp') \<Longrightarrow> closed rp' = closed rp"
    by (auto simp: Restart_def Let_def split: if_splits option.splits sum.splits dest!: move_closed halt_closed)
qed (auto simp: Pool_RemoveRequests_def Pool_Prune_def pool_tick_def halt_closed split: if_splits option.splits prod.splits
    dest!: on_deletes_closed halt_closed)

lemma executed:
  assumes "options_ok opts" "pool_inv rid opts n rp" "numCPU \<noteq> 0" "n < 2 ^ 64 - 2" "op = DoHalt \<Longrightarrow> \<not> closed rp"
  shows "\<exists>rp'. pool_exec rid numCPU op rp = Some (Inr rp') \<and> pool_inv rid opts (n + ticks [op]) rp'"
proof (cases op)
  case (DoSubmit v)
  then show ?thesis
    using submitted [OF assms(1,2), of v] by auto
next
  case (DoNext ctxDone)
  then show ?thesis
    using fetched [OF assms(2), of ctxDone] fetched [OF assms(2), of True] deadline_returns [of rp] by auto
next
  case DoClose
  then show ?thesis
    using assms(2) by (simp add: Pool_Close_def pool_inv_def)
qed (use assms removed [OF assms(2,3)] pruned [OF assms(2)] halted [OF assms(2)] restarted [OF assms(1,2)] ticked [OF assms(2,4)] in auto)

lemma ran:
  assumes "options_ok opts" "numCPU \<noteq> 0" "pool_inv rid opts n rp" "n + ticks ops < 2 ^ 64 - 2" "halts_open ops"
    and "closed rp \<Longrightarrow> DoHalt \<notin> set ops"
  shows "\<exists>rp'. pool_run rid numCPU ops rp = Some (Inr rp') \<and> pool_inv rid opts (n + ticks ops) rp'"
  using assms(3-6)
proof (induction ops arbitrary: n rp)
  case (Cons op ops)
  have t: "ticks (op # ops) = ticks [op] + ticks ops"
    by (cases op) simp_all
  have n: "n < 2 ^ 64 - 2" "op = DoHalt \<Longrightarrow> \<not> closed rp"
    using Cons.prems by (simp_all add: t) (auto simp: t)
  obtain rp' where rp': "pool_exec rid numCPU op rp = Some (Inr rp')" "pool_inv rid opts (n + ticks [op]) rp'"
    using executed [OF assms(1) Cons.prems(1) assms(2) n] by blast
  moreover have "closed rp' \<Longrightarrow> DoHalt \<notin> set ops"
    using exec_closed [OF rp'(1)] Cons.prems(3,4) by (cases "op = DoClose") auto
  ultimately show ?case
    using Cons.IH [of "n + ticks [op]" rp'] Cons.prems unfolding t by (simp add: add.assoc)
qed simp

text \<open>
  (C12) The pool accounts for its requests over sequences of calls that run one at a time. Let the calls be submissions,
  fetches with a deadline, removals, prunings, halts and restarts in either role, and ticks of the clock. Then every call
  returns and none panics: the semaphore never gives back a permit that is not held. As long as the pool is open, the permits
  taken and \<^verbatim>\<open>RequestCount\<close> are the number of the requests held, at most \<^verbatim>\<open>MaxSize\<close>; a closed pool counts none. It is
  assumed that a batch can hold a request and \<^verbatim>\<open>RequestMaxBytes\<close> is at most \<^verbatim>\<open>BatchMaxSizeBytes\<close>, that \<^verbatim>\<open>MaxSize\<close> is
  below two to the 32, that there are fewer than two to the 64 less two ticks, that there is a processor, and that a pool is
  not halted once it is closed.
\<close>

theorem pool_accounting:
  assumes "options_ok opts" "numCPU \<noteq> 0" "NewPool opts start = Inr rp" "ticks ops < 2 ^ 64 - 2" "halts_open ops"
  shows "\<exists>rp'. pool_run rid numCPU ops rp = Some (Inr rp') \<and>
    (if closed rp' then RequestCount rp' = 0
     else semCur (semaphore rp') = int (card (pool_held rp')) \<and> RequestCount rp' = int (card (pool_held rp')) \<and>
       card (pool_held rp') \<le> unat (MaxSize opts))"
proof -
  have m: "sint (MaxSize opts) = uint (MaxSize opts)"
    using assms(1) by (auto simp: options_ok_def sint_uint signed_take_bit_eq_if_positive word_less_def bit_iff_odd take_bit_int_eq_self_iff)
  have "secondary_inv rid opts 0 (PendingStore_Init start)" "ps_held (PendingStore_Init start) = {}"
    using ps_inv_Init by (simp_all add: secondary_inv_def) (simp_all add: PendingStore_Init_def)
  then have "pool_inv rid opts 0 rp" "\<not> closed rp"
    using assms(3) by (auto simp: NewPool_def NewWeighted_def m pool_secondary)
  then obtain rp' where rp': "pool_run rid numCPU ops rp = Some (Inr rp')" "pool_inv rid opts (ticks ops) rp'"
    using ran [OF assms(1,2), of rid 0 rp ops] assms(4,5) by auto
  then show ?thesis
    by (auto simp: pool_inv_def accounts_def RequestCount_def zle_int [symmetric])
qed

definition ex_options :: PoolOptions where
  "ex_options = \<lparr>MaxSize = 2, BatchMaxSize = 10, BatchMaxSizeBytes = 100, RequestMaxBytes = 50, SubmitTimeout = 5,
     PoolFirstStrikeThreshold = 10, PoolSecondStrikeThreshold = 10, AutoRemoveTimeout = 100\<rparr>"

definition ex_pool :: Pool where
  "ex_pool = \<lparr>pending = Some (PendingStore_Init 0), options = ex_options, batchStore = Some (createBatchStore ex_options),
     semaphore = \<lparr>semSize = 2, semCur = 0\<rparr>, closed = False, stopped = False, batchingEnabled = False, pool_size = 0\<rparr>"

theorem pool_accounting_witness:
  "\<exists>rp'. pool_run (map (\<lambda>b. char_of (unat b))) 4
      [DoSubmit [1], DoSubmit [2], DoTick 7, DoRestart 8 True, DoNext True, DoRemove [''a''], DoRestart 9 False, DoHalt, DoClose]
      ex_pool = Some (Inr rp') \<and>
    (if closed rp' then RequestCount rp' = 0
     else semCur (semaphore rp') = int (card (pool_held rp')) \<and> RequestCount rp' = int (card (pool_held rp')) \<and>
       card (pool_held rp') \<le> unat (MaxSize ex_options))"
proof (rule pool_accounting)
  show "options_ok ex_options"
    by (simp add: options_ok_def ex_options_def)
  show "NewPool ex_options 0 = Inr ex_pool"
    by (simp add: NewPool_def NewWeighted_def ex_pool_def) (simp add: ex_options_def)
qed simp_all

end
