(* ===== verification/BatchStoreCallers.thy ===== *)
theory BatchStoreCallers
  imports BatchStore
begin

text \<open>
  Callers of the batch store that interleave: the atomic steps of \<^verbatim>\<open>Insert\<close> (\<^verbatim>\<open>src/request/batchstore.go\<close>), of removals
  and of the operations under the write lock, with the limits of a batch as the invariant.
\<close>

section \<open>Interleaved insertions\<close>

text \<open>
  Any number of callers of \<^verbatim>\<open>Insert\<close>. A caller that was given room in a batch keeps the read lock until it
  has stored its request, so the steps under the write lock (enqueuing, fetching, pruning) wait for it;
  additions to the size of the current batch come at any time. A removal takes no lock: its two steps,
  on the index and on the batch, may come between any others.
\<close>

datatype inserter =
    Start string bytes
  | Claiming string bytes nat
  | Storing string bytes nat
  | Enqueuing string bytes nat
  | Returned bool

fun reads :: "inserter \<Rightarrow> bool" where
  "reads (Claiming k v a) = True"
| "reads (Storing k v a) = True"
| "reads _ = False"

inductive bs_step :: "nat \<Rightarrow> BatchStore \<times> inserter list \<Rightarrow> BatchStore \<times> inserter list \<Rightarrow> bool" for R where
  call: "\<lbrakk>i < length ts; ts ! i = Returned b; length v \<le> R\<rbrakk> \<Longrightarrow> bs_step R (bs, ts) (bs, ts[i := Start k v])"
| add_room: "\<lbrakk>i < length ts; ts ! i = Start k v; add_size bs (of_nat (length v)) = (bs', True)\<rbrakk> \<Longrightarrow>
    bs_step R (bs, ts) (bs', ts[i := Claiming k v (currentBatch bs)])"
| add_full: "\<lbrakk>i < length ts; ts ! i = Start k v; add_size bs (of_nat (length v)) = (bs', False)\<rbrakk> \<Longrightarrow>
    bs_step R (bs, ts) (bs', ts[i := Enqueuing k v (currentBatch bs)])"
| claim: "\<lbrakk>i < length ts; ts ! i = Claiming k v a; claim_key bs k a = (bs', new)\<rbrakk> \<Longrightarrow>
    bs_step R (bs, ts) (bs', ts[i := if new then Storing k v a else Returned False])"
| store: "\<lbrakk>i < length ts; ts ! i = Storing k v a\<rbrakk> \<Longrightarrow>
    bs_step R (bs, ts) (store_value a k v bs, ts[i := Returned True])"
| enqueue: "\<lbrakk>i < length ts; ts ! i = Enqueuing k v a; \<not> list_ex reads ts\<rbrakk> \<Longrightarrow>
    bs_step R (bs, ts) (enqueue_batch a bs, ts[i := Start k v])"
| fetch: "\<lbrakk>\<not> list_ex reads ts; Fetch ctxDone bs = Some (bs', requests, ids)\<rbrakk> \<Longrightarrow> bs_step R (bs, ts) (bs', ts)"
| prune: "\<lbrakk>\<not> list_ex reads ts; Prune f bs = (bs', keys)\<rbrakk> \<Longrightarrow> bs_step R (bs, ts) (bs', ts)"
| remove_index: "bs_step R (bs, ts) (bs\<lparr>keys2Batches := AList.delete k (keys2Batches bs)\<rparr>, ts)"
| remove_entry: "a < length (bsHeap bs) \<Longrightarrow> bs_step R (bs, ts) (upd_batch a (batch_Delete k) bs, ts)"

text \<open>What a caller holds of a batch, and what it has added to the size of a batch without holding it.\<close>

fun held :: "(bytes \<Rightarrow> nat) \<Rightarrow> nat \<Rightarrow> inserter \<Rightarrow> nat" where
  "held w a (Claiming k v a') = (if a = a' then w v else 0)"
| "held w a (Storing k v a') = (if a = a' then w v else 0)"
| "held w a _ = 0"

fun over :: "(bytes \<Rightarrow> nat) \<Rightarrow> nat \<Rightarrow> inserter \<Rightarrow> nat" where
  "over w a (Enqueuing k v a') = (if a = a' then w v else 0)"
| "over w a _ = 0"

definition entries :: "(bytes \<Rightarrow> nat) \<Rightarrow> batch \<Rightarrow> nat" where
  "entries w b = (\<Sum>(k, v)\<leftarrow>bm b. w v)"

lemma sum_threads_update:
  fixes f :: "'t \<Rightarrow> nat"
  assumes "i < length ts"
  shows "(\<Sum>t\<leftarrow>ts[i := t']. f t) + f (ts ! i) = (\<Sum>t\<leftarrow>ts. f t) + f t'"
  using assms by (induction ts arbitrary: i) (auto split: nat.split)

lemma sum_threads_bound: "(\<And>t. t \<in> set ts \<Longrightarrow> f t \<le> (R :: nat)) \<Longrightarrow> (\<Sum>t\<leftarrow>ts. f t) \<le> length ts * R"
  by (induction ts) (auto simp: add_mono)

lemma entries_simps [simp]:
  "entries w empty_batch = 0" "entries w (markEnqueued b) = entries w b" "entries w (b\<lparr>sizeBytes := s\<rparr>) = entries w b"
  by (simp_all add: entries_def)

lemma entries_Store: "entries w (batch_Store k v b) \<le> entries w b + w v"
proof -
  have "(\<Sum>(k, v)\<leftarrow>AList.update k v m. w v) \<le> (\<Sum>(k, v)\<leftarrow>m. w v) + w v" for m
    by (induction m) auto
  then show ?thesis
    by (simp add: entries_def)
qed

lemma entries_Delete: "entries w (batch_Delete k b) \<le> entries w b"
proof -
  have "(\<Sum>(k, v)\<leftarrow>AList.delete k m. w v) \<le> (\<Sum>(k, v)\<leftarrow>m. w v)" for m
    by (induction m) auto
  then show ?thesis
    by (simp add: entries_def)
qed

text \<open>Steps that add no request and no size, and leave the current batch in place.\<close>

definition shrinks :: "BatchStore \<Rightarrow> BatchStore \<Rightarrow> bool" where
  "shrinks bs bs' \<longleftrightarrow>
     length (bsHeap bs') = length (bsHeap bs) \<and> currentBatch bs' = currentBatch bs \<and>
     set (readyBatches bs') \<subseteq> set (readyBatches bs) \<and>
     batchMaxSize bs' = batchMaxSize bs \<and> batchMaxSizeBytes bs' = batchMaxSizeBytes bs \<and>
     (\<forall>a < length (bsHeap bs). sizeBytes (bsHeap bs' ! a) = sizeBytes (bsHeap bs ! a) \<and>
        enqueued (bsHeap bs' ! a) = enqueued (bsHeap bs ! a) \<and>
        (\<forall>w. entries w (bsHeap bs' ! a) \<le> entries w (bsHeap bs ! a)))"

lemma shrinks_refl [simp]: "shrinks bs bs"
  by (simp add: shrinks_def)

lemma shrinks_trans: "shrinks bs bs' \<Longrightarrow> shrinks bs' bs'' \<Longrightarrow> shrinks bs bs''"
  unfolding shrinks_def by (metis order.trans)

lemma shrinks_upd:
  assumes "a < length (bsHeap bs)" "sizeBytes (f (bsHeap bs ! a)) = sizeBytes (bsHeap bs ! a)"
    and "enqueued (f (bsHeap bs ! a)) = enqueued (bsHeap bs ! a)" "\<And>w. entries w (f (bsHeap bs ! a)) \<le> entries w (bsHeap bs ! a)"
  shows "shrinks bs (upd_batch a f bs)"
  using assms by (simp add: shrinks_def upd_batch_nth)

lemma shrinks_delete: "shrinks bs (upd_batch a (batch_Delete k) bs)"
proof (cases "a < length (bsHeap bs)")
  case True
  then show ?thesis
    by (intro shrinks_upd) (simp_all add: entries_Delete)
qed (simp add: upd_batch_def shrinks_def)

lemma shrinks_keys: "shrinks bs (bs'\<lparr>keys2Batches := m\<rparr>) \<longleftrightarrow> shrinks bs bs'"
  "shrinks (bs\<lparr>keys2Batches := m\<rparr>) bs' \<longleftrightarrow> shrinks bs bs'"
  by (simp_all add: shrinks_def)

lemma shrinks_Remove: "shrinks bs (fst (Remove k bs))"
proof -
  have "shrinks (bs\<lparr>keys2Batches := m\<rparr>) (upd_batch a (batch_Delete k) (bs\<lparr>keys2Batches := m\<rparr>))" for a m
    by (rule shrinks_delete)
  then show ?thesis
    by (simp add: Remove_def shrinks_keys split: option.split)
qed

lemma shrinks_remove_each: "shrinks bs (fst (remove_each Remove ks bs))"
proof (induction ks arbitrary: bs)
  case (Cons k ks)
  then show ?case
    using shrinks_trans [OF shrinks_Remove [of bs k]] by (simp add: case_prod_unfold Let_def)
qed simp

lemma shrinks_prune_batches: "shrinks bs (fst (prune_batches f as bs))"
proof (induction f as bs rule: prune_batches.induct)
  case (2 f a as bs)
  have "shrinks bs (fst (prune_batch f a bs))"
    by (simp add: prune_batch_def shrinks_remove_each)
  then show ?case
    using 2 [OF refl prod.collapse] by (simp add: case_prod_unfold Let_def) (rule shrinks_trans)
qed simp

text \<open>The pointers of a store and of its callers.\<close>

fun caller_ok :: "nat \<Rightarrow> nat \<Rightarrow> inserter \<Rightarrow> bool" where
  "caller_ok R n (Start k v) \<longleftrightarrow> length v \<le> R"
| "caller_ok R n (Claiming k v a) \<longleftrightarrow> length v \<le> R \<and> a < n"
| "caller_ok R n (Storing k v a) \<longleftrightarrow> length v \<le> R \<and> a < n"
| "caller_ok R n (Enqueuing k v a) \<longleftrightarrow> length v \<le> R \<and> a < n"
| "caller_ok R n (Returned b) \<longleftrightarrow> True"

lemma caller_ok_mono: "caller_ok R n t \<Longrightarrow> n \<le> m \<Longrightarrow> caller_ok R m t"
  by (cases t) auto

definition shape_inv :: "nat \<Rightarrow> BatchStore \<Rightarrow> inserter list \<Rightarrow> bool" where
  "shape_inv R bs ts \<longleftrightarrow>
     currentBatch bs < length (bsHeap bs) \<and>
     (\<forall>a\<in>set (readyBatches bs). a < length (bsHeap bs) \<and> a \<noteq> currentBatch bs) \<and>
     (\<forall>a < length (bsHeap bs). enqueued (bsHeap bs ! a) \<longleftrightarrow> a \<noteq> currentBatch bs) \<and>
     (\<forall>t\<in>set ts. caller_ok R (length (bsHeap bs)) t)"

text \<open>
  The quota of a batch, for requests weighed by \<open>w\<close> and the part \<open>ext\<close> of the packed size: what is in the
  batch or held by a caller is within the limit, and the size of the current batch exceeds the limit
  by at most what the callers added that were turned away.
\<close>

definition quota_inv ::
  "(bytes \<Rightarrow> nat) \<Rightarrow> (u64 \<Rightarrow> nat) \<Rightarrow> nat \<Rightarrow> BatchStore \<Rightarrow> inserter list \<Rightarrow> bool" where
  "quota_inv w ext lim bs ts \<longleftrightarrow>
     (\<forall>a < length (bsHeap bs). entries w (bsHeap bs ! a) + (\<Sum>t\<leftarrow>ts. held w a t) \<le> lim \<and>
        entries w (bsHeap bs ! a) + (\<Sum>t\<leftarrow>ts. held w a t) \<le> ext (sizeBytes (bsHeap bs ! a))) \<and>
     ext (sizeBytes (bsHeap bs ! currentBatch bs)) \<le> lim + (\<Sum>t\<leftarrow>ts. over w (currentBatch bs) t)"

lemma shape_shrinks: "shape_inv R bs ts \<Longrightarrow> shrinks bs bs' \<Longrightarrow> shape_inv R bs' ts"
  unfolding shape_inv_def shrinks_def by auto

lemma quota_shrinks:
  "quota_inv w ext lim bs ts \<Longrightarrow> shrinks bs bs' \<Longrightarrow> currentBatch bs < length (bsHeap bs) \<Longrightarrow> quota_inv w ext lim bs' ts"
  unfolding quota_inv_def shrinks_def by (simp, meson add_le_mono1 order.trans)

lemma shape_fresh:
  assumes "shape_inv R bs ts"
  shows "shape_inv R (upd_batch (currentBatch bs) markEnqueued (fresh_current bs)) ts"
    "shape_inv R (fresh_current ((upd_batch (currentBatch bs) markEnqueued bs)\<lparr>readyBatches := readyBatches bs @ [currentBatch bs]\<rparr>)) ts"
  using assms unfolding shape_inv_def
  by (auto simp: upd_batch_nth fresh_current_nth less_Suc_eq intro: caller_ok_mono)

lemma held_fresh: "\<forall>t\<in>set ts. caller_ok R n t \<Longrightarrow> (\<Sum>t\<leftarrow>ts. held w n t) = 0"
proof -
  have "held w n t = 0" if "caller_ok R n t" for t
    using that by (cases t) auto
  then show "\<forall>t\<in>set ts. caller_ok R n t \<Longrightarrow> ?thesis"
    by (simp add: sum_list_eq_0_iff)
qed

lemma quota_fresh:
  assumes "quota_inv w ext lim bs ts" "shape_inv R bs ts" "length (bsHeap bs') = Suc (length (bsHeap bs))"
    and "currentBatch bs' = length (bsHeap bs)" "bsHeap bs' ! length (bsHeap bs) = empty_batch" "ext 0 = 0"
    and "\<And>a. a < length (bsHeap bs) \<Longrightarrow> entries w (bsHeap bs' ! a) = entries w (bsHeap bs ! a) \<and>
      sizeBytes (bsHeap bs' ! a) = sizeBytes (bsHeap bs ! a)"
  shows "quota_inv w ext lim bs' ts"
  using assms held_fresh [of ts R "length (bsHeap bs)" w]
  by (auto simp: quota_inv_def shape_inv_def less_Suc_eq simp del: sum_list_eq_0_iff)

lemma fetch_ready_shrinks:
  assumes "\<forall>a\<in>set (readyBatches bs). a < length (bsHeap bs) \<and> enqueued (bsHeap bs ! a)"
  shows "shrinks bs (fst (fetch_ready bs)) \<and>
    (\<forall>rs ids. snd (fetch_ready bs) = Some (rs, ids) \<longrightarrow>
      (\<exists>a\<in>set (readyBatches bs). rs = map snd (bm (bsHeap bs ! a)) \<and> ids = map fst (bm (bsHeap bs ! a))))"
  using assms
proof (induction bs rule: fetch_ready.induct)
  case (1 bs)
  show ?case
  proof (cases "readyBatches bs")
    case (Cons a as)
    let ?bs1 = "(upd_batch a markEnqueued bs)\<lparr>readyBatches := as\<rparr>"
    have a: "a < length (bsHeap bs)" "enqueued (bsHeap bs ! a)"
      using 1(2) Cons by simp_all
    have d: "dequeueBatch bs = (?bs1, map snd (bm (bsHeap bs ! a)), map fst (bm (bsHeap bs ! a)))"
      using Cons by (simp add: dequeueBatch_def prepareBatch_def)
    have s: "shrinks bs ?bs1"
      using a Cons by (auto simp: shrinks_def upd_batch_nth)
    have eq: "bm (bsHeap ?bs1 ! b) = bm (bsHeap bs ! b)" for b
      using a by (simp add: upd_batch_nth)
    have IH: "shrinks ?bs1 (fst (fetch_ready ?bs1)) \<and>
      (\<forall>rs ids. snd (fetch_ready ?bs1) = Some (rs, ids) \<longrightarrow>
        (\<exists>b\<in>set as. rs = map snd (bm (bsHeap bs ! b)) \<and> ids = map fst (bm (bsHeap bs ! b))))"
      if "bm (bsHeap bs ! a) = []"
      using 1(1) [OF _ d [symmetric] refl refl] that 1(2) Cons eq a by (simp add: upd_batch_nth)
    show ?thesis
    proof (cases "bm (bsHeap bs ! a) = []")
      case True
      then have "fetch_ready bs = fetch_ready ?bs1"
        using d Cons by (subst fetch_ready.simps) simp
      then show ?thesis
        using IH [OF True] s Cons by (auto intro: shrinks_trans)
    next
      case False
      then have "fetch_ready bs = (?bs1, Some (map snd (bm (bsHeap bs ! a)), map fst (bm (bsHeap bs ! a))))"
        using d Cons by (subst fetch_ready.simps) simp
      then show ?thesis
        using s Cons by auto
    qed
  qed (simp add: fetch_ready.simps)
qed

lemma shape_ready:
  "shape_inv R bs ts \<Longrightarrow> \<forall>a\<in>set (readyBatches bs). a < length (bsHeap bs) \<and> enqueued (bsHeap bs ! a)"
  by (simp add: shape_inv_def)

lemma fetched_weight:
  assumes "Fetch ctxDone bs = Some (bs', rs, ids)" "shape_inv R bs ts"
  shows "\<exists>a < length (bsHeap bs). \<forall>w. (\<Sum>v\<leftarrow>rs. w v) \<le> entries w (bsHeap bs ! a)"
proof -
  have f: "shrinks bs (fst (fetch_ready bs))"
    "\<And>rs ids. snd (fetch_ready bs) = Some (rs, ids) \<Longrightarrow> \<exists>a\<in>set (readyBatches bs). rs = map snd (bm (bsHeap bs ! a))"
    using fetch_ready_shrinks [OF shape_ready [OF assms(2)]] by blast+
  have w: "(\<Sum>v\<leftarrow>map snd (bm b). w v) = entries w b" for w b
    by (simp add: entries_def case_prod_unfold comp_def)
  have c: "currentBatch bs < length (bsHeap bs)" "\<forall>a\<in>set (readyBatches bs). a < length (bsHeap bs)"
    using assms(2) by (simp_all add: shape_inv_def)
  show ?thesis
  proof (cases "snd (fetch_ready bs)")
    case None
    let ?bs1 = "fst (fetch_ready bs)"
    have "rs = [] \<or> rs = map snd (bm (bsHeap (fresh_current ?bs1) ! currentBatch ?bs1))"
      using assms(1) None by (auto simp: Fetch_def prepareBatch_def Let_def split: if_splits prod.splits option.splits)
    then have "rs = [] \<or> rs = map snd (bm (bsHeap ?bs1 ! currentBatch bs))"
      using f(1) c(1) by (simp add: shrinks_def fresh_current_nth)
    then have "(\<Sum>v\<leftarrow>rs. w v) \<le> entries w (bsHeap bs ! currentBatch bs)" for w
      using f(1) c(1) w [of w "bsHeap ?bs1 ! currentBatch bs"] by (auto simp: shrinks_def)
    then show ?thesis
      using c(1) by blast
  next
    case (Some r)
    then have "snd (fetch_ready bs) = Some (rs, ids)"
      using assms(1) by (auto simp: Fetch_def split: if_splits prod.splits option.splits)
    then obtain a where "a \<in> set (readyBatches bs)" "rs = map snd (bm (bsHeap bs ! a))"
      using f(2) by blast
    then show ?thesis
      using c(2) w by (metis order_refl)
  qed
qed

lemma fetch_inv:
  assumes "Fetch ctxDone bs = Some (bs', rs, ids)" "shape_inv R bs ts"
  shows "shape_inv R bs' ts" "quota_inv w ext lim bs ts \<Longrightarrow> ext 0 = 0 \<Longrightarrow> quota_inv w ext lim bs' ts"
    "batchMaxSize bs' = batchMaxSize bs" "batchMaxSizeBytes bs' = batchMaxSizeBytes bs"
proof -
  define bs1 where "bs1 = fst (fetch_ready bs)"
  have s: "shrinks bs bs1"
    using fetch_ready_shrinks [OF shape_ready [OF assms(2)]] by (simp add: bs1_def)
  have 1: "shape_inv R bs1 ts" "quota_inv w ext lim bs ts \<Longrightarrow> quota_inv w ext lim bs1 ts"
    using shape_shrinks [OF assms(2) s] quota_shrinks [OF _ s] assms(2) by (simp_all add: shape_inv_def)
  consider "bs' = bs1" | "bs' = upd_batch (currentBatch bs1) markEnqueued (fresh_current bs1)"
    using assms(1) by (auto simp: Fetch_def bs1_def prepareBatch_def Let_def split: if_splits prod.splits option.splits)
  note cases = this
  have c: "currentBatch bs1 < length (bsHeap bs1)"
    using 1(1) by (simp add: shape_inv_def)
  show "shape_inv R bs' ts"
    using cases 1(1) shape_fresh(1) by cases auto
  show "quota_inv w ext lim bs' ts" if q: "quota_inv w ext lim bs ts" "ext 0 = 0"
    using cases
  proof cases
    case 2
    then show ?thesis
      using c q(2) by (intro quota_fresh [OF 1(2) [OF q(1)] 1(1)]) (simp_all add: upd_batch_nth fresh_current_nth)
  qed (simp add: 1(2) q)
  show "batchMaxSize bs' = batchMaxSize bs" "batchMaxSizeBytes bs' = batchMaxSizeBytes bs"
    using cases s by (cases; simp add: shrinks_def)+
qed

lemma shape_caller:
  "shape_inv R bs ts \<Longrightarrow> caller_ok R (length (bsHeap bs)) t' \<Longrightarrow> shape_inv R bs (ts[i := t'])"
  unfolding shape_inv_def using set_update_subset_insert [of ts i t'] by blast

lemma shape_upd: "shape_inv R bs ts \<Longrightarrow> (\<And>b. enqueued (f b) = enqueued b) \<Longrightarrow> shape_inv R (upd_batch a f bs) ts"
  by (cases "a < length (bsHeap bs)") (simp_all add: shape_inv_def upd_batch_nth, simp add: upd_batch_def)

lemma shape_caller_ok: "shape_inv R bs ts \<Longrightarrow> i < length ts \<Longrightarrow> caller_ok R (length (bsHeap bs)) (ts ! i)"
  by (simp add: shape_inv_def)

lemma quota_caller:
  assumes "quota_inv w ext lim bs ts" "i < length ts" "\<And>a. held w a t' \<le> held w a (ts ! i)"
    and "over w (currentBatch bs) (ts ! i) \<le> over w (currentBatch bs) t'"
  shows "quota_inv w ext lim bs (ts[i := t'])"
proof -
  have "(\<Sum>t\<leftarrow>ts[i := t']. held w a t) \<le> (\<Sum>t\<leftarrow>ts. held w a t)" for a
    using sum_threads_update [OF assms(2), of "held w a" t'] assms(3) [of a] by linarith
  moreover have "(\<Sum>t\<leftarrow>ts. over w (currentBatch bs) t) \<le> (\<Sum>t\<leftarrow>ts[i := t']. over w (currentBatch bs) t)"
    using sum_threads_update [OF assms(2), of "over w (currentBatch bs)" t'] assms(4) by linarith
  ultimately show ?thesis
    using assms(1) unfolding quota_inv_def by (meson add_left_mono order.trans)
qed

lemma quota_add:
  assumes "quota_inv w ext lim bs ts" "currentBatch bs < length (bsHeap bs)" "i < length ts" "ts ! i = Start k v"
    and "ext s = ext (sizeBytes (bsHeap bs ! currentBatch bs)) + w v"
  defines "bs1 \<equiv> upd_batch (currentBatch bs) (\<lambda>b. b\<lparr>sizeBytes := s\<rparr>) bs"
  shows "ext s \<le> lim \<Longrightarrow> quota_inv w ext lim bs1 (ts[i := Claiming k v (currentBatch bs)])"
    and "quota_inv w ext lim bs1 (ts[i := Enqueuing k v (currentBatch bs)])"
proof -
  let ?c = "currentBatch bs" and ?C = "Claiming k v (currentBatch bs)" and ?E = "Enqueuing k v (currentBatch bs)"
  have h: "(\<Sum>t\<leftarrow>ts[i := ?C]. held w a t) = (\<Sum>t\<leftarrow>ts. held w a t) + (if a = ?c then w v else 0)"
    "(\<Sum>t\<leftarrow>ts[i := ?E]. held w a t) = (\<Sum>t\<leftarrow>ts. held w a t)"
    "(\<Sum>t\<leftarrow>ts[i := ?C]. over w a t) = (\<Sum>t\<leftarrow>ts. over w a t)"
    "(\<Sum>t\<leftarrow>ts[i := ?E]. over w a t) = (\<Sum>t\<leftarrow>ts. over w a t) + (if a = ?c then w v else 0)" for a
    using sum_threads_update [OF assms(3), of "held w a" ?C] sum_threads_update [OF assms(3), of "held w a" ?E]
      sum_threads_update [OF assms(3), of "over w a" ?C] sum_threads_update [OF assms(3), of "over w a" ?E] assms(4)
    by auto
  have q: "entries w (bsHeap bs ! a) + (\<Sum>t\<leftarrow>ts. held w a t) \<le> lim"
    "entries w (bsHeap bs ! a) + (\<Sum>t\<leftarrow>ts. held w a t) \<le> ext (sizeBytes (bsHeap bs ! a))" if "a < length (bsHeap bs)" for a
    using assms(1) that by (simp_all add: quota_inv_def)
  have cur: "entries w (bsHeap bs ! ?c) + ((\<Sum>t\<leftarrow>ts. held w ?c t) + w v) \<le> ext s"
    using q(2) [OF assms(2)] assms(5) by linarith
  show "quota_inv w ext lim bs1 (ts[i := ?C])" if "ext s \<le> lim"
    unfolding quota_inv_def h using q cur that assms(2) by (auto simp: bs1_def upd_batch_nth intro: order.trans)
  have "ext s \<le> lim + ((\<Sum>t\<leftarrow>ts. over w ?c t) + w v)"
    using assms(1,5) by (simp add: quota_inv_def)
  then show "quota_inv w ext lim bs1 (ts[i := ?E])"
    unfolding quota_inv_def h using q cur assms(2) by (auto simp: bs1_def upd_batch_nth)
qed

lemma quota_store:
  assumes "quota_inv w ext lim bs ts" "currentBatch bs < length (bsHeap bs)" "i < length ts" "ts ! i = Storing k v a" "a < length (bsHeap bs)"
  shows "quota_inv w ext lim (store_value a k v bs) (ts[i := Returned b])"
proof -
  have h: "(\<Sum>t\<leftarrow>ts[i := Returned b]. held w a' t) + (if a' = a then w v else 0) = (\<Sum>t\<leftarrow>ts. held w a' t)"
    "(\<Sum>t\<leftarrow>ts[i := Returned b]. over w a' t) = (\<Sum>t\<leftarrow>ts. over w a' t)" for a'
    using sum_threads_update [OF assms(3), of "held w a'" "Returned b"]
      sum_threads_update [OF assms(3), of "over w a'" "Returned b"] assms(4) by auto
  have e: "entries w (bsHeap (store_value a k v bs) ! a') \<le> entries w (bsHeap bs ! a') + (if a' = a then w v else 0)" for a'
    using assms(5) entries_Store by (simp add: store_value_def upd_batch_nth)
  have s: "sizeBytes (bsHeap (store_value a k v bs) ! a') = sizeBytes (bsHeap bs ! a')" for a'
    using assms(5) by (simp add: store_value_def upd_batch_nth)
  have "entries w (bsHeap (store_value a k v bs) ! a') + (\<Sum>t\<leftarrow>ts[i := Returned b]. held w a' t) \<le>
      entries w (bsHeap bs ! a') + (\<Sum>t\<leftarrow>ts. held w a' t)" for a'
    using e [of a'] h(1) [of a'] by linarith
  then show ?thesis
    using assms(1) unfolding quota_inv_def h s by (auto simp: store_value_def intro: order.trans)
qed

text \<open>The invariant of a store and \<open>T\<close> callers with requests of up to \<open>R\<close> bytes.\<close>

definition callers_inv :: "nat \<Rightarrow> nat \<Rightarrow> u32 \<Rightarrow> u32 \<Rightarrow> BatchStore \<times> inserter list \<Rightarrow> bool" where
  "callers_inv R T m n s \<longleftrightarrow>
     (let (bs, ts) = s in
      shape_inv R bs ts \<and> length ts = T \<and> batchMaxSize bs = m \<and> batchMaxSizeBytes bs = n \<and>
      quota_inv length bytes_of (unat n) bs ts \<and> quota_inv (\<lambda>_. 1) count_of (unat m) bs ts)"

lemma add_size_added:
  assumes "callers_inv R T m n (bs, ts)" "unat n + T * R < 2 ^ 32" "unat m + T < 2 ^ 32"
    and "i < length ts" "ts ! i = Start k v" "add_size bs (of_nat (length v)) = (bs', room)"
  obtains s where "bs' = upd_batch (currentBatch bs) (\<lambda>b. b\<lparr>sizeBytes := s\<rparr>) bs"
    "bytes_of s = bytes_of (sizeBytes (bsHeap bs ! currentBatch bs)) + length v"
    "count_of s = count_of (sizeBytes (bsHeap bs ! currentBatch bs)) + 1"
    "room \<longleftrightarrow> count_of s \<le> unat m \<and> bytes_of s \<le> unat n"
proof -
  let ?w = "sizeBytes (bsHeap bs ! currentBatch bs)"
  have inv: "shape_inv R bs ts" "length ts = T" "batchMaxSize bs = m" "batchMaxSizeBytes bs = n"
    "bytes_of ?w \<le> unat n + (\<Sum>t\<leftarrow>ts. over length (currentBatch bs) t)"
    "count_of ?w \<le> unat m + (\<Sum>t\<leftarrow>ts. over (\<lambda>_. 1) (currentBatch bs) t)"
    using assms(1) by (simp_all add: callers_inv_def quota_inv_def)
  have v: "length v \<le> R"
    using shape_caller_ok [OF inv(1) assms(4)] assms(5) by simp
  have over: "(\<Sum>t\<leftarrow>ts. over w (currentBatch bs) t) + B \<le> T * B"
    if "\<And>t. caller_ok R (length (bsHeap bs)) t \<Longrightarrow> over w (currentBatch bs) t \<le> B" for w B
  proof -
    have "(\<Sum>t\<leftarrow>ts. over w (currentBatch bs) t) = (\<Sum>t\<leftarrow>take i ts. over w (currentBatch bs) t) + (\<Sum>t\<leftarrow>drop (Suc i) ts. over w (currentBatch bs) t)"
      using assms(4,5) by (subst id_take_nth_drop [OF assms(4)]) simp
    also have "\<dots> \<le> length (take i ts) * B + length (drop (Suc i) ts) * B"
      using inv(1) that by (intro add_mono sum_threads_bound) (auto simp: shape_inv_def dest!: in_set_takeD in_set_dropD)
    also have "\<dots> + B = T * B"
      using assms(4) inv(2) by (simp add: min_def) (metis Suc_diff_Suc add.assoc add.commute add_mult_distrib le_add_diff_inverse2 less_or_eq_imp_le mult_Suc)
    finally show ?thesis
      by simp
  qed
  have "over length (currentBatch bs) t \<le> R" "over (\<lambda>_. 1) (currentBatch bs) t \<le> 1" if "caller_ok R (length (bsHeap bs)) t" for t
    using that by (cases t; simp)+
  then have "bytes_of ?w + R < 2 ^ 32" "count_of ?w + 1 < 2 ^ 32"
    using over [of length R] over [of "\<lambda>_. 1" 1] inv(5,6) assms(2,3) by force+
  moreover from this have "unat (of_nat (length v) :: u32) = length v"
    using v by (simp add: unat_of_nat)
  ultimately show thesis
    using assms(6) v packed_add [of ?w "of_nat (length v)"] inv(3,4)
    by (intro that [of "?w + (ucast (of_nat (length v) :: u32) + push_bit 32 1)"])
      (auto simp: add_size_def Let_def sizeBytesOffset_def full_size_iff not_less)
qed

inductive_cases bs_stepE
  [consumes 1, case_names call add_room add_full claim store enqueue fetch prune remove_index remove_entry]:
  "bs_step R (bs, ts) s'"

lemma callers_inv_caller:
  assumes "callers_inv R T m n (bs, ts)" "i < length ts" "caller_ok R (length (bsHeap bs)) t'"
    and "\<And>w a. held w a t' \<le> held w a (ts ! i)" "\<And>w. over w (currentBatch bs) (ts ! i) \<le> over w (currentBatch bs) t'"
  shows "callers_inv R T m n (bs, ts[i := t'])"
  using assms by (simp add: callers_inv_def shape_caller quota_caller)

lemma callers_inv_shrinks:
  assumes "callers_inv R T m n (bs, ts)" "shrinks bs bs'"
  shows "callers_inv R T m n (bs', ts)"
proof -
  have "currentBatch bs < length (bsHeap bs)" "batchMaxSize bs' = batchMaxSize bs" "batchMaxSizeBytes bs' = batchMaxSizeBytes bs"
    using assms by (simp_all add: callers_inv_def shape_inv_def shrinks_def)
  then show ?thesis
    using assms quota_shrinks [OF _ assms(2)] shape_shrinks [OF _ assms(2)] by (simp add: callers_inv_def)
qed

lemma callers_inv_enqueue:
  assumes "callers_inv R T m n (bs, ts)" "i < length ts" "ts ! i = Enqueuing k v a"
  shows "callers_inv R T m n (enqueue_batch a bs, ts[i := Start k v])"
proof (cases "a = currentBatch bs")
  case True
  let ?bs = "enqueue_batch a bs"
  have shape: "shape_inv R bs ts"
    using assms(1) by (simp add: callers_inv_def)
  then have bs: "?bs = fresh_current ((upd_batch a markEnqueued bs)\<lparr>readyBatches := readyBatches bs @ [a]\<rparr>)"
    and a: "a < length (bsHeap bs)"
    using True by (simp_all add: enqueue_batch_def isEnqueued_def shape_inv_def)
  have "quota_inv w ext lim ?bs ts" if "quota_inv w ext lim bs ts" "ext 0 = 0" for w ext lim
    using a that(2) by (intro quota_fresh [OF that(1) shape]) (simp_all add: bs upd_batch_nth fresh_current_nth)
  moreover have "shape_inv R ?bs ts"
    using shape_fresh(2) [OF shape] bs True by metis
  ultimately have "callers_inv R T m n (?bs, ts)"
    using assms(1) bs by (simp add: callers_inv_def)
  moreover have "over w (currentBatch ?bs) (ts ! i) = 0" for w
    using a assms(3) by (simp add: bs)
  ultimately show ?thesis
    using shape_caller_ok [OF shape assms(2)] assms(2,3) by (intro callers_inv_caller) auto
next
  case False
  then have "enqueue_batch a bs = bs" "length v \<le> R"
    using assms shape_caller_ok [of R bs ts i] by (auto simp: callers_inv_def enqueue_batch_def isEnqueued_def shape_inv_def)
  then show ?thesis
    using assms False by (auto intro!: callers_inv_caller)
qed

lemma callers_inv_step:
  assumes "bs_step R (bs, ts) s'" "callers_inv R T m n (bs, ts)" "unat n + T * R < 2 ^ 32" "unat m + T < 2 ^ 32"
  shows "callers_inv R T m n s'"
  using assms(1)
proof (cases rule: bs_stepE)
  case (add_room i k v bs')
  obtain s where s: "bs' = upd_batch (currentBatch bs) (\<lambda>b. b\<lparr>sizeBytes := s\<rparr>) bs"
    "bytes_of s = bytes_of (sizeBytes (bsHeap bs ! currentBatch bs)) + length v"
    "count_of s = count_of (sizeBytes (bsHeap bs ! currentBatch bs)) + 1" "count_of s \<le> unat m" "bytes_of s \<le> unat n"
    using add_size_added [OF assms(2-4) add_room(2-4)] by metis
  have inv: "shape_inv R bs ts" "currentBatch bs < length (bsHeap bs)" "length v \<le> R"
    using assms(2) shape_caller_ok [of R bs ts i] add_room by (auto simp: callers_inv_def shape_inv_def)
  then have "shape_inv R bs' (ts[i := Claiming k v (currentBatch bs)])"
    by (simp add: s(1) shape_caller shape_upd)
  then show ?thesis
    using assms(2) quota_add(1) [OF _ inv(2) add_room(2,3), of length bytes_of "unat n" s]
      quota_add(1) [OF _ inv(2) add_room(2,3), of "\<lambda>_. 1" count_of "unat m" s] s add_room(1)
    by (simp add: callers_inv_def)
next
  case (add_full i k v bs')
  obtain s where s: "bs' = upd_batch (currentBatch bs) (\<lambda>b. b\<lparr>sizeBytes := s\<rparr>) bs"
    "bytes_of s = bytes_of (sizeBytes (bsHeap bs ! currentBatch bs)) + length v"
    "count_of s = count_of (sizeBytes (bsHeap bs ! currentBatch bs)) + 1"
    using add_size_added [OF assms(2-4) add_full(2-4)] by metis
  have inv: "shape_inv R bs ts" "currentBatch bs < length (bsHeap bs)" "length v \<le> R"
    using assms(2) shape_caller_ok [of R bs ts i] add_full by (auto simp: callers_inv_def shape_inv_def)
  then have "shape_inv R bs' (ts[i := Enqueuing k v (currentBatch bs)])"
    by (simp add: s(1) shape_caller shape_upd)
  then show ?thesis
    using assms(2) quota_add(2) [OF _ inv(2) add_full(2,3), of length bytes_of "unat n" s]
      quota_add(2) [OF _ inv(2) add_full(2,3), of "\<lambda>_. 1" count_of "unat m" s] s add_full(1)
    by (simp add: callers_inv_def)
next
  case (call i b v k)
  then show ?thesis
    using assms(2) by (auto intro!: callers_inv_caller)
next
  case (claim i k v a bs' new)
  then have "callers_inv R T m n (bs', ts)"
    using assms(2) by (auto simp: claim_key_def callers_inv_def shape_inv_def quota_inv_def split: if_splits)
  moreover have "caller_ok R (length (bsHeap bs')) (Claiming k v a)"
    using shape_caller_ok [of R bs' ts i] calculation claim by (simp add: callers_inv_def)
  ultimately show ?thesis
    using claim by (auto intro!: callers_inv_caller)
next
  case (store i k v a)
  then have inv: "shape_inv R bs ts" "currentBatch bs < length (bsHeap bs)" "a < length (bsHeap bs)"
    using assms(2) shape_caller_ok [of R bs ts i] by (auto simp: callers_inv_def shape_inv_def)
  then have "shape_inv R (store_value a k v bs) (ts[i := Returned True])"
    by (simp add: store_value_def shape_caller shape_upd)
  then show ?thesis
    using assms(2) store quota_store [OF _ inv(2) store(2,3) inv(3)] by (simp add: callers_inv_def store_value_def)
next
  case (enqueue i k v a)
  then show ?thesis
    using callers_inv_enqueue assms(2) by simp
next
  case (fetch ctxDone bs' requests ids)
  then show ?thesis
    using fetch_inv [of ctxDone bs bs' requests ids R ts] assms(2) by (simp add: callers_inv_def)
next
  case (prune f bs' keys)
  then have "shrinks bs bs'"
    using shrinks_prune_batches [of bs f] by (metis Prune_def fst_conv)
  then show ?thesis
    using callers_inv_shrinks assms(2) prune(1) by simp
next
  case (remove_index k)
  then show ?thesis
    using callers_inv_shrinks [OF assms(2)] by (simp add: shrinks_keys)
next
  case (remove_entry a k)
  then show ?thesis
    using callers_inv_shrinks [OF assms(2) shrinks_delete] by simp
qed

lemma callers_inv_start: "callers_inv R T m n (NewBatchStore m n, replicate T (Returned False))"
  by (simp add: callers_inv_def shape_inv_def quota_inv_def NewBatchStore_def sum_list_replicate)

lemma callers_inv_reachable:
  assumes "(bs_step R)\<^sup>*\<^sup>* s s'" "callers_inv R T m n s" "unat n + T * R < 2 ^ 32" "unat m + T < 2 ^ 32"
  shows "callers_inv R T m n s'"
  using assms(1)
proof (induction rule: rtranclp_induct)
  case (step s1 s2)
  then show ?case
    using callers_inv_step [of R "fst s1" "snd s1"] assms(3,4) by simp
qed (rule assms(2))

text \<open>
  (C39) The limits of a batch hold for callers that interleave. From an empty store on, with \<open>T\<close> callers that insert requests
  of up to \<open>R\<close> bytes, and with removals, prunings and fetches at any time, every batch of the store (the one that is filled,
  those that are ready and those that were fetched) has at most \<^verbatim>\<open>batchMaxSize\<close> requests with at most
  \<^verbatim>\<open>batchMaxSizeBytes\<close> bytes, and so has what a fetch returns. The condition is that \<open>batchMaxSizeBytes + T * R\<close> and
  \<open>batchMaxSize + T\<close> are below two to the 32: callers that are turned away have added to the packed size of the batch too,
  and more of them could carry a half of it around.
\<close>

theorem concurrent_batches_bounded:
  assumes "(bs_step R)\<^sup>*\<^sup>* (NewBatchStore m n, replicate T (Returned False)) (bs, ts)"
    and "unat n + T * R < 2 ^ 32" "unat m + T < 2 ^ 32"
  shows "(\<forall>a < length (bsHeap bs). length (bm (bsHeap bs ! a)) \<le> unat m \<and> (\<Sum>(k, v)\<leftarrow>bm (bsHeap bs ! a). length v) \<le> unat n) \<and>
    (\<forall>ctxDone bs' requests ids. Fetch ctxDone bs = Some (bs', requests, ids) \<longrightarrow>
      length requests \<le> unat m \<and> (\<Sum>r\<leftarrow>requests. length r) \<le> unat n)"
proof -
  have inv: "callers_inv R T m n (bs, ts)"
    using callers_inv_reachable [OF assms(1) callers_inv_start assms(2,3)] .
  have count: "entries (\<lambda>_. Suc 0) b = length (bm b)" "(\<Sum>r\<leftarrow>requests. Suc 0) = length requests" for b and requests :: "bytes list"
    by (simp_all add: entries_def case_prod_unfold sum_list_triv)
  have limits: "length (bm (bsHeap bs ! a)) \<le> unat m \<and> entries length (bsHeap bs ! a) \<le> unat n" if "a < length (bsHeap bs)" for a
    using inv that by (auto simp: callers_inv_def quota_inv_def count dest!: spec [of _ a])
  moreover have "length requests \<le> unat m \<and> (\<Sum>r\<leftarrow>requests. length r) \<le> unat n"
    if f: "Fetch ctxDone bs = Some (bs', requests, ids)" for ctxDone bs' requests ids
  proof -
    obtain a where a: "a < length (bsHeap bs)" "\<And>w. (\<Sum>r\<leftarrow>requests. w r) \<le> entries w (bsHeap bs ! a)"
      using fetched_weight [OF f, of R ts] inv by (auto simp: callers_inv_def)
    then show ?thesis
      using limits [OF a(1)] order.trans [OF a(2) [of length]] order.trans [OF a(2) [of "\<lambda>_. Suc 0"]] by (simp add: count)
  qed
  ultimately show ?thesis
    by (auto simp: entries_def)
qed

definition ex_filled :: BatchStore where
  "ex_filled = \<lparr>bsHeap = [\<lparr>sizeBytes = 4294967297, enqueued = False, bm = [(''a'', [1])]\<rparr>], currentBatch = 0,
     readyBatches = [], batchMaxSize = 2, batchMaxSizeBytes = 10, keys2Batches = [(''a'', 0)]\<rparr>"

lemma ex_filled_reached:
  "(bs_step 1)\<^sup>*\<^sup>* (NewBatchStore 2 10, replicate 1 (Returned False)) (ex_filled, [Returned True])"
proof -
  let ?bs1 = "upd_batch 0 (\<lambda>b. b\<lparr>sizeBytes := 4294967297\<rparr>) (NewBatchStore 2 10)"
  let ?bs2 = "?bs1\<lparr>keys2Batches := [(''a'', 0)]\<rparr>"
  have "bs_step 1 (NewBatchStore 2 10, [Returned False]) (NewBatchStore 2 10, [Returned False][0 := Start ''a'' [1]])"
    by (rule call [where b = False]) simp_all
  moreover have "bs_step 1 (NewBatchStore 2 10, [Start ''a'' [1]])
      (?bs1, [Start ''a'' [1]][0 := Claiming ''a'' [1] (currentBatch (NewBatchStore 2 10))])"
    by (rule add_room)
      (simp_all add: add_size_def full_size_def NewBatchStore_def sizeBytesOffset_def empty_batch_def upd_batch_def)
  moreover have "bs_step 1 (?bs1, [Claiming ''a'' [1] 0]) (?bs2, [Claiming ''a'' [1] 0][0 := if True then Storing ''a'' [1] 0 else Returned False])"
    by (rule claim) (simp_all add: claim_key_def NewBatchStore_def)
  moreover have "bs_step 1 (?bs2, [Storing ''a'' [1] 0]) (store_value 0 ''a'' [1] ?bs2, [Storing ''a'' [1] 0][0 := Returned True])"
    by (rule store) simp_all
  moreover have "store_value 0 ''a'' [1] ?bs2 = ex_filled" "currentBatch (NewBatchStore 2 10) = 0"
    by (simp_all add: ex_filled_def store_value_def upd_batch_def NewBatchStore_def batch_Store_def empty_batch_def)
  ultimately show ?thesis
    by (auto intro: converse_rtranclp_into_rtranclp)
qed

theorem concurrent_batches_bounded_witness:
  "bm (bsHeap ex_filled ! 0) = [(''a'', [1])] \<and> length (bm (bsHeap ex_filled ! 0)) \<le> unat (2 :: u32) \<and>
     (\<Sum>(k, v)\<leftarrow>bm (bsHeap ex_filled ! 0). length v) \<le> unat (10 :: u32)"
proof -
  have "length (bsHeap ex_filled) = 1" "bm (bsHeap ex_filled ! 0) = [(''a'', [1])]"
    by (simp_all add: ex_filled_def)
  then show ?thesis
    using concurrent_batches_bounded [OF ex_filled_reached] by simp
qed

end
