(* ===== verification/PoolCallers.thy ===== *)
theory PoolCallers
  imports Pool BatchStoreCallers
begin

text \<open>
  Callers of the pool of a primary that interleave (\<^verbatim>\<open>src/request/pool.go\<close>). \<^verbatim>\<open>Submit\<close>, \<^verbatim>\<open>NextRequests\<close>,
  \<^verbatim>\<open>RemoveRequests\<close> and \<^verbatim>\<open>Prune\<close> hold the lock of the pool only for reading, so any number of them run at once:
  submissions wait for permits in the queue of the semaphore, insertions take the steps of \<open>BatchStoreCallers\<close>, and a removal
  deletes a request from the index, then from its batch, then gives back the permit and then counts. \<^verbatim>\<open>Halt\<close>,
  \<^verbatim>\<open>Restart\<close> and \<^verbatim>\<open>Close\<close> take the lock for writing, so they come when all these calls have returned; \<open>Pool\<close> has them.
\<close>

section \<open>The semaphore with its waiters\<close>

text \<open>
  A waiter is named by its caller, and has the weight it waits for. \<^verbatim>\<open>semReady\<close> has the callers whose channel
  \<^verbatim>\<open>ready\<close> is closed and who have not noticed it yet.
\<close>

record Semaphore = Weighted +
  semWaiters :: "(nat \<times> int) list"
  semReady :: "nat list"

function notifyWaiters :: "Semaphore \<Rightarrow> Semaphore" where
  "notifyWaiters s =
     (case semWaiters s of
        [] \<Rightarrow> s
      | (i, n) # ws \<Rightarrow>
          if semSize s - semCur s < n then s
          else notifyWaiters (s\<lparr>semCur := semCur s + n, semWaiters := ws, semReady := i # semReady s\<rparr>))"
  by pat_completeness auto
termination
  by (relation "measure (\<lambda>s. length (semWaiters s))") auto

declare notifyWaiters.simps [simp del]

datatype acquiring = Acquired | CtxErr | Waits

text \<open>The part of \<^verbatim>\<open>Acquire\<close> up to the wait. A caller that asks for more than the semaphore has waits for its context.\<close>

definition Acquire_enter :: "bool \<Rightarrow> nat \<Rightarrow> int \<Rightarrow> Semaphore \<Rightarrow> fault + Semaphore \<times> acquiring" where
  "Acquire_enter ctxDone i n s =
     (if n < 0 then Inl (Panicked ''semaphore: n < 0'')
      else if ctxDone then Inr (s, CtxErr)
      else if semSize s - semCur s \<ge> n \<and> semWaiters s = [] then Inr (s\<lparr>semCur := semCur s + n\<rparr>, Acquired)
      else if n > semSize s then Inr (s, CtxErr)
      else Inr (s\<lparr>semWaiters := semWaiters s @ [(i, n)]\<rparr>, Waits))"

definition Release_notify :: "int \<Rightarrow> Semaphore \<Rightarrow> fault + Semaphore" where
  "Release_notify n s =
     (if n < 0 then Inl (Panicked ''semaphore: n < 0'')
      else if semCur s - n < 0 then Inl (Panicked ''semaphore: released more than held'')
      else Inr (notifyWaiters (s\<lparr>semCur := semCur s - n\<rparr>)))"

text \<open>The two branches of the wait: the context is done, or the channel is closed (and the context may be done too).\<close>

definition Acquire_cancelled :: "nat \<Rightarrow> int \<Rightarrow> Semaphore \<Rightarrow> Semaphore" where
  "Acquire_cancelled i n s =
     (if i \<in> set (semReady s)
      then notifyWaiters (s\<lparr>semCur := semCur s - n, semReady := remove1 i (semReady s)\<rparr>)
      else
        (let isFront = (semWaiters s \<noteq> [] \<and> fst (hd (semWaiters s)) = i);
             s1 = s\<lparr>semWaiters := filter (\<lambda>(j, _). j \<noteq> i) (semWaiters s)\<rparr>
         in if isFront \<and> semSize s > semCur s then notifyWaiters s1 else s1))"

definition Acquire_woken :: "bool \<Rightarrow> nat \<Rightarrow> int \<Rightarrow> Semaphore \<Rightarrow> fault + Semaphore \<times> acquiring" where
  "Acquire_woken ctxDone i n s =
     (let s1 = s\<lparr>semReady := remove1 i (semReady s)\<rparr> in
      if ctxDone then res_bind (Release_notify n s1) (\<lambda>s2. Inr (s2, CtxErr)) else Inr (s1, Acquired))"

section \<open>Callers of the pool\<close>

text \<open>
  A submission is before the semaphore, waits there, or inserts; an insertion that has returned has yet to count the
  request or to give back the permit. A removal has keys left, and may be between the steps of one key.
\<close>

datatype pool_caller =
    Idle
  | Acquiring bytes
  | Waiting bytes
  | Inserting inserter
  | Removing "string list"
  | Deleting string nat "string list"
  | Releasing "string list"
  | Counting "string list"

fun reads_store :: "pool_caller \<Rightarrow> bool" where
  "reads_store (Inserting t) = reads t"
| "reads_store _ = False"

record PoolCalls =
  pcStore :: BatchStore
  pcSem :: Semaphore
  pcSize :: int
  pcCallers :: "pool_caller list"

definition set_caller :: "nat \<Rightarrow> pool_caller \<Rightarrow> PoolCalls \<Rightarrow> PoolCalls" where
  "set_caller i t s = s\<lparr>pcCallers := (pcCallers s)[i := t]\<rparr>"

definition submit_goes_on :: "(bytes \<Rightarrow> string) \<Rightarrow> bytes \<Rightarrow> acquiring \<Rightarrow> pool_caller" where
  "submit_goes_on requestID request r =
     (case r of
        Acquired \<Rightarrow> Inserting (Start (requestID request) request)
      | CtxErr \<Rightarrow> Idle
      | Waits \<Rightarrow> Waiting request)"

text \<open>\<^verbatim>\<open>LoadAndDelete\<close> of the index.\<close>

definition load_and_delete :: "string \<Rightarrow> BatchStore \<Rightarrow> BatchStore \<times> nat option" where
  "load_and_delete key bs =
     (case map_of (keys2Batches bs) key of
        None \<Rightarrow> (bs, None)
      | Some a \<Rightarrow> (bs\<lparr>keys2Batches := AList.delete key (keys2Batches bs)\<rparr>, Some a))"

text \<open>
  The steps of the callers of a pool whose requests have at most \<open>R\<close> bytes. The workers of \<^verbatim>\<open>RemoveRequests\<close> are callers of
  their own with their share of the keys, and so is a \<^verbatim>\<open>Prune\<close> with the keys that its predicate turns down; that it holds the
  write lock of the store leaves fewer interleavings than there are here.
\<close>

inductive pool_step :: "(bytes \<Rightarrow> string) \<Rightarrow> nat \<Rightarrow> PoolCalls \<Rightarrow> PoolCalls \<Rightarrow> bool" for requestID R where
  submit: "\<lbrakk>i < length (pcCallers s); pcCallers s ! i = Idle; length request \<le> R\<rbrakk> \<Longrightarrow>
    pool_step requestID R s (set_caller i (Acquiring request) s)"
| acquire: "\<lbrakk>i < length (pcCallers s); pcCallers s ! i = Acquiring request; Acquire_enter ctxDone i 1 (pcSem s) = Inr (sem, r)\<rbrakk> \<Longrightarrow>
    pool_step requestID R s (set_caller i (submit_goes_on requestID request r) (s\<lparr>pcSem := sem\<rparr>))"
| cancelled: "\<lbrakk>i < length (pcCallers s); pcCallers s ! i = Waiting request\<rbrakk> \<Longrightarrow>
    pool_step requestID R s (set_caller i Idle (s\<lparr>pcSem := Acquire_cancelled i 1 (pcSem s)\<rparr>))"
| woken: "\<lbrakk>i < length (pcCallers s); pcCallers s ! i = Waiting request; i \<in> set (semReady (pcSem s));
     Acquire_woken ctxDone i 1 (pcSem s) = Inr (sem, r)\<rbrakk> \<Longrightarrow>
    pool_step requestID R s (set_caller i (submit_goes_on requestID request r) (s\<lparr>pcSem := sem\<rparr>))"
| add: "\<lbrakk>i < length (pcCallers s); pcCallers s ! i = Inserting (Start k v); add_size (pcStore s) (of_nat (length v)) = (bs, room)\<rbrakk> \<Longrightarrow>
    pool_step requestID R s
      (set_caller i (Inserting (if room then Claiming k v (currentBatch bs) else Enqueuing k v (currentBatch bs))) (s\<lparr>pcStore := bs\<rparr>))"
| claim: "\<lbrakk>i < length (pcCallers s); pcCallers s ! i = Inserting (Claiming k v a); claim_key (pcStore s) k a = (bs, new)\<rbrakk> \<Longrightarrow>
    pool_step requestID R s (set_caller i (Inserting (if new then Storing k v a else Returned False)) (s\<lparr>pcStore := bs\<rparr>))"
| store: "\<lbrakk>i < length (pcCallers s); pcCallers s ! i = Inserting (Storing k v a)\<rbrakk> \<Longrightarrow>
    pool_step requestID R s (set_caller i (Inserting (Returned True)) (s\<lparr>pcStore := store_value a k v (pcStore s)\<rparr>))"
| enqueue: "\<lbrakk>i < length (pcCallers s); pcCallers s ! i = Inserting (Enqueuing k v a); \<not> list_ex reads_store (pcCallers s)\<rbrakk> \<Longrightarrow>
    pool_step requestID R s (set_caller i (Inserting (Start k v)) (s\<lparr>pcStore := enqueue_batch a (pcStore s)\<rparr>))"
| inserted: "\<lbrakk>i < length (pcCallers s); pcCallers s ! i = Inserting (Returned True)\<rbrakk> \<Longrightarrow>
    pool_step requestID R s (set_caller i Idle (s\<lparr>pcSize := pcSize s + 1\<rparr>))"
| refused: "\<lbrakk>i < length (pcCallers s); pcCallers s ! i = Inserting (Returned False); Release_notify 1 (pcSem s) = Inr sem\<rbrakk> \<Longrightarrow>
    pool_step requestID R s (set_caller i Idle (s\<lparr>pcSem := sem\<rparr>))"
| remove: "\<lbrakk>i < length (pcCallers s); pcCallers s ! i = Idle\<rbrakk> \<Longrightarrow> pool_step requestID R s (set_caller i (Removing keys) s)"
| remove_index: "\<lbrakk>i < length (pcCallers s); pcCallers s ! i = Removing (k # keys); load_and_delete k (pcStore s) = (bs, found)\<rbrakk> \<Longrightarrow>
    pool_step requestID R s
      (set_caller i (case found of None \<Rightarrow> Removing keys | Some a \<Rightarrow> Deleting k a keys) (s\<lparr>pcStore := bs\<rparr>))"
| remove_entry: "\<lbrakk>i < length (pcCallers s); pcCallers s ! i = Deleting k a keys\<rbrakk> \<Longrightarrow>
    pool_step requestID R s (set_caller i (Releasing keys) (s\<lparr>pcStore := upd_batch a (batch_Delete k) (pcStore s)\<rparr>))"
| release: "\<lbrakk>i < length (pcCallers s); pcCallers s ! i = Releasing keys; Release_notify 1 (pcSem s) = Inr sem\<rbrakk> \<Longrightarrow>
    pool_step requestID R s (set_caller i (Counting keys) (s\<lparr>pcSem := sem\<rparr>))"
| count: "\<lbrakk>i < length (pcCallers s); pcCallers s ! i = Counting keys\<rbrakk> \<Longrightarrow>
    pool_step requestID R s (set_caller i (Removing keys) (s\<lparr>pcSize := pcSize s - 1\<rparr>))"
| removed: "\<lbrakk>i < length (pcCallers s); pcCallers s ! i = Removing []\<rbrakk> \<Longrightarrow> pool_step requestID R s (set_caller i Idle s)"
| fetch: "\<lbrakk>\<not> list_ex reads_store (pcCallers s); Fetch ctxDone (pcStore s) = Some (bs, requests, ids)\<rbrakk> \<Longrightarrow>
    pool_step requestID R s (s\<lparr>pcStore := bs\<rparr>)"

section \<open>The accounts of the callers\<close>

text \<open>
  The permits that callers hold beyond those of the requests in the index, the requests of the index that their callers have
  not counted yet, and the requests that were counted and are no longer in the index.
\<close>

fun permits :: "pool_caller \<Rightarrow> int" where
  "permits (Inserting (Storing k v a)) = 0"
| "permits (Inserting (Returned b)) = (if b then 0 else 1)"
| "permits (Inserting t) = 1"
| "permits (Deleting k a keys) = 1"
| "permits (Releasing keys) = 1"
| "permits _ = 0"

fun uncounted :: "pool_caller \<Rightarrow> int" where
  "uncounted (Inserting (Storing k v a)) = 1"
| "uncounted (Inserting (Returned b)) = (if b then 1 else 0)"
| "uncounted (Deleting k a keys) = -1"
| "uncounted (Releasing keys) = -1"
| "uncounted (Counting keys) = -1"
| "uncounted _ = 0"

fun waiting :: "pool_caller \<Rightarrow> bool" where
  "waiting (Waiting request) = True"
| "waiting _ = False"

text \<open>The permits that callers took and know of; those of callers that are ready come on top.\<close>

definition taken :: "Semaphore \<Rightarrow> int" where
  "taken s = semCur s - int (length (semReady s))"

definition sem_ok :: "nat set \<Rightarrow> Semaphore \<Rightarrow> bool" where
  "sem_ok W s \<longleftrightarrow>
     distinct (semReady s @ map fst (semWaiters s)) \<and> set (semReady s @ map fst (semWaiters s)) = W \<and>
     (\<forall>(i, n)\<in>set (semWaiters s). n = 1) \<and> semCur s \<le> semSize s \<and> (semWaiters s \<noteq> [] \<longrightarrow> semCur s = semSize s)"

text \<open>After a change of a semaphore with no room for a second waiter, \<^verbatim>\<open>notifyWaiters\<close> establishes the last clause again.\<close>

lemma notifyWaiters_spec:
  assumes "\<forall>(i, n)\<in>set (semWaiters s). n = 1" "semCur s \<le> semSize s"
    and "distinct (semReady s @ map fst (semWaiters s))" "set (semReady s @ map fst (semWaiters s)) = W"
  shows "sem_ok W (notifyWaiters s) \<and> taken (notifyWaiters s) = taken s \<and> semSize (notifyWaiters s) = semSize s"
  using assms
proof (induction s rule: notifyWaiters.induct)
  case (1 s)
  show ?case
  proof (cases "semWaiters s")
    case Nil
    then show ?thesis
      using 1(2-5) by (simp add: notifyWaiters.simps [of s] sem_ok_def)
  next
    case (Cons w ws)
    then obtain i where w: "w = (i, 1)"
      using 1(2) by (cases w) auto
    show ?thesis
    proof (cases "semSize s - semCur s < 1")
      case True
      then show ?thesis
        using 1(2-5) Cons w by (simp add: notifyWaiters.simps [of s] sem_ok_def)
    next
      case False
      let ?s = "s\<lparr>semCur := semCur s + 1, semWaiters := ws, semReady := i # semReady s\<rparr>"
      have "sem_ok W (notifyWaiters ?s) \<and> taken (notifyWaiters ?s) = taken ?s \<and> semSize (notifyWaiters ?s) = semSize ?s"
        using 1(2-5) Cons w False by (intro 1(1)) auto
      then show ?thesis
        using Cons w False by (simp add: notifyWaiters.simps [of s] taken_def)
    qed
  qed
qed

lemma Acquire_enter_spec:
  assumes "Acquire_enter ctxDone i 1 s = Inr (s', r)" "sem_ok W s" "i \<notin> W"
  shows "sem_ok (if r = Waits then insert i W else W) s'" "taken s' = taken s + (if r = Acquired then 1 else 0)"
    "semSize s' = semSize s"
  using assms by (auto simp: Acquire_enter_def sem_ok_def taken_def disjoint_iff image_iff split: if_splits) (metis fst_conv)+

lemma Release_notify_spec:
  assumes "sem_ok W s" "1 \<le> taken s"
  obtains s' where "Release_notify 1 s = Inr s'" "sem_ok W s'" "taken s' = taken s - 1" "semSize s' = semSize s"
proof -
  let ?s = "s\<lparr>semCur := semCur s - 1\<rparr>"
  have "sem_ok W (notifyWaiters ?s) \<and> taken (notifyWaiters ?s) = taken ?s \<and> semSize (notifyWaiters ?s) = semSize ?s"
    using assms(1) by (intro notifyWaiters_spec) (auto simp: sem_ok_def)
  moreover have "Release_notify 1 s = Inr (notifyWaiters ?s)"
    using assms(2) by (simp add: Release_notify_def taken_def)
  ultimately show thesis
    using that by (simp add: taken_def)
qed

lemma ready_taken:
  assumes "sem_ok W s" "i \<in> set (semReady s)"
  shows "sem_ok (W - {i}) (s\<lparr>semReady := remove1 i (semReady s)\<rparr>)"
    "taken (s\<lparr>semReady := remove1 i (semReady s)\<rparr>) = taken s + 1"
proof -
  have "0 < length (semReady s)"
    using assms(2) by auto
  then show "taken (s\<lparr>semReady := remove1 i (semReady s)\<rparr>) = taken s + 1"
    using assms(2) by (simp add: taken_def length_remove1 of_nat_diff Suc_le_eq)
  show "sem_ok (W - {i}) (s\<lparr>semReady := remove1 i (semReady s)\<rparr>)"
    using assms by (auto simp: sem_ok_def)
qed

lemma Acquire_woken_spec:
  assumes "sem_ok W s" "i \<in> set (semReady s)" "0 \<le> taken s"
  shows "\<exists>s' r. Acquire_woken ctxDone i 1 s = Inr (s', r) \<and> r \<noteq> Waits \<and> sem_ok (W - {i}) s' \<and>
    taken s' = taken s + (if r = Acquired then 1 else 0) \<and> semSize s' = semSize s"
proof -
  note r = ready_taken [OF assms(1,2)]
  then obtain s' where "Release_notify 1 (s\<lparr>semReady := remove1 i (semReady s)\<rparr>) = Inr s'" "sem_ok (W - {i}) s'"
    "taken s' = taken s" "semSize s' = semSize s"
    using Release_notify_spec [OF r(1)] assms(3) by auto
  then show ?thesis
    using r by (cases ctxDone) (auto simp: Acquire_woken_def)
qed

lemma Acquire_cancelled_spec:
  assumes "sem_ok W s" "i \<in> W"
  shows "sem_ok (W - {i}) (Acquire_cancelled i 1 s) \<and> taken (Acquire_cancelled i 1 s) = taken s \<and>
    semSize (Acquire_cancelled i 1 s) = semSize s"
proof (cases "i \<in> set (semReady s)")
  case True
  let ?s = "s\<lparr>semCur := semCur s - 1, semReady := remove1 i (semReady s)\<rparr>"
  have "sem_ok (W - {i}) (notifyWaiters ?s) \<and> taken (notifyWaiters ?s) = taken ?s \<and> semSize (notifyWaiters ?s) = semSize ?s"
    using ready_taken(1) [OF assms(1) True] by (intro notifyWaiters_spec) (auto simp: sem_ok_def)
  then show ?thesis
    using ready_taken(2) [OF assms(1) True] True by (simp add: Acquire_cancelled_def taken_def)
next
  case False
  then have w: "semWaiters s \<noteq> []" "semCur s = semSize s"
    using assms by (auto simp: sem_ok_def)
  have "distinct (map fst (filter (\<lambda>(j, _). j \<noteq> i) ws))" if "distinct (map fst ws)" for ws :: "(nat \<times> int) list"
    using that by (induction ws) auto
  then show ?thesis
    using assms False w by (auto simp: Acquire_cancelled_def sem_ok_def taken_def Let_def)
qed

text \<open>
  The accounts at any moment, for a semaphore of size \<open>M\<close>: the permits taken are those of the requests in the index and those
  that callers hold, and the count of the pool lags by what callers have not counted yet.
\<close>

definition waiting_callers :: "pool_caller list \<Rightarrow> nat set" where
  "waiting_callers ts = {i. i < length ts \<and> waiting (ts ! i)}"

definition calls_inv :: "int \<Rightarrow> PoolCalls \<Rightarrow> bool" where
  "calls_inv M s \<longleftrightarrow>
     distinct (map fst (keys2Batches (pcStore s))) \<and> semSize (pcSem s) = M \<and>
     sem_ok (waiting_callers (pcCallers s)) (pcSem s) \<and>
     taken (pcSem s) = int (length (keys2Batches (pcStore s))) + (\<Sum>t\<leftarrow>pcCallers s. permits t) \<and>
     pcSize s + (\<Sum>t\<leftarrow>pcCallers s. uncounted t) = int (length (keys2Batches (pcStore s)))"

lemma sum_callers_update:
  fixes f :: "pool_caller \<Rightarrow> int"
  assumes "i < length ts"
  shows "(\<Sum>t\<leftarrow>ts[i := t']. f t) = (\<Sum>t\<leftarrow>ts. f t) - f (ts ! i) + f t'"
  using assms by (induction ts arbitrary: i) (auto split: nat.split)

lemma permits_nonneg [simp]: "0 \<le> permits t"
  by (cases t rule: permits.cases) auto

lemma permits_le_sum: "i < length ts \<Longrightarrow> permits (ts ! i) \<le> (\<Sum>t\<leftarrow>ts. permits t)"
  by (intro member_le_sum_list) auto

lemma calls_inv_caller:
  assumes "calls_inv M s" "i < length (pcCallers s)" "distinct (map fst (keys2Batches bs))" "semSize sem = M"
    and "sem_ok (if waiting t then insert i (waiting_callers (pcCallers s)) else waiting_callers (pcCallers s) - {i}) sem"
    and "taken sem = taken (pcSem s) + (int (length (keys2Batches bs)) - int (length (keys2Batches (pcStore s)))) +
      permits t - permits (pcCallers s ! i)"
    and "n = pcSize s + (int (length (keys2Batches bs)) - int (length (keys2Batches (pcStore s)))) +
      uncounted (pcCallers s ! i) - uncounted t"
  shows "calls_inv M (set_caller i t (s\<lparr>pcStore := bs, pcSem := sem, pcSize := n\<rparr>))"
proof -
  have "waiting_callers ((pcCallers s)[i := t]) =
      (if waiting t then insert i (waiting_callers (pcCallers s)) else waiting_callers (pcCallers s) - {i})"
    using assms(2) by (auto simp: waiting_callers_def nth_list_update)
  then show ?thesis
    using assms by (simp add: calls_inv_def set_caller_def sum_callers_update)
qed

text \<open>Steps of a caller that is not waiting before or after, and that leave the semaphore or the index alone.\<close>

lemma calls_inv_index:
  assumes "calls_inv M s" "i < length (pcCallers s)" "\<not> waiting t" "\<not> waiting (pcCallers s ! i)"
    and "distinct (map fst (keys2Batches bs))"
    and "int (length (keys2Batches bs)) - int (length (keys2Batches (pcStore s))) = permits (pcCallers s ! i) - permits t"
    and "n = pcSize s + permits (pcCallers s ! i) - permits t + uncounted (pcCallers s ! i) - uncounted t"
  shows "calls_inv M (set_caller i t (s\<lparr>pcStore := bs, pcSize := n\<rparr>))"
proof -
  have "i \<notin> waiting_callers (pcCallers s)"
    using assms(4) by (simp add: waiting_callers_def)
  then have "calls_inv M (set_caller i t (s\<lparr>pcStore := bs, pcSem := pcSem s, pcSize := n\<rparr>))"
    using assms by (intro calls_inv_caller) (simp_all add: calls_inv_def)
  then show ?thesis
    by simp
qed

lemma calls_inv_sem:
  assumes "calls_inv M s" "i < length (pcCallers s)" "semSize sem = M"
    and "sem_ok (if waiting t then insert i (waiting_callers (pcCallers s)) else waiting_callers (pcCallers s) - {i}) sem"
    and "taken sem = taken (pcSem s) + permits t - permits (pcCallers s ! i)" "uncounted t = uncounted (pcCallers s ! i)"
  shows "calls_inv M (set_caller i t (s\<lparr>pcSem := sem\<rparr>))"
proof -
  have "calls_inv M (set_caller i t (s\<lparr>pcStore := pcStore s, pcSem := sem, pcSize := pcSize s\<rparr>))"
    using assms by (intro calls_inv_caller) (simp_all add: calls_inv_def)
  then show ?thesis
    by simp
qed

lemma calls_inv_release:
  assumes "calls_inv M s" "i < length (pcCallers s)" "permits (pcCallers s ! i) = 1"
  obtains sem where "Release_notify 1 (pcSem s) = Inr sem" "sem_ok (waiting_callers (pcCallers s)) sem"
    "taken sem = taken (pcSem s) - 1" "semSize sem = M"
  using assms permits_le_sum [OF assms(2)] Release_notify_spec [of "waiting_callers (pcCallers s)" "pcSem s"]
  by (auto simp: calls_inv_def)

lemma permits_sum_nonneg: "0 \<le> (\<Sum>t\<leftarrow>ts. permits t)"
  by (intro sum_list_nonneg) auto

lemma taken_nonneg: "calls_inv M s \<Longrightarrow> 0 \<le> taken (pcSem s)"
  using permits_sum_nonneg [of "pcCallers s"] by (simp add: calls_inv_def)

lemma fetch_keys:
  assumes "Fetch ctxDone bs = Some (bs', requests, ids)"
  shows "keys2Batches bs' = keys2Batches bs"
proof -
  have "keys2Batches (fst (fetch_ready bs)) = keys2Batches bs" for bs
  proof (induction bs rule: fetch_ready.induct)
    case (1 bs)
    then show ?case
      by (subst fetch_ready.simps) (auto simp: dequeueBatch_def prepareBatch_def Let_def split: list.split)
  qed
  then show ?thesis
    using assms by (auto simp: Fetch_def prepareBatch_def Let_def dest!: arg_cong [of _ _ keys2Batches]
      split: if_splits prod.splits option.splits) (metis fst_conv)+
qed

lemma load_and_delete_index:
  assumes "load_and_delete k bs = (bs', found)" "distinct (map fst (keys2Batches bs))"
  shows "distinct (map fst (keys2Batches bs'))"
    "int (length (keys2Batches bs')) - int (length (keys2Batches bs)) = (if found = None then 0 else -1)"
  using assms length_alist_delete [of "keys2Batches bs" k]
  by (auto simp: load_and_delete_def distinct_delete dest!: map_of_SomeD split: option.splits) (force simp: image_iff)+

inductive_cases pool_stepE
  [consumes 1, case_names submit acquire cancelled woken add claim store enqueue inserted refused remove remove_index
    remove_entry release count removed fetch]:
  "pool_step requestID R s s'"

lemma calls_inv_same_index:
  assumes "calls_inv M s" "i < length (pcCallers s)" "\<not> waiting t" "\<not> waiting (pcCallers s ! i)"
    and "keys2Batches bs = keys2Batches (pcStore s)" "permits t = permits (pcCallers s ! i)" "uncounted t = uncounted (pcCallers s ! i)"
  shows "calls_inv M (set_caller i t (s\<lparr>pcStore := bs\<rparr>))"
proof -
  have "calls_inv M (set_caller i t (s\<lparr>pcStore := bs, pcSize := pcSize s\<rparr>))"
    using assms by (intro calls_inv_index) (simp_all add: calls_inv_def)
  then show ?thesis
    by simp
qed

text \<open>The steps that take a permit, wait for one or give one back.\<close>

lemma calls_inv_permit_step:
  assumes "calls_inv M s" "i < length (pcCallers s)"
  shows "pcCallers s ! i = Acquiring request \<Longrightarrow> Acquire_enter ctxDone i 1 (pcSem s) = Inr (sem, r) \<Longrightarrow>
      calls_inv M (set_caller i (submit_goes_on requestID request r) (s\<lparr>pcSem := sem\<rparr>))"
    and "pcCallers s ! i = Waiting request \<Longrightarrow> calls_inv M (set_caller i Idle (s\<lparr>pcSem := Acquire_cancelled i 1 (pcSem s)\<rparr>))"
    and "pcCallers s ! i = Waiting request \<Longrightarrow> i \<in> set (semReady (pcSem s)) \<Longrightarrow> Acquire_woken ctxDone i 1 (pcSem s) = Inr (sem, r) \<Longrightarrow>
      calls_inv M (set_caller i (submit_goes_on requestID request r) (s\<lparr>pcSem := sem\<rparr>))"
    and "\<not> waiting (pcCallers s ! i) \<Longrightarrow> permits (pcCallers s ! i) = 1 \<Longrightarrow> Release_notify 1 (pcSem s) = Inr sem \<Longrightarrow>
      \<not> waiting t \<Longrightarrow> permits t = 0 \<Longrightarrow> uncounted t = uncounted (pcCallers s ! i) \<Longrightarrow> calls_inv M (set_caller i t (s\<lparr>pcSem := sem\<rparr>))"
proof -
  let ?W = "waiting_callers (pcCallers s)"
  have ok: "sem_ok ?W (pcSem s)" "semSize (pcSem s) = M"
    using assms(1) by (simp_all add: calls_inv_def)
  show "calls_inv M (set_caller i (submit_goes_on requestID request r) (s\<lparr>pcSem := sem\<rparr>))"
    if a: "pcCallers s ! i = Acquiring request" "Acquire_enter ctxDone i 1 (pcSem s) = Inr (sem, r)"
  proof -
    have W: "i \<notin> ?W"
      using a(1) by (simp add: waiting_callers_def)
    show ?thesis
      using Acquire_enter_spec [OF a(2) ok(1) W] ok(2) a(1) W
      by (intro calls_inv_sem [OF assms]) (auto simp: submit_goes_on_def split: acquiring.splits)
  qed
  show "calls_inv M (set_caller i Idle (s\<lparr>pcSem := Acquire_cancelled i 1 (pcSem s)\<rparr>))" if "pcCallers s ! i = Waiting request"
    using Acquire_cancelled_spec [OF ok(1), of i] that assms(2) ok(2)
    by (intro calls_inv_sem [OF assms]) (auto simp: waiting_callers_def)
  show "calls_inv M (set_caller i (submit_goes_on requestID request r) (s\<lparr>pcSem := sem\<rparr>))"
    if "pcCallers s ! i = Waiting request" "i \<in> set (semReady (pcSem s))" "Acquire_woken ctxDone i 1 (pcSem s) = Inr (sem, r)"
    using Acquire_woken_spec [OF ok(1) that(2) taken_nonneg [OF assms(1)], of ctxDone] that ok(2)
    by (intro calls_inv_sem [OF assms]) (auto simp: submit_goes_on_def split: acquiring.splits)
  show "calls_inv M (set_caller i t (s\<lparr>pcSem := sem\<rparr>))"
    if "\<not> waiting (pcCallers s ! i)" "permits (pcCallers s ! i) = 1" "Release_notify 1 (pcSem s) = Inr sem"
      "\<not> waiting t" "permits t = 0" "uncounted t = uncounted (pcCallers s ! i)"
  proof -
    have "i \<notin> ?W"
      using that(1) by (simp add: waiting_callers_def)
    then show ?thesis
      using calls_inv_release [OF assms that(2)] that(3-6) that(2) by (intro calls_inv_sem [OF assms]) auto
  qed
qed

lemma calls_inv_step:
  assumes "pool_step requestID R s s'" "calls_inv M s"
  shows "calls_inv M s'"
  using assms(1)
proof (cases rule: pool_stepE)
  case (submit i request)
  then show ?thesis
    using calls_inv_same_index [OF assms(2), of i "Acquiring request" "pcStore s"] by simp
next
  case (remove i keys)
  then show ?thesis
    using calls_inv_same_index [OF assms(2), of i "Removing keys" "pcStore s"] by simp
next
  case (removed i)
  then show ?thesis
    using calls_inv_same_index [OF assms(2), of i Idle "pcStore s"] by simp
next
  case (add i k v bs room)
  then have "keys2Batches bs = keys2Batches (pcStore s)"
    using add_size_simps(3) by (metis fst_conv)
  then show ?thesis
    using add assms(2) by (auto intro!: calls_inv_same_index)
next
  case (claim i k v a bs new)
  then have "calls_inv M (set_caller i (Inserting (if new then Storing k v a else Returned False)) (s\<lparr>pcStore := bs, pcSize := pcSize s\<rparr>))"
    using assms(2) by (intro calls_inv_index) (auto simp: claim_key_def calls_inv_def map_of_eq_None_iff split: if_splits)
  then show ?thesis
    using claim(1) by simp
next
  case (enqueue i k v a)
  then have "keys2Batches (enqueue_batch a (pcStore s)) = keys2Batches (pcStore s)"
    by (simp add: enqueue_batch_def)
  then show ?thesis
    using enqueue calls_inv_same_index [OF assms(2) enqueue(2), of "Inserting (Start k v)"] by simp
next
  case (inserted i)
  then have "calls_inv M (set_caller i Idle (s\<lparr>pcStore := pcStore s, pcSize := pcSize s + 1\<rparr>))"
    using assms(2) by (intro calls_inv_index) (simp_all add: calls_inv_def)
  then show ?thesis
    using inserted(1) by simp
next
  case (count i keys)
  then have "calls_inv M (set_caller i (Removing keys) (s\<lparr>pcStore := pcStore s, pcSize := pcSize s - 1\<rparr>))"
    using assms(2) by (intro calls_inv_index) (simp_all add: calls_inv_def)
  then show ?thesis
    using count(1) by simp
next
  case (remove_index i k keys bs found)
  then have "calls_inv M (set_caller i (case found of None \<Rightarrow> Removing keys | Some a \<Rightarrow> Deleting k a keys)
      (s\<lparr>pcStore := bs, pcSize := pcSize s\<rparr>))"
    using assms(2) load_and_delete_index [OF remove_index(4)]
    by (intro calls_inv_index) (auto simp: calls_inv_def split: option.splits)
  then show ?thesis
    using remove_index(1) by simp
next
  case (woken i request ctxDone sem r)
  then show ?thesis
    using calls_inv_permit_step(3) [OF assms(2) woken(2-5)] by simp
next
  case (fetch ctxDone bs requests ids)
  then show ?thesis
    using assms(2) fetch_keys [OF fetch(3)] by (simp add: calls_inv_def)
qed (auto intro!: calls_inv_same_index [OF assms(2)] calls_inv_permit_step [OF assms(2)] simp: store_value_def)

lemma calls_inv_reachable:
  assumes "(pool_step requestID R)\<^sup>*\<^sup>* s s'" "calls_inv M s"
  shows "calls_inv M s'"
  using assms by (induction rule: rtranclp_induct) (auto intro: calls_inv_step)

text \<open>A caller whose next step gives back a permit.\<close>

fun gives_back :: "pool_caller \<Rightarrow> bool" where
  "gives_back (Inserting (Returned b)) \<longleftrightarrow> \<not> b"
| "gives_back (Releasing keys) \<longleftrightarrow> True"
| "gives_back _ \<longleftrightarrow> False"

text \<open>A pool of a primary that no call is in, with \<open>T\<close> callers to come.\<close>

definition pool_at_rest :: "BatchStore \<Rightarrow> int \<Rightarrow> int \<Rightarrow> int \<Rightarrow> nat \<Rightarrow> PoolCalls" where
  "pool_at_rest bs M used n T =
     \<lparr>pcStore = bs, pcSem = \<lparr>semSize = M, semCur = used, semWaiters = [], semReady = []\<rparr>, pcSize = n,
      pcCallers = replicate T Idle\<rparr>"

text \<open>
  (C13) The accounts of the pool of a primary hold for callers that interleave. Let \<open>T\<close> callers submit and remove requests (or
  prune or fetch them) in any interleaving of their atomic steps, from a pool whose permits in use and whose count are the
  number of the requests in its index, at most the size \<open>M\<close> of the semaphore. Then at any moment no \<^verbatim>\<open>Release\<close> panics, the
  requests in the index have their permits, of which at most \<open>M\<close> are in use, and no submission waits while a permit is free.
  When all calls have returned, the permits in use and the count are again the number of the requests in the index.
\<close>

theorem concurrent_pool_accounts:
  assumes "(pool_step requestID R)\<^sup>*\<^sup>* (pool_at_rest bs M n n T) s"
    and "distinct (map fst (keys2Batches bs))" "n = int (length (keys2Batches bs))" "n \<le> M"
  shows "(\<forall>i < length (pcCallers s). gives_back (pcCallers s ! i) \<longrightarrow> (\<exists>sem. Release_notify 1 (pcSem s) = Inr sem)) \<and>
    (\<forall>i\<in>set (semReady (pcSem s)). \<forall>ctxDone. \<exists>r. Acquire_woken ctxDone i 1 (pcSem s) = Inr r) \<and>
    int (length (keys2Batches (pcStore s))) \<le> semCur (pcSem s) \<and> semCur (pcSem s) \<le> M \<and>
    (\<forall>i < length (pcCallers s). waiting (pcCallers s ! i) \<longrightarrow> i \<in> set (semReady (pcSem s)) \<or> semCur (pcSem s) = M) \<and>
    (set (pcCallers s) \<subseteq> {Idle} \<longrightarrow>
      semCur (pcSem s) = int (length (keys2Batches (pcStore s))) \<and> pcSize s = int (length (keys2Batches (pcStore s))))"
proof -
  have start: "calls_inv M (pool_at_rest bs M n n T)"
    using assms(2-4) by (simp add: calls_inv_def pool_at_rest_def sem_ok_def taken_def waiting_callers_def sum_list_replicate)
  have inv: "calls_inv M s"
    by (rule calls_inv_reachable [OF assms(1) start])
  then have ok: "sem_ok (waiting_callers (pcCallers s)) (pcSem s)" "semSize (pcSem s) = M"
    "taken (pcSem s) = int (length (keys2Batches (pcStore s))) + (\<Sum>t\<leftarrow>pcCallers s. permits t)"
    "pcSize s + (\<Sum>t\<leftarrow>pcCallers s. uncounted t) = int (length (keys2Batches (pcStore s)))"
    by (simp_all add: calls_inv_def)
  have "permits t = 1" if "gives_back t" for t
    using that by (cases t rule: gives_back.cases) auto
  then have "\<exists>sem. Release_notify 1 (pcSem s) = Inr sem" if "i < length (pcCallers s)" "gives_back (pcCallers s ! i)" for i
    using calls_inv_release [OF inv that(1)] that(2) by blast
  moreover have "\<exists>r. Acquire_woken ctxDone i 1 (pcSem s) = Inr r" if "i \<in> set (semReady (pcSem s))" for i ctxDone
    using Acquire_woken_spec [OF ok(1) that taken_nonneg [OF inv]] by blast
  moreover have "i \<in> set (semReady (pcSem s)) \<or> semCur (pcSem s) = M" if "i < length (pcCallers s)" "waiting (pcCallers s ! i)" for i
    using ok(1,2) that unfolding sem_ok_def waiting_callers_def by auto
  moreover have "semReady (pcSem s) = [] \<and> (\<Sum>t\<leftarrow>pcCallers s. permits t) = 0 \<and> (\<Sum>t\<leftarrow>pcCallers s. uncounted t) = 0"
    if idle: "set (pcCallers s) \<subseteq> {Idle}"
  proof -
    have "waiting_callers (pcCallers s) = {}" "map permits (pcCallers s) = map (\<lambda>_. 0) (pcCallers s)"
      "map uncounted (pcCallers s) = map (\<lambda>_. 0) (pcCallers s)"
      using idle by (auto simp: waiting_callers_def subset_iff dest!: nth_mem)
    then show ?thesis
      using ok(1) by (simp add: sem_ok_def del: map_eq_conv)
  qed
  ultimately show ?thesis
    using ok permits_sum_nonneg [of "pcCallers s"] by (auto simp: sem_ok_def taken_def)
qed

text \<open>Two submissions to a pool for one request: the second one waits.\<close>

definition ex_waiting_pool :: PoolCalls where
  "ex_waiting_pool =
     \<lparr>pcStore = NewBatchStore 2 10, pcSem = \<lparr>semSize = 1, semCur = 1, semWaiters = [(1, 1)], semReady = []\<rparr>, pcSize = 0,
      pcCallers = [Inserting (Start [] [7]), Waiting [8]]\<rparr>"

lemma ex_waiting_reached:
  "(pool_step (\<lambda>_. []) 1)\<^sup>*\<^sup>* (pool_at_rest (NewBatchStore 2 10) 1 0 0 2) ex_waiting_pool"
proof -
  let ?s0 = "pool_at_rest (NewBatchStore 2 10) 1 0 0 2"
  let ?s1 = "set_caller 0 (Acquiring [7]) ?s0"
  let ?s2 = "set_caller 0 (submit_goes_on (\<lambda>_. []) [7] Acquired) (?s1\<lparr>pcSem := (pcSem ?s1)\<lparr>semCur := 1\<rparr>\<rparr>)"
  let ?s3 = "set_caller 1 (Acquiring [8]) ?s2"
  let ?s4 = "set_caller 1 (submit_goes_on (\<lambda>_. []) [8] Waits) (?s3\<lparr>pcSem := (pcSem ?s3)\<lparr>semWaiters := [(1, 1)]\<rparr>\<rparr>)"
  have "pool_step (\<lambda>_. []) 1 ?s0 ?s1" "pool_step (\<lambda>_. []) 1 ?s2 ?s3"
    by (rule pool_step.submit; simp add: pool_at_rest_def set_caller_def numeral_2_eq_2)+
  moreover have "pool_step (\<lambda>_. []) 1 ?s1 ?s2" "pool_step (\<lambda>_. []) 1 ?s3 ?s4"
    by (rule pool_step.acquire [where ctxDone = False]; simp add: pool_at_rest_def set_caller_def Acquire_enter_def numeral_2_eq_2)+
  moreover have "?s4 = ex_waiting_pool"
    by (simp add: ex_waiting_pool_def pool_at_rest_def set_caller_def submit_goes_on_def numeral_2_eq_2)
  ultimately show ?thesis
    by (metis (no_types, lifting) rtranclp.rtrancl_into_rtrancl rtranclp.rtrancl_refl)
qed

theorem concurrent_pool_accounts_witness:
  "waiting (pcCallers ex_waiting_pool ! 1) \<and> 1 \<notin> set (semReady (pcSem ex_waiting_pool)) \<and>
   semCur (pcSem ex_waiting_pool) = 1"
proof -
  have "waiting (pcCallers ex_waiting_pool ! 1)" "1 \<notin> set (semReady (pcSem ex_waiting_pool))" "1 < length (pcCallers ex_waiting_pool)"
    by (simp_all add: ex_waiting_pool_def)
  then show ?thesis
    using concurrent_pool_accounts [OF ex_waiting_reached] by (auto simp: NewBatchStore_def)
qed

end
