(* ===== verification/BADB.thy ===== *)
theory BADB
  imports Prelude "HOL-Library.AList"
begin

text \<open>
  The database of ordered batch digests (\<^verbatim>\<open>src/node/consensus/badb/badb.go\<close>). It is kept in a leveldb
  store, which is a parameter: the record \<open>kv_lib\<close> of the calls the code makes. What the code relies
  on is the locale \<open>kv_failing\<close>: the contents are a map, and calls that do not fail read it, write it or list its keys
  with a prefix; any call may fail, and a closed store says so on reading. A store that is open and never fails is a
  \<open>kv_store\<close>; with it the database has the contract \<open>attestation_db\<close>, a set of digests with membership and insertion.
\<close>

section \<open>The store\<close>

datatype kv_op = OpPut bytes bytes | OpDelete bytes

datatype kv_get = Found bytes | ErrNotFound | ErrClosed | ErrOther error

record 'db kv_lib =
  kv_Get :: "'db \<Rightarrow> bytes \<Rightarrow> kv_get"
  kv_Write :: "'db \<Rightarrow> kv_op list \<Rightarrow> error + 'db"
  kv_Iterate :: "'db \<Rightarrow> bytes \<Rightarrow> error + (bytes \<times> bytes) list"

section \<open>Keys\<close>

definition makeDigestKey :: "bytes \<Rightarrow> bytes" where
  "makeDigestKey digest = 0 # digest"

definition makeEpochKey :: "bytes \<Rightarrow> bytes \<Rightarrow> bytes" where
  "makeEpochKey digest epoch = 1 # epoch @ digest"

section \<open>Operations\<close>

definition BADB_Exists :: "'db kv_lib \<Rightarrow> 'db \<Rightarrow> bytes \<Rightarrow> fault + bool" where
  "BADB_Exists S db digest =
     (case kv_Get S db (makeDigestKey digest) of
        Found _ \<Rightarrow> Inr True
      | ErrNotFound \<Rightarrow> Inr False
      | ErrClosed \<Rightarrow> Inr False
      | ErrOther _ \<Rightarrow> Inl (Panicked ''Failed reading from database''))"

fun put_ops :: "bytes list \<Rightarrow> u64 list \<Rightarrow> fault + kv_op list" where
  "put_ops [] epochs = Inr []"
| "put_ops (d # ds) [] = Inl IndexOutOfRange"
| "put_ops (d # ds) (e # es) =
     res_bind (put_ops ds es) (\<lambda>ops.
     Inr (OpPut (makeDigestKey d) (put64 e) # OpPut (makeEpochKey d (put64 e)) [0] # ops))"

definition BADB_Put :: "'db kv_lib \<Rightarrow> 'db \<Rightarrow> bytes list \<Rightarrow> u64 list \<Rightarrow> fault + 'db" where
  "BADB_Put S db digest epoch =
     res_bind (put_ops digest epoch) (\<lambda>batch.
     wrap_err (\<lambda>e. Panicked ''Failed updating database'') (kv_Write S db batch))"

fun clean_ops :: "u64 \<Rightarrow> (bytes \<times> bytes) list \<Rightarrow> fault + kv_op list" where
  "clean_ops epochToDelete [] = Inr []"
| "clean_ops epochToDelete ((epochKey, v) # kvs) =
     (if length epochKey < 9 then Inl IndexOutOfRange
      else
        let epochBuff = drop 1 epochKey; epoch = get64 (take 8 epochBuff); digest = drop 8 epochBuff in
        res_bind (clean_ops epochToDelete kvs) (\<lambda>ops.
        Inr (if epoch \<ge> epochToDelete then ops
             else OpDelete (makeDigestKey digest) # OpDelete epochKey # ops)))"

definition BADB_Clean :: "'db kv_lib \<Rightarrow> 'db \<Rightarrow> u64 \<Rightarrow> fault + 'db" where
  "BADB_Clean S db epochToDelete =
     (case kv_Iterate S db [1] of
        Inl e \<Rightarrow> Inl (Panicked ''Failed iterating over database'')
      | Inr kvs \<Rightarrow>
          res_bind (clean_ops epochToDelete kvs) (\<lambda>batch.
          wrap_err (\<lambda>e. Panicked ''Failed updating database'') (kv_Write S db batch)))"

fun list_entries :: "(bytes \<times> bytes) list \<Rightarrow> fault + (bytes \<times> u64) list" where
  "list_entries [] = Inr []"
| "list_entries ((k, v) # kvs) =
     (case k of
        [] \<Rightarrow> Inl IndexOutOfRange
      | b # digest \<Rightarrow>
          if b \<noteq> 0 then list_entries kvs
          else if length v < 8 then Inl IndexOutOfRange
          else res_bind (list_entries kvs) (\<lambda>rest. Inr ((digest, get64 v) # rest)))"

text \<open>\<^verbatim>\<open>List\<close> does not look at the iterator's error: it returns what was read before it, here nothing.\<close>

definition BADB_List :: "'db kv_lib \<Rightarrow> 'db \<Rightarrow> fault + bytes list \<times> u64 list" where
  "BADB_List S db =
     res_bind (list_entries (case kv_Iterate S db [] of Inl e \<Rightarrow> [] | Inr kvs \<Rightarrow> kvs)) (\<lambda>es.
     Inr (map fst es, map snd es))"

section \<open>What the store promises\<close>

fun apply_op :: "kv_op \<Rightarrow> (bytes \<rightharpoonup> bytes) \<Rightarrow> (bytes \<rightharpoonup> bytes)" where
  "apply_op (OpPut k v) m = m(k \<mapsto> v)"
| "apply_op (OpDelete k) m = m(k := None)"

locale kv_failing =
  fixes S :: "'db kv_lib" and contents :: "'db \<Rightarrow> bytes \<rightharpoonup> bytes" and is_closed :: "'db \<Rightarrow> bool"
  assumes get_found: "kv_Get S db k = Found v \<Longrightarrow> contents db k = Some v"
    and get_absent: "kv_Get S db k = ErrNotFound \<Longrightarrow> contents db k = None"
    and get_closed: "kv_Get S db k = ErrClosed \<longleftrightarrow> is_closed db"
    and write_done: "kv_Write S db ops = Inr db' \<Longrightarrow> contents db' = fold apply_op ops (contents db)"
    and iterate_done: "kv_Iterate S db p = Inr kvs \<Longrightarrow>
      set kvs = {(k, v). contents db k = Some v \<and> take (length p) k = p} \<and> distinct (map fst kvs)"

locale kv_store =
  fixes S :: "'db kv_lib" and contents :: "'db \<Rightarrow> bytes \<rightharpoonup> bytes"
  assumes get_law: "kv_Get S db k = (case contents db k of None \<Rightarrow> ErrNotFound | Some v \<Rightarrow> Found v)"
    and write_law: "\<exists>db'. kv_Write S db ops = Inr db' \<and> contents db' = fold apply_op ops (contents db)"
    and iterate_law: "\<exists>kvs. kv_Iterate S db p = Inr kvs \<and>
      set kvs = {(k, v). contents db k = Some v \<and> take (length p) k = p} \<and> distinct (map fst kvs)"

sublocale kv_store \<subseteq> kv_failing S contents "\<lambda>_. False"
proof
  show "contents db k = Some v" if "kv_Get S db k = Found v" for db k v
    using that by (simp add: get_law split: option.splits)
  show "contents db k = None" if "kv_Get S db k = ErrNotFound" for db k
    using that by (simp add: get_law split: option.splits)
  show "kv_Get S db k = ErrClosed \<longleftrightarrow> False" for db k
    by (simp add: get_law split: option.split)
  show "contents db' = fold apply_op ops (contents db)" if "kv_Write S db ops = Inr db'" for db ops db'
    using that write_law [of db ops] by auto
  show "set kvs = {(k, v). contents db k = Some v \<and> take (length p) k = p} \<and> distinct (map fst kvs)"
    if "kv_Iterate S db p = Inr kvs" for db p kvs
    using that iterate_law [of db p] by auto
qed

section \<open>What the database promises\<close>

locale attestation_db =
  fixes exists_in :: "'db \<Rightarrow> bytes \<Rightarrow> fault + bool"
    and put_in :: "'db \<Rightarrow> bytes list \<Rightarrow> u64 list \<Rightarrow> fault + 'db"
    and digests :: "'db \<Rightarrow> bytes set"
  assumes exists_law: "exists_in db d = Inr (d \<in> digests db)"
    and put_law: "length es = length ds \<Longrightarrow> \<exists>db'. put_in db ds es = Inr db' \<and> digests db' = digests db \<union> set ds"
begin

text \<open>Indexing is idempotent, and everything indexed is found.\<close>

lemma put_found:
  assumes "length es = length ds" "put_in db ds es = Inr db'"
  shows "exists_in db' d = Inr (d \<in> set ds \<or> d \<in> digests db)"
  using put_law [OF assms(1), of db] assms(2) exists_law by auto

lemma put_twice:
  assumes "length es = length ds" "put_in db ds es = Inr db1" "put_in db1 ds es = Inr db2"
  shows "exists_in db2 d = exists_in db1 d"
proof -
  have "digests db1 = digests db \<union> set ds" "digests db2 = digests db1 \<union> set ds"
    using put_law [OF assms(1)] assms(2,3) by (metis Inr_inject)+
  then show ?thesis by (simp add: exists_law)
qed

end

definition indexed :: "('db \<Rightarrow> bytes \<rightharpoonup> bytes) \<Rightarrow> 'db \<Rightarrow> bytes set" where
  "indexed contents db = {d. contents db (makeDigestKey d) \<noteq> None}"

lemma keys_differ [simp]:
  "makeDigestKey d = makeDigestKey d' \<longleftrightarrow> d = d'" "makeDigestKey d \<noteq> makeEpochKey d' e"
  "makeEpochKey d' e \<noteq> makeDigestKey d"
  by (simp_all add: makeDigestKey_def makeEpochKey_def)

lemma put_ops_total: "length es = length ds \<Longrightarrow> \<exists>ops. put_ops ds es = Inr ops"
  by (induction ds es rule: put_ops.induct) auto

lemma put_ops_contents:
  "put_ops ds es = Inr ops \<Longrightarrow>
   fold apply_op ops m (makeDigestKey d) \<noteq> None \<longleftrightarrow> d \<in> set ds \<or> m (makeDigestKey d) \<noteq> None"
proof (induction ds es arbitrary: ops m rule: put_ops.induct)
  case (3 a ds e es)
  then obtain ops' where ops': "put_ops ds es = Inr ops'"
    "ops = OpPut (makeDigestKey a) (put64 e) # OpPut (makeEpochKey a (put64 e)) [0] # ops'"
    by (auto simp: res_bind_Inr_iff)
  show ?case
    using 3 (1) [OF ops'(1)] by (auto simp add: ops'(2) simp del: not_None_eq)
qed simp_all

sublocale kv_store \<subseteq> attestation_db "BADB_Exists S" "BADB_Put S" "indexed contents"
proof
  show "BADB_Exists S db d = Inr (d \<in> indexed contents db)" for db d
    by (simp add: BADB_Exists_def get_law indexed_def split: option.split)
  show "\<exists>db'. BADB_Put S db ds es = Inr db' \<and> indexed contents db' = indexed contents db \<union> set ds"
    if l: "length es = length ds" for es ds db
  proof -
    obtain ops where ops: "put_ops ds es = Inr ops"
      using put_ops_total [OF l] by blast
    obtain db' where db': "kv_Write S db ops = Inr db'" "contents db' = fold apply_op ops (contents db)"
      using write_law by blast
    then have "indexed contents db' = indexed contents db \<union> set ds"
      using put_ops_contents [OF ops] unfolding indexed_def by auto
    then show ?thesis
      using ops db'(1) by (simp add: BADB_Put_def)
  qed
qed

section \<open>Cleaning old epochs\<close>

text \<open>The keys of the epoch index hold an epoch and a digest.\<close>

definition badb_wf :: "(bytes \<rightharpoonup> bytes) \<Rightarrow> bool" where
  "badb_wf m \<longleftrightarrow> (\<forall>k v. m k = Some v \<longrightarrow> take 1 k = [1] \<longrightarrow> 9 \<le> length k)"

definition epochs_of :: "(bytes \<rightharpoonup> bytes) \<Rightarrow> bytes \<Rightarrow> u64 set" where
  "epochs_of m d = {e. m (makeEpochKey d (put64 e)) \<noteq> None}"

lemma badb_wf_put: "put_ops ds es = Inr ops \<Longrightarrow> badb_wf m \<Longrightarrow> badb_wf (fold apply_op ops m)"
proof (induction ds es arbitrary: ops m rule: put_ops.induct)
  case (3 a ds e es)
  then obtain ops' where ops': "put_ops ds es = Inr ops'"
    "ops = OpPut (makeDigestKey a) (put64 e) # OpPut (makeEpochKey a (put64 e)) [0] # ops'"
    by (auto simp: res_bind_Inr_iff)
  have "badb_wf (m(makeDigestKey a \<mapsto> put64 e, makeEpochKey a (put64 e) \<mapsto> [0]))"
    using 3 (3) by (auto simp: badb_wf_def makeDigestKey_def makeEpochKey_def)
  from 3 (1) [OF ops'(1) this] show ?case
    by (simp only: ops'(2) fold_simps apply_op.simps)
qed simp_all

lemma clean_ops_total:
  "(\<forall>(k, v) \<in> set kvs. 9 \<le> length k) \<Longrightarrow> \<exists>ops. clean_ops e kvs = Inr ops"
  by (induction e kvs rule: clean_ops.induct) (fastforce simp: Let_def)+

lemma clean_ops_digest:
  "clean_ops e kvs = Inr ops \<Longrightarrow> \<forall>(k, v) \<in> set kvs. take 1 k = [1] \<Longrightarrow>
   fold apply_op ops m (makeDigestKey d) =
     (if \<exists>(k, v) \<in> set kvs. get64 (take 8 (drop 1 k)) < e \<and> drop 9 k = d then None
      else m (makeDigestKey d))"
proof (induction e kvs arbitrary: ops m rule: clean_ops.induct)
  case (2 e k v kvs)
  then obtain ops' where ops': "clean_ops e kvs = Inr ops'" "9 \<le> length k"
    "ops = (if get64 (take 8 (drop 1 k)) \<ge> e then ops'
       else OpDelete (makeDigestKey (drop 8 (drop 1 k))) # OpDelete k # ops')"
    by (auto simp: res_bind_Inr_iff Let_def split: if_splits)
  have IH: "fold apply_op ops' m (makeDigestKey d) =
      (if \<exists>(k, v) \<in> set kvs. get64 (take 8 (drop 1 k)) < e \<and> drop 9 k = d then None
       else m (makeDigestKey d))" for m
    using 2 (1) [OF _ refl refl refl ops'(1)] ops'(2) 2 (3) by simp
  have "k \<noteq> makeDigestKey d"
    using 2 (3) by (auto simp: makeDigestKey_def)
  then show ?case
    using ops'(2) by (auto simp: ops'(3) IH not_le)
qed simp

text \<open>The keys of the epoch index that an iteration lists, by their epoch and digest.\<close>

lemma epoch_key:
  assumes "take 1 k = [1]" "9 \<le> length k"
  shows "makeEpochKey d (put64 e) = k \<longleftrightarrow> get64 (take 8 (drop 1 k)) = e \<and> drop 9 k = d"
proof -
  obtain k' where k: "k = 1 # k'" "8 \<le> length k'"
    using assms by (cases k) auto
  have "put64 (get64 (take 8 k')) = take 8 k'"
    using k(2) be_put_get [of "take 8 k'"] be_get_less [of "take 8 k'"]
    by (simp add: put64_def get64_def unat_of_nat)
  then show ?thesis
    using k by (auto simp: makeEpochKey_def)
qed

lemma old_epochs:
  assumes kvs: "set kvs = {(k, v). m k = Some v \<and> take 1 k = [1]}" and "badb_wf m"
  shows "(\<exists>(k, v) \<in> set kvs. get64 (take 8 (drop 1 k)) < e \<and> drop 9 k = d) \<longleftrightarrow> (\<exists>e'\<in>epochs_of m d. e' < e)"
proof
  assume "\<exists>(k, v) \<in> set kvs. get64 (take 8 (drop 1 k)) < e \<and> drop 9 k = d"
  then obtain k v where kv: "(k, v) \<in> set kvs" "get64 (take 8 (drop 1 k)) < e" "drop 9 k = d"
    by auto
  then have "m k = Some v" "take 1 k = [1]" "9 \<le> length k"
    using assms by (auto simp: badb_wf_def)
  then show "\<exists>e'\<in>epochs_of m d. e' < e"
    using kv epoch_key [of k d "get64 (take 8 (drop 1 k))"]
    by (intro bexI [of _ "get64 (take 8 (drop 1 k))"]) (auto simp: epochs_of_def)
next
  assume "\<exists>e'\<in>epochs_of m d. e' < e"
  then obtain e' v where e': "e' < e" "m (makeEpochKey d (put64 e')) = Some v"
    by (auto simp: epochs_of_def)
  then have "(makeEpochKey d (put64 e'), v) \<in> set kvs"
    using kvs by (simp add: makeEpochKey_def)
  then show "\<exists>(k, v) \<in> set kvs. get64 (take 8 (drop 1 k)) < e \<and> drop 9 k = d"
    using e'(1) by (intro bexI [of _ "(makeEpochKey d (put64 e'), v)"]) (auto simp: makeEpochKey_def)
qed

context kv_store
begin

lemmas set_laws = exists_law put_law

end

context kv_failing
begin

lemma exists_outcome:
  "case BADB_Exists S db d of
     Inl f \<Rightarrow> f = Panicked ''Failed reading from database'' \<and> (\<exists>e. kv_Get S db (makeDigestKey d) = ErrOther e)
   | Inr b \<Rightarrow> b \<longleftrightarrow> \<not> is_closed db \<and> d \<in> indexed contents db"
  using get_found [of db "makeDigestKey d"] get_absent [of db "makeDigestKey d"] get_closed [of db "makeDigestKey d"]
  by (cases "kv_Get S db (makeDigestKey d)") (auto simp: BADB_Exists_def indexed_def)

lemma put_outcome:
  assumes "length es = length ds"
  shows "case BADB_Put S db ds es of
      Inl f \<Rightarrow> f = Panicked ''Failed updating database'' \<and> (\<exists>e. kv_Write S db (projr (put_ops ds es)) = Inl e)
    | Inr db' \<Rightarrow> indexed contents db' = indexed contents db \<union> set ds \<and> (badb_wf (contents db) \<longrightarrow> badb_wf (contents db'))"
proof -
  obtain ops where ops: "put_ops ds es = Inr ops"
    using put_ops_total [OF assms] by blast
  show ?thesis
    using write_done [of db ops] put_ops_contents [OF ops, of "contents db"] badb_wf_put [OF ops]
    by (cases "kv_Write S db ops") (auto simp: BADB_Put_def ops indexed_def wrap_err_def)
qed

lemma clean_outcome:
  assumes "badb_wf (contents db)"
  shows "case BADB_Clean S db e of
      Inl f \<Rightarrow> (\<exists>err. kv_Iterate S db [1] = Inl err) \<or> (\<exists>ops err. kv_Write S db ops = Inl err)
    | Inr db' \<Rightarrow> indexed contents db' = {d \<in> indexed contents db. \<forall>e'\<in>epochs_of (contents db) d. e \<le> e'}"
proof (cases "kv_Iterate S db [1]")
  case (Inr kvs)
  then have kvs: "set kvs = {(k, v). contents db k = Some v \<and> take 1 k = [1]}"
    using iterate_done [of db "[1]" kvs] by simp
  then have len: "\<forall>(k, v) \<in> set kvs. 9 \<le> length k" and one: "\<forall>(k, v) \<in> set kvs. take 1 k = [1]"
    using assms by (auto simp: badb_wf_def)
  obtain ops where ops: "clean_ops e kvs = Inr ops"
    using clean_ops_total [OF len] by blast
  have "indexed contents db' = {d \<in> indexed contents db. \<forall>e'\<in>epochs_of (contents db) d. e \<le> e'}"
    if "kv_Write S db ops = Inr db'" for db'
    using clean_ops_digest [OF ops one, of "contents db"] write_done [OF that] old_epochs [OF kvs assms]
    by (auto simp: indexed_def not_le [symmetric])
  then show ?thesis
    using ops Inr by (cases "kv_Write S db ops") (auto simp: BADB_Clean_def wrap_err_def)
qed (simp add: BADB_Clean_def)

end

section \<open>A store of association lists\<close>

fun alist_op :: "kv_op \<Rightarrow> (bytes \<times> bytes) list \<Rightarrow> (bytes \<times> bytes) list" where
  "alist_op (OpPut k v) m = AList.update k v m"
| "alist_op (OpDelete k) m = AList.delete k m"

definition alist_kv :: "(bytes \<times> bytes) list kv_lib" where
  "alist_kv =
     \<lparr>kv_Get = \<lambda>m k. (case map_of m k of None \<Rightarrow> ErrNotFound | Some v \<Rightarrow> Found v),
      kv_Write = \<lambda>m ops. Inr (fold alist_op ops m),
      kv_Iterate = \<lambda>m p. Inr (filter (\<lambda>(k, v). take (length p) k = p) (AList.clearjunk m))\<rparr>"

lemma map_of_alist_ops: "map_of (fold alist_op ops m) = fold apply_op ops (map_of m)"
proof (induction ops arbitrary: m)
  case (Cons op ops)
  have "map_of (alist_op op m) = apply_op op (map_of m)"
    by (cases op) (simp_all add: update_conv' delete_conv')
  then show ?case
    using Cons by simp
qed simp

interpretation badb: kv_store alist_kv map_of
proof
  show "kv_Get alist_kv db k = (case map_of db k of None \<Rightarrow> ErrNotFound | Some v \<Rightarrow> Found v)" for db k
    by (simp add: alist_kv_def)
  show "\<exists>db'. kv_Write alist_kv db ops = Inr db' \<and> map_of db' = fold apply_op ops (map_of db)" for db ops
    by (simp add: alist_kv_def map_of_alist_ops)
  show "\<exists>kvs. kv_Iterate alist_kv db p = Inr kvs \<and>
      set kvs = {(k, v). map_of db k = Some v \<and> take (length p) k = p} \<and> distinct (map fst kvs)" for db p
  proof -
    have "(k, v) \<in> set (AList.clearjunk db) \<longleftrightarrow> map_of db k = Some v" for k v
      by (metis distinct_clearjunk map_of_clearjunk map_of_eq_Some_iff)
    then show ?thesis
      by (auto simp: alist_kv_def distinct_map_filter)
  qed
qed

text \<open>A store that may have been closed: the first component tells.\<close>

definition closable_kv :: "(bool \<times> (bytes \<times> bytes) list) kv_lib" where
  "closable_kv =
     \<lparr>kv_Get = \<lambda>(c, m) k. (if c then ErrClosed else kv_Get alist_kv m k),
      kv_Write = \<lambda>(c, m) ops. (if c then Inl (ErrNew ''leveldb: closed'') else map_sum id (Pair c) (kv_Write alist_kv m ops)),
      kv_Iterate = \<lambda>(c, m) p. (if c then Inl (ErrNew ''leveldb: closed'') else kv_Iterate alist_kv m p)\<rparr>"

interpretation closable: kv_failing closable_kv "map_of \<circ> snd" fst
proof
  show "(map_of \<circ> snd) db k = Some v" if "kv_Get closable_kv db k = Found v" for db k v
    using that badb.get_found by (cases db) (auto simp: closable_kv_def split: if_splits)
  show "(map_of \<circ> snd) db k = None" if "kv_Get closable_kv db k = ErrNotFound" for db k
    using that badb.get_absent by (cases db) (auto simp: closable_kv_def split: if_splits)
  show "kv_Get closable_kv db k = ErrClosed \<longleftrightarrow> fst db" for db k
    using badb.get_closed by (cases db) (simp add: closable_kv_def)
  show "(map_of \<circ> snd) db' = fold apply_op ops ((map_of \<circ> snd) db)" if "kv_Write closable_kv db ops = Inr db'" for db ops db'
    using that by (cases db) (auto simp: closable_kv_def alist_kv_def map_of_alist_ops split: if_splits)
  show "set kvs = {(k, v). (map_of \<circ> snd) db k = Some v \<and> take (length p) k = p} \<and> distinct (map fst kvs)"
    if "kv_Iterate closable_kv db p = Inr kvs" for db p kvs
    using that badb.iterate_done by (cases db) (auto simp: closable_kv_def split: if_splits)
qed

section \<open>Properties\<close>

text \<open>
  (C32) The database refines a set of digests on a store whose calls may fail. \<^verbatim>\<open>Put\<close> panics only when the store refuses
  its write, and otherwise adds exactly the digests given; to put them again changes nothing. \<^verbatim>\<open>Exists\<close> answers membership
  while the store is open and absence once it is closed, and panics only on another error of reading. \<^verbatim>\<open>Clean\<close> keeps
  exactly the digests that have no epoch below the limit, and panics only if the iteration or the write fails, given that
  the keys of the epoch index are as \<^verbatim>\<open>Put\<close> writes them, which it keeps so.
\<close>

theorem badb_refines_set:
  assumes "kv_failing S contents is_closed" and "length es = length ds"
  shows "(case BADB_Put S db ds es of
       Inl f \<Rightarrow> f = Panicked ''Failed updating database'' \<and> (\<exists>e. kv_Write S db (projr (put_ops ds es)) = Inl e)
     | Inr db' \<Rightarrow> indexed contents db' = indexed contents db \<union> set ds \<and> (badb_wf (contents db) \<longrightarrow> badb_wf (contents db')) \<and>
         (\<forall>db''. BADB_Put S db' ds es = Inr db'' \<longrightarrow> indexed contents db'' = indexed contents db')) \<and>
    (case BADB_Exists S db d of
       Inl f \<Rightarrow> f = Panicked ''Failed reading from database'' \<and> (\<exists>e. kv_Get S db (makeDigestKey d) = ErrOther e)
     | Inr b \<Rightarrow> b \<longleftrightarrow> \<not> is_closed db \<and> d \<in> indexed contents db) \<and>
    (badb_wf (contents db) \<longrightarrow>
      (case BADB_Clean S db e of
         Inl f \<Rightarrow> (\<exists>err. kv_Iterate S db [1] = Inl err) \<or> (\<exists>ops err. kv_Write S db ops = Inl err)
       | Inr db' \<Rightarrow> indexed contents db' = {d \<in> indexed contents db. \<forall>e'\<in>epochs_of (contents db) d. e \<le> e'}))"
proof (intro conjI impI)
  note put = kv_failing.put_outcome [OF assms]
  have again: "indexed contents db'' = indexed contents db'"
    if "BADB_Put S db ds es = Inr db'" "BADB_Put S db' ds es = Inr db''" for db' db''
    using put [of db] put [of db'] that by simp
  show "case BADB_Put S db ds es of
       Inl f \<Rightarrow> f = Panicked ''Failed updating database'' \<and> (\<exists>e. kv_Write S db (projr (put_ops ds es)) = Inl e)
     | Inr db' \<Rightarrow> indexed contents db' = indexed contents db \<union> set ds \<and> (badb_wf (contents db) \<longrightarrow> badb_wf (contents db')) \<and>
         (\<forall>db''. BADB_Put S db' ds es = Inr db'' \<longrightarrow> indexed contents db'' = indexed contents db')"
    using put [of db] again by (cases "BADB_Put S db ds es") simp_all
qed (rule kv_failing.exists_outcome [OF assms(1)], rule kv_failing.clean_outcome [OF assms(1)])

theorem badb_refines_set_witness:
  "\<exists>db'. BADB_Put closable_kv (False, []) [[1], [2]] [0, 0] = Inr db' \<and>
    [2] \<in> indexed (map_of \<circ> snd) db' \<and> BADB_Exists closable_kv (True, snd db') [2] = Inr False"
proof -
  note at = badb_refines_set [OF closable.kv_failing_axioms, of "[0, 0]" "[[1], [2]]"]
  obtain db' where db': "BADB_Put closable_kv (False, []) [[1], [2]] [0, 0] = Inr db'"
    by (simp add: BADB_Put_def closable_kv_def alist_kv_def)
  moreover have "\<not> isl (BADB_Exists closable_kv (True, snd db') [2])"
    by (simp add: BADB_Exists_def closable_kv_def)
  ultimately show ?thesis
    using at [of "(False, [])"] at [of "(True, snd db')" "[2]"]
    by (cases "BADB_Exists closable_kv (True, snd db') [2]") auto
qed

text \<open>
  A digest that was put again in a later epoch is still removed with its first epoch: the entry of
  the first epoch is not updated by the second put.
\<close>

lemma clean_drops_reindexed:
  assumes "kv_failing S contents is_closed" "badb_wf (contents db)" "e \<in> epochs_of (contents db) d" "e < limit"
    and "BADB_Clean S db limit = Inr db'" "BADB_Exists S db' d = Inr b"
  shows "\<not> b"
  using kv_failing.clean_outcome [OF assms(1,2), of limit] kv_failing.exists_outcome [OF assms(1), of db' d] assms(3-6)
  by fastforce

end
