(* ===== verification/Consenter.thy ===== *)
theory Consenter
  imports StateProcess BADB
begin

text \<open>
  The consenter (\<^verbatim>\<open>src/node/consensus/consenter.go\<close>): a round of requests is parsed, fragments of
  batches that were already ordered are dropped, the state machine makes its transition, and the
  extracted fragments are grouped by batch. The database of ordered digests is reached through its
  \<^verbatim>\<open>Exists\<close> and \<^verbatim>\<open>Put\<close> calls only. The change of the state at a reconfiguration is that of
  \<^verbatim>\<open>src/node/consensus/consensus_config_applier.go\<close>.
\<close>

section \<open>Operations\<close>

definition requestsToControlEvents ::
  "fabric_lib \<Rightarrow> pControlEvent proto_lib \<Rightarrow> bytes list \<Rightarrow> error + ControlEvent list" where
  "requestsToControlEvents L P requests = map_res (ControlEvent_FromBytes L P) requests"

datatype batchIDKey = BatchIDKey (idk_shard: ShardID) (idk_primary: PartyID) (idk_seq: BatchSequence) (idk_digest: bytes)

definition batchIDKeyOf :: "BAF \<Rightarrow> batchIDKey" where
  "batchIDKeyOf baf = BatchIDKey (Shard baf) (Primary baf) (Seq baf) (Digest baf)"

definition aggregate_step ::
  "batchIDKey list \<times> (batchIDKey \<times> BAF list) list \<Rightarrow> BAF \<Rightarrow> batchIDKey list \<times> (batchIDKey \<times> BAF list) list" where
  "aggregate_step acc baf =
     (let (order, groups) = acc; key = batchIDKeyOf baf in
      (if map_of groups key = None then order @ [key] else order,
       alist_modify key (\<lambda>g. nil_list g @ [baf]) groups))"

definition aggregateFragments :: "BAF list \<Rightarrow> BAF list list" where
  "aggregateFragments fragments =
     (let (order, groups) = foldl aggregate_step ([], []) fragments in
      map (\<lambda>key. nil_list (map_of groups key)) order)"

fun filter_existing :: "(bytes \<Rightarrow> fault + bool) \<Rightarrow> ControlEvent list \<Rightarrow> fault + ControlEvent list" where
  "filter_existing ex [] = Inr []"
| "filter_existing ex (ce # ces) =
     (case ceBAF ce of
        None \<Rightarrow> res_bind (filter_existing ex ces) (\<lambda>rest. Inr (ce # rest))
      | Some baf \<Rightarrow>
          res_bind (ex (Digest baf)) (\<lambda>found.
          res_bind (filter_existing ex ces) (\<lambda>rest.
          Inr (if found then rest else ce # rest))))"

definition SimulateStateTransition ::
  "fabric_lib \<Rightarrow> pControlEvent proto_lib \<Rightarrow> (bytes \<Rightarrow> fault + bool) \<Rightarrow> State \<Rightarrow> ConfigSequence \<Rightarrow> bytes list \<Rightarrow>
   fault + State \<times> BAF list list \<times> ConfigRequest list" where
  "SimulateStateTransition L P ex prevState configSeq requests =
     (case requestsToControlEvents L P requests of
        Inl e \<Rightarrow> Inl (Panicked ''requestsToControlEvents'')
      | Inr controlEvents \<Rightarrow>
          res_bind (filter_existing ex controlEvents) (\<lambda>filtered.
          res_bind (Process L configSeq filtered prevState) (\<lambda>(newState, fragments, configRequests).
          Inr (newState, aggregateFragments fragments, configRequests))))"

definition Consenter_Index ::
  "('db \<Rightarrow> bytes list \<Rightarrow> u64 list \<Rightarrow> fault + 'db) \<Rightarrow> 'db \<Rightarrow> bytes list \<Rightarrow> fault + 'db" where
  "Consenter_Index put_db db digests =
     (if length digests > 0 then put_db db digests (replicate (length digests) 0) else Inr db)"

text \<open>
  The config applier sees the new configuration through the parties it lists, which the code takes
  from the shared config in the orderer's consensus metadata; parsing the envelope is a parameter.
\<close>

definition ApplyConfigToState ::
  "(Envelope \<Rightarrow> error + u32 list) \<Rightarrow> State \<Rightarrow> ConfigRequest \<Rightarrow> error + State" where
  "ApplyConfigToState parties_of s configRequest =
     res_bind (parties_of (crEnvelope configRequest)) (\<lambda>partiesConfig.
     let n = of_nat (length partiesConfig);
         (f, threshold, quorum) = ComputeFTQ n;
         s1 = s\<lparr>st_N := n, st_Threshold := threshold, st_Quorum := quorum\<rparr>;
         s2 = (if n \<noteq> st_N s then s1\<lparr>st_Shards := map (\<lambda>st. st\<lparr>stTerm := stTerm st + 1\<rparr>) (st_Shards s1)\<rparr> else s1)
     in Inr (RetainAssemblerHeights (map ucast partiesConfig) s2))"

section \<open>Groups of fragments\<close>

text \<open>The keys of the groups, in the order in which they are first seen.\<close>

fun first_seen :: "'a list \<Rightarrow> 'a list" where
  "first_seen [] = []"
| "first_seen (x # xs) = x # filter (\<lambda>y. y \<noteq> x) (first_seen xs)"

lemma set_first_seen [simp]: "set (first_seen xs) = set xs"
  by (induction xs) auto

lemma distinct_first_seen [simp]: "distinct (first_seen xs)"
  by (induction xs) auto

lemma first_seen_snoc:
  "first_seen (xs @ [x]) = (if x \<in> set xs then first_seen xs else first_seen xs @ [x])"
  by (induction xs) auto

lemma aggregate_fold:
  "foldl aggregate_step ([], []) fs = (order, groups) \<Longrightarrow>
   order = first_seen (map batchIDKeyOf fs) \<and>
   (\<forall>k. map_of groups k = (if k \<in> batchIDKeyOf ` set fs then Some (filter (\<lambda>b. batchIDKeyOf b = k) fs) else None))"
proof (induction fs arbitrary: order groups rule: rev_induct)
  case (snoc b fs)
  obtain o' g' where fold: "foldl aggregate_step ([], []) fs = (o', g')"
    by (cases "foldl aggregate_step ([], []) fs") auto
  note IH = snoc.IH [OF fold]
  have "map_of g' (batchIDKeyOf b) = None \<longleftrightarrow> batchIDKeyOf b \<notin> batchIDKeyOf ` set fs"
    using IH by simp
  moreover have "aggregate_step (o', g') b = (order, groups)"
    using snoc.prems fold by simp
  ultimately show ?case
    using IH by (auto simp: aggregate_step_def first_seen_snoc Let_def filter_empty_conv rev_image_eqI)
qed simp

lemma aggregateFragments_closed_form:
  "aggregateFragments fs = map (\<lambda>k. filter (\<lambda>b. batchIDKeyOf b = k) fs) (first_seen (map batchIDKeyOf fs))"
proof -
  obtain order groups where f: "foldl aggregate_step ([], []) fs = (order, groups)"
    by (cases "foldl aggregate_step ([], []) fs") auto
  show ?thesis
    using aggregate_fold [OF f] by (simp add: aggregateFragments_def f)
qed

lemma concat_groups:
  "distinct ks \<Longrightarrow> key ` set fs \<subseteq> set ks \<Longrightarrow>
   mset (concat (map (\<lambda>k. filter (\<lambda>b. key b = k) fs) ks)) = mset fs"
proof (induction ks arbitrary: fs)
  case (Cons k ks)
  let ?fs = "filter (\<lambda>b. key b \<noteq> k) fs"
  have "filter (\<lambda>b. key b = k') fs = filter (\<lambda>b. key b = k') ?fs" if "k' \<in> set ks" for k'
    using Cons.prems(1) that unfolding filter_filter by (intro filter_cong) auto
  then have eq: "map (\<lambda>k'. filter (\<lambda>b. key b = k') fs) ks = map (\<lambda>k'. filter (\<lambda>b. key b = k') ?fs) ks"
    by (intro map_cong) auto
  have "mset (concat (map (\<lambda>k'. filter (\<lambda>b. key b = k') ?fs) ks)) = mset ?fs"
    using Cons.prems by (intro Cons.IH) auto
  then have "mset (concat (map (\<lambda>k'. filter (\<lambda>b. key b = k') fs) ks)) = mset ?fs"
    by (simp only: eq)
  then show ?case
    by (simp add: multiset_partition [symmetric])
qed simp

lemma batchIDKeyOf_eq: "batchIDKeyOf x = batchIDKeyOf y \<longleftrightarrow> BatchIDEqual x y"
  by (auto simp: batchIDKeyOf_def BatchIDEqual_def)

lemma aggregate_group:
  assumes "g \<in> set (aggregateFragments fs)"
  shows "\<exists>b\<in>set fs. g = filter (\<lambda>x. BatchIDEqual x b) fs \<and> hd g \<in> set g"
proof -
  obtain b where b: "b \<in> set fs" "g = filter (\<lambda>x. BatchIDEqual x b) fs"
    using assms by (auto simp: aggregateFragments_closed_form batchIDKeyOf_eq)
  then have "b \<in> set g"
    by (simp add: BatchIDEqual_def)
  then have "hd g \<in> set g" by (cases g) auto
  then show ?thesis
    using b by blast
qed

lemma aggregate_keys:
  "map (\<lambda>g. batchIDKeyOf (hd g)) (aggregateFragments fs) = first_seen (map batchIDKeyOf fs)"
proof -
  have "batchIDKeyOf (hd (filter (\<lambda>b. batchIDKeyOf b = k) fs)) = k" if "k \<in> batchIDKeyOf ` set fs" for k
    using that hd_in_set [of "filter (\<lambda>b. batchIDKeyOf b = k) fs"] by (auto simp: filter_empty_conv)
  then show ?thesis
    unfolding aggregateFragments_closed_form map_map by (intro map_idI) auto
qed

section \<open>One transition of the consenter\<close>

definition fresh_in :: "bytes set \<Rightarrow> ControlEvent list \<Rightarrow> ControlEvent list" where
  "fresh_in D ces = filter (\<lambda>ce. case ceBAF ce of None \<Rightarrow> True | Some b \<Rightarrow> Digest b \<notin> D) ces"

lemma filter_existing_closed_form:
  "filter_existing (\<lambda>d. Inr (d \<in> D)) ces = Inr (fresh_in D ces)"
  by (induction ces) (simp_all add: fresh_in_def split: option.split)

lemma BAFs_fresh_in: "BAFs (fresh_in D ces) = filter (\<lambda>b. Digest b \<notin> D) (BAFs ces)"
  by (induction ces) (simp_all add: fresh_in_def split: option.split)

lemma fresh_events_fresh_in: "fresh_events q ces \<Longrightarrow> fresh_events q (fresh_in D ces)"
proof -
  have "filter (\<lambda>b. ConfigSeq b = q) (filter (\<lambda>b. Digest b \<notin> D) bs) =
      filter (\<lambda>b. Digest b \<notin> D) (filter (\<lambda>b. ConfigSeq b = q) bs)" for bs :: "BAF list"
    by (simp add: conj_commute)
  then show "fresh_events q ces \<Longrightarrow> fresh_events q (fresh_in D ces)"
    by (simp only: fresh_events_def BAFs_fresh_in distinct_map_filter)
qed

lemma ControlEvent_FromBytes_wf: "ControlEvent_FromBytes L P bs = Inr ce \<Longrightarrow> wf_event ce"
  by (auto simp: ControlEvent_FromBytes_def ControlEvent_fromProto_wf split: sum.splits)

lemma requests_wf:
  "requestsToControlEvents L P reqs = Inr ces \<Longrightarrow> ce \<in> set ces \<Longrightarrow> wf_event ce"
  by (auto simp: requestsToControlEvents_def map_res_Inr_iff list_all2_conv_all_nth in_set_conv_nth
      intro: ControlEvent_FromBytes_wf)

lemma Simulate_closed_form:
  fixes db contents ces
  assumes "kv_store S contents" and "requestsToControlEvents L P reqs = Inr ces" and "wf_state q s"
  defines "F \<equiv> fresh_in (indexed contents db) ces"
  shows "SimulateStateTransition L P (BADB_Exists S db) s q reqs =
    Inr (next_state L q F s, aggregateFragments (attested q F s), ExtractConfigRequests (filter (event_current L q) F))"
proof -
  have "BADB_Exists S db = (\<lambda>d. Inr (d \<in> indexed contents db))"
    using kv_store.set_laws(1) [OF assms(1)] by blast
  moreover have "\<forall>ce\<in>set F. wf_event ce"
    using requests_wf [OF assms(2)] by (auto simp: F_def fresh_in_def)
  ultimately show ?thesis
    using assms(2) filter_existing_closed_form Process_closed_form [OF assms(3)]
    by (simp add: SimulateStateTransition_def F_def)
qed

section \<open>Rounds\<close>

text \<open>
  A round, as the decisions carry it out one after the other: the transition, and then the digests of
  the ordered batches are indexed.
\<close>

definition consenter_round ::
  "fabric_lib \<Rightarrow> pControlEvent proto_lib \<Rightarrow> 'db kv_lib \<Rightarrow> ConfigSequence \<Rightarrow> bytes list \<Rightarrow> State \<times> 'db \<Rightarrow>
   fault + (State \<times> 'db) \<times> BAF list list" where
  "consenter_round L P S q reqs sdb =
     (let (s, db) = sdb in
      res_bind (SimulateStateTransition L P (BADB_Exists S db) s q reqs) (\<lambda>(s', groups, cfgs).
      res_bind (Consenter_Index (BADB_Put S) db (map (\<lambda>g. Digest (hd g)) groups)) (\<lambda>db'.
      Inr ((s', db'), groups))))"

fun consenter_rounds ::
  "fabric_lib \<Rightarrow> pControlEvent proto_lib \<Rightarrow> 'db kv_lib \<Rightarrow> ConfigSequence \<Rightarrow> bytes list list \<Rightarrow> State \<times> 'db \<Rightarrow>
   fault + (State \<times> 'db) \<times> BAF list list list" where
  "consenter_rounds L P S q [] sdb = Inr (sdb, [])"
| "consenter_rounds L P S q (reqs # rs) sdb =
     res_bind (consenter_round L P S q reqs sdb) (\<lambda>(sdb', groups).
     res_bind (consenter_rounds L P S q rs sdb') (\<lambda>(sdb'', outs).
     Inr (sdb'', groups # outs)))"

lemma Index_closed_form:
  assumes "kv_store S contents"
  shows "\<exists>db'. Consenter_Index (BADB_Put S) db ds = Inr db' \<and>
    indexed contents db' = indexed contents db \<union> set ds"
  using kv_store.set_laws(2) [OF assms, of "replicate (length ds) 0" ds db]
  by (auto simp: Consenter_Index_def)

text \<open>The parties of which a fragment of a batch is pending, or comes in a round.\<close>

definition pending_signers :: "ConfigSequence \<Rightarrow> BAF \<Rightarrow> BAF list \<Rightarrow> PartyID set" where
  "pending_signers q b bafs = Signer ` set (filter (\<lambda>b'. ConfigSeq b' = q \<and> BatchIDEqual b' b) bafs)"

definition round_bafs :: "fabric_lib \<Rightarrow> pControlEvent proto_lib \<Rightarrow> bytes list \<Rightarrow> BAF list" where
  "round_bafs L P reqs = (case requestsToControlEvents L P reqs of Inl e \<Rightarrow> [] | Inr ces \<Rightarrow> BAFs ces)"

definition round_signers ::
  "fabric_lib \<Rightarrow> pControlEvent proto_lib \<Rightarrow> ConfigSequence \<Rightarrow> BAF \<Rightarrow> bytes list \<Rightarrow> PartyID set" where
  "round_signers L P q b reqs = pending_signers q b (round_bafs L P reqs)"

text \<open>
  A batch is ordered if a group of its fragments is. It is unrivalled if its digest and its shard, primary and sequence
  occur only together: no other digest competes for its place, and no other batch has its digest.
\<close>

definition orders :: "BAF \<Rightarrow> BAF list list \<Rightarrow> bool" where
  "orders b groups \<longleftrightarrow> (\<exists>g\<in>set groups. g \<noteq> [] \<and> (\<forall>b'\<in>set g. BatchIDEqual b' b))"

definition unrivalled :: "ConfigSequence \<Rightarrow> BAF \<Rightarrow> BAF list \<Rightarrow> bool" where
  "unrivalled q b bafs \<longleftrightarrow>
     (\<forall>b'\<in>set bafs. ConfigSeq b' = q \<longrightarrow> (Digest b' = Digest b \<longleftrightarrow> batchKeyOf b' = batchKeyOf b))"

lemma set_concat_aggregate: "\<Union> (set ` set (aggregateFragments fs)) = set fs"
  by (auto simp: aggregateFragments_closed_form)

lemma orders_aggregate: "b' \<in> set fs \<Longrightarrow> BatchIDEqual b' b \<Longrightarrow> orders b (aggregateFragments fs)"
proof -
  assume b': "b' \<in> set fs" "BatchIDEqual b' b"
  then obtain g where g: "g \<in> set (aggregateFragments fs)" "b' \<in> set g"
    using set_concat_aggregate [of fs] by blast
  then obtain b0 :: BAF where "g = filter (\<lambda>x. BatchIDEqual x b0) fs"
    using aggregate_group [of g fs] by blast
  then have "BatchIDEqual x b" if "x \<in> set g" for x
    using that g(2) b'(2) by (auto simp: BatchIDEqual_def)
  then show ?thesis
    unfolding orders_def using g by (intro bexI [of _ g]) auto
qed

lemma digests_aggregate: "Digest ` hd ` set (aggregateFragments fs) \<subseteq> Digest ` set fs"
  using aggregate_group [of _ fs] by fastforce

text \<open>Whatever is gathered for a batch key stays pending until something with that key is extracted.\<close>

lemma unextracted_kept:
  assumes "\<not> (\<exists>b'\<in>set (attested q ces s). batchKeyOf b' = batchKeyOf b)" "b' \<in> set (gathered q ces s)"
    and "batchKeyOf b' = batchKeyOf b"
  shows "b' \<in> set (undecided q ces s)"
  using assms by (fastforce simp: undecided_def attested_def Let_def not_less [symmetric])

lemma pending_signersI:
  "x \<in> set xs \<Longrightarrow> ConfigSeq x = q \<Longrightarrow> BatchIDEqual x b \<Longrightarrow> Signer x \<in> pending_signers q b xs"
  by (auto simp: pending_signers_def)

lemma pending_signers_gathered:
  assumes "Shard b \<in> stShard ` set (st_Shards s)"
  shows "pending_signers q b (st_Pending s) \<union> pending_signers q b (BAFs ces) \<subseteq> pending_signers q b (gathered q ces s)"
proof -
  have same: "Signer x = Signer y \<and> BatchIDEqual x b"
    if "attestationKeyOf x = attestationKeyOf y" "BatchIDEqual y b" for x y
    using that by (auto simp: attestationKeyOf_def BatchIDEqual_key)
  have "Signer y \<in> pending_signers q b (gathered q ces s)"
    if y: "y \<in> set (BAFs ces)" "ConfigSeq y = q" "BatchIDEqual y b" for y
  proof (cases "attestationKeyOf y \<in> attestationKeyOf ` set (filter (\<lambda>b. ConfigSeq b = q) (st_Pending s))")
    case True
    then obtain x where "x \<in> set (st_Pending s)" "ConfigSeq x = q" "attestationKeyOf x = attestationKeyOf y"
      by auto
    then show ?thesis
      using same [of x y] y(3) pending_signersI [of x "gathered q ces s" q b] by (simp add: gathered_def Let_def)
  next
    case False
    moreover have "Shard y = Shard b"
      using y(3) by (simp add: BatchIDEqual_key batchKeyOf_eq)
    ultimately show ?thesis
      using y assms by (intro pending_signersI) (auto simp: gathered_def Let_def)
  qed
  then show ?thesis
    by (auto simp: pending_signers_def gathered_def Let_def)
qed

lemma pending_signers_support:
  assumes "b' \<in> set (undecided q ces s)" "BatchIDEqual b' b" "wf_state q s"
  shows "card (pending_signers q b (undecided q ces s)) < unat (st_Threshold s)"
proof -
  let ?G = "gathered q ces s"
  have "card (pending_signers q b (undecided q ces s)) \<le> length (filter (\<lambda>x. BatchIDEqual x b) ?G)"
  proof -
    have "pending_signers q b (undecided q ces s) \<subseteq> Signer ` set (filter (\<lambda>x. BatchIDEqual x b) ?G)"
      by (auto simp: pending_signers_def undecided_def Let_def)
    then have "card (pending_signers q b (undecided q ces s)) \<le> card (Signer ` set (filter (\<lambda>x. BatchIDEqual x b) ?G))"
      by (intro card_mono) auto
    also have "\<dots> \<le> card (set (filter (\<lambda>x. BatchIDEqual x b) ?G))"
      by (rule card_image_le) simp
    also have "\<dots> \<le> length (filter (\<lambda>x. BatchIDEqual x b) ?G)"
      by (rule card_length)
    finally show ?thesis .
  qed
  also have "\<dots> = support ?G b'"
    using assms(2) unfolding support_def
    by (intro arg_cong [of _ _ length] filter_cong) (auto simp: BatchIDEqual_key)
  also have "\<dots> < unat (st_Threshold s)"
    using assms(1) by (auto simp: undecided_def Let_def)
  finally show ?thesis .
qed

lemma pending_signers_below:
  assumes "wf_state q s"
  shows "card (pending_signers q b (undecided q ces s)) < unat (st_Threshold s)"
proof (cases "\<exists>b'\<in>set (undecided q ces s). BatchIDEqual b' b")
  case True
  then show ?thesis
    using pending_signers_support [OF _ _ assms] by blast
next
  case False
  then have "pending_signers q b (undecided q ces s) = {}"
    by (auto simp: pending_signers_def)
  then show ?thesis
    using assms by (simp add: wf_state_def unat_gt_0)
qed

text \<open>Terms have room for a number of rounds before they wrap around.\<close>

definition terms_room :: "nat \<Rightarrow> State \<Rightarrow> bool" where
  "terms_room n s \<longleftrightarrow> (\<forall>st\<in>set (st_Shards s). unat (stTerm st) + n < 2 ^ 64)"

lemma terms_room_step:
  assumes "terms_room (Suc n) s" "wf_state q s" "\<forall>ce\<in>set ces. wf_event ce"
  shows "terms_below_max s" "terms_room n (next_state L q ces s)"
proof -
  have max: "stTerm st \<noteq> -1" if st: "st \<in> set (st_Shards s)" for st
  proof
    assume "stTerm st = -1"
    then have "unat (stTerm st) = 2 ^ 64 - 1"
      by (simp add: unsigned_minus_1_eq_mask mask_eq_exp_minus_1)
    then show False
      using assms(1) st by (auto simp: terms_room_def)
  qed
  then show "terms_below_max s"
    by (simp add: terms_below_max_def)
  have "unat (stTerm (next_term st)) = Suc (unat (stTerm st))" if "st \<in> set (st_Shards s)" for st
  proof -
    have "1 + stTerm st \<noteq> 0"
      using max [OF that] by (metis add.commute eq_neg_iff_add_eq_0)
    then show ?thesis
      by (simp add: unatSuc add.commute)
  qed
  then show "terms_room n (next_state L q ces s)"
    using assms(1)
    by (auto simp: terms_room_def next_state_fields [OF assms(3)] new_shards_bumped [OF assms(2,3)] bumped_def)
qed

lemma consenter_round_closed_form:
  fixes db contents ces
  assumes "kv_store S contents" "requestsToControlEvents L P reqs = Inr ces" "wf_state q s"
  defines "F \<equiv> fresh_in (indexed contents db) ces"
  obtains db' where "consenter_round L P S q reqs (s, db) =
      Inr ((next_state L q F s, db'), aggregateFragments (attested q F s))"
    "indexed contents db' \<subseteq> indexed contents db \<union> Digest ` set (attested q F s)"
proof -
  let ?groups = "aggregateFragments (attested q F s)"
  obtain db' where "Consenter_Index (BADB_Put S) db (map (\<lambda>g. Digest (hd g)) ?groups) = Inr db'"
    "indexed contents db' = indexed contents db \<union> set (map (\<lambda>g. Digest (hd g)) ?groups)"
    using Index_closed_form [OF assms(1)] by blast
  moreover from this(2) have "indexed contents db' \<subseteq> indexed contents db \<union> Digest ` set (attested q F s)"
    using digests_aggregate [of "attested q F s"] by (auto simp: image_image)
  ultimately show thesis
    using that Simulate_closed_form [OF assms(1-3), of db] by (simp add: consenter_round_def F_def)
qed

text \<open>The fragments that a round gathers, and those that it leaves pending, are old or new ones.\<close>

lemma gathered_from:
  "set (gathered q (fresh_in D ces) s) \<subseteq> {b \<in> set (st_Pending s) \<union> set (BAFs ces). ConfigSeq b = q}"
  by (auto simp: gathered_def Let_def BAFs_fresh_in)

lemma undecided_from: "set (undecided q ces s) \<subseteq> set (gathered q ces s)"
  by (auto simp: undecided_def Let_def)

lemma round_progress:
  assumes "kv_store S contents" "requestsToControlEvents L P reqs = Inr ces" "wf_state q s"
    and "terms_room (Suc n) s" "Shard b \<in> stShard ` set (st_Shards s)"
    and "Digest b \<notin> indexed contents db" "unrivalled q b (st_Pending s @ BAFs ces)"
  shows "\<exists>s' db' groups. consenter_round L P S q reqs (s, db) = Inr ((s', db'), groups) \<and>
    wf_state q s' \<and> terms_room n s' \<and> stShard ` set (st_Shards s') = stShard ` set (st_Shards s) \<and>
    st_Threshold s' = st_Threshold s \<and> set (st_Pending s') \<subseteq> set (st_Pending s) \<union> set (BAFs ces) \<and>
    (orders b groups \<or> Digest b \<notin> indexed contents db' \<and>
     pending_signers q b (st_Pending s) \<union> round_signers L P q b reqs \<subseteq> pending_signers q b (st_Pending s') \<and>
     card (pending_signers q b (st_Pending s')) < unat (st_Threshold s))"
proof -
  define F where "F = fresh_in (indexed contents db) ces"
  obtain db' where r: "consenter_round L P S q reqs (s, db) =
      Inr ((next_state L q F s, db'), aggregateFragments (attested q F s))"
    "indexed contents db' \<subseteq> indexed contents db \<union> Digest ` set (attested q F s)"
    using consenter_round_closed_form [OF assms(1-3), of db] unfolding F_def by blast
  have wf: "\<forall>ce\<in>set F. wf_event ce"
    using requests_wf [OF assms(2)] by (auto simp: F_def fresh_in_def)
  note fields = next_state_fields [OF wf, of L q s]
  have room: "terms_below_max s" "terms_room n (next_state L q F s)"
    using terms_room_step [OF assms(4,3) wf] by auto
  have origin: "set (gathered q F s) \<subseteq> {b \<in> set (st_Pending s) \<union> set (BAFs ces). ConfigSeq b = q}"
    unfolding F_def by (rule gathered_from)
  have rival: "BatchIDEqual b' b" if "b' \<in> set (attested q F s)" "Digest b' = Digest b \<or> batchKeyOf b' = batchKeyOf b" for b'
    using that assms(7) origin by (auto simp: attested_def Let_def unrivalled_def BatchIDEqual_key subset_eq)
  have "pending_signers q b (st_Pending s) \<union> round_signers L P q b reqs \<subseteq> pending_signers q b (undecided q F s) \<and>
      card (pending_signers q b (undecided q F s)) < unat (st_Threshold s) \<and> Digest b \<notin> indexed contents db'"
    if unord: "\<not> orders b (aggregateFragments (attested q F s))"
  proof (intro conjI)
    have none: "\<not> (\<exists>b'\<in>set (attested q F s). Digest b' = Digest b \<or> batchKeyOf b' = batchKeyOf b)"
      using unord rival orders_aggregate by blast
    then show "Digest b \<notin> indexed contents db'"
      using r(2) assms(6) by force
    have "round_signers L P q b reqs = pending_signers q b (BAFs F)"
      using assms(6) by (auto simp: round_signers_def round_bafs_def assms(2) pending_signers_def F_def BAFs_fresh_in BatchIDEqual_key)
    then have "pending_signers q b (st_Pending s) \<union> round_signers L P q b reqs \<subseteq> pending_signers q b (gathered q F s)"
      using pending_signers_gathered [OF assms(5)] by simp
    moreover have "pending_signers q b (gathered q F s) \<subseteq> pending_signers q b (undecided q F s)"
      using unextracted_kept [of q F s b] none unfolding pending_signers_def by (fastforce simp: BatchIDEqual_key)
    ultimately show "pending_signers q b (st_Pending s) \<union> round_signers L P q b reqs \<subseteq> pending_signers q b (undecided q F s)"
      by blast
    show "card (pending_signers q b (undecided q F s)) < unat (st_Threshold s)"
      by (rule pending_signers_below [OF assms(3)])
  qed
  moreover have "wf_state q (next_state L q F s)"
    by (rule wf_next_state [OF assms(3) wf room(1)])
  moreover have "stShard ` set (st_Shards (next_state L q F s)) = stShard ` set (st_Shards s)"
    by (simp add: fields new_shards_def)
  moreover have "set (undecided q F s) \<subseteq> set (st_Pending s) \<union> set (BAFs ces)"
    using undecided_from [of q F s] origin by blast
  ultimately show ?thesis
    using r(1) room(2) fields(2,8)
    by (intro exI [of _ "next_state L q F s"] exI [of _ db'] exI [of _ "aggregateFragments (attested q F s)"]) auto
qed

text \<open>Every round of a run parses.\<close>

definition rounds_parse :: "fabric_lib \<Rightarrow> pControlEvent proto_lib \<Rightarrow> bytes list list \<Rightarrow> bool" where
  "rounds_parse L P rs \<longleftrightarrow> list_all (\<lambda>reqs. \<not> isl (requestsToControlEvents L P reqs)) rs"

lemma rounds_complete:
  assumes "kv_store S contents" "rounds_parse L P rs" "wf_state q s" "terms_room (length rs) s"
  shows "\<exists>s' db' outs. consenter_rounds L P S q rs (s, db) = Inr ((s', db'), outs)"
  using assms(2-4)
proof (induction rs arbitrary: s db)
  case (Cons reqs rs)
  obtain ces where ces: "requestsToControlEvents L P reqs = Inr ces"
    using Cons.prems(1) by (cases "requestsToControlEvents L P reqs") (auto simp: rounds_parse_def)
  define F where "F = fresh_in (indexed contents db) ces"
  obtain db' where r: "consenter_round L P S q reqs (s, db) = Inr ((next_state L q F s, db'), aggregateFragments (attested q F s))"
    using consenter_round_closed_form [OF assms(1) ces Cons.prems(2), of db] unfolding F_def by blast
  have wf: "\<forall>ce\<in>set F. wf_event ce"
    using requests_wf [OF ces] by (auto simp: F_def fresh_in_def)
  have "terms_below_max s" "terms_room (length rs) (next_state L q F s)"
    using terms_room_step [OF _ Cons.prems(2) wf, of "length rs"] Cons.prems(3) by auto
  moreover from this have "wf_state q (next_state L q F s)"
    by (intro wf_next_state [OF Cons.prems(2) wf])
  moreover have "rounds_parse L P rs"
    using Cons.prems(1) by (simp add: rounds_parse_def)
  ultimately obtain s2 db2 outs where "consenter_rounds L P S q rs (next_state L q F s, db') = Inr ((s2, db2), outs)"
    using Cons.IH by blast
  then show ?case
    using r by simp
qed simp

lemma unrivalled_mono: "unrivalled q b xs \<Longrightarrow> set ys \<subseteq> set xs \<Longrightarrow> unrivalled q b ys"
  by (auto simp: unrivalled_def)

lemma rounds_progress:
  assumes "kv_store S contents" "rounds_parse L P rs" "wf_state q s" "terms_room (length rs) s"
    and "Shard b \<in> stShard ` set (st_Shards s)" "Digest b \<notin> indexed contents db"
    and "unrivalled q b (st_Pending s @ concat (map (round_bafs L P) rs))"
  shows "\<exists>s' db' outs. consenter_rounds L P S q rs (s, db) = Inr ((s', db'), outs) \<and>
    ((\<exists>groups\<in>set outs. orders b groups) \<or>
     pending_signers q b (st_Pending s) \<union> (\<Union>reqs\<in>set rs. round_signers L P q b reqs)
       \<subseteq> pending_signers q b (st_Pending s') \<and>
     (rs \<noteq> [] \<longrightarrow> card (pending_signers q b (st_Pending s')) < unat (st_Threshold s)))"
  using assms(2-7)
proof (induction rs arbitrary: s db)
  case (Cons reqs rs)
  obtain ces where ces: "requestsToControlEvents L P reqs = Inr ces"
    using Cons.prems(1) by (cases "requestsToControlEvents L P reqs") (auto simp: rounds_parse_def)
  then have bafs: "round_bafs L P reqs = BAFs ces"
    by (simp add: round_bafs_def)
  have "unrivalled q b (st_Pending s @ BAFs ces)"
    by (rule unrivalled_mono [OF Cons.prems(6)]) (auto simp: bafs)
  then obtain s1 db1 g where step: "consenter_round L P S q reqs (s, db) = Inr ((s1, db1), g)"
    "wf_state q s1" "terms_room (length rs) s1" "stShard ` set (st_Shards s1) = stShard ` set (st_Shards s)"
    "st_Threshold s1 = st_Threshold s" "set (st_Pending s1) \<subseteq> set (st_Pending s) \<union> set (BAFs ces)"
    "orders b g \<or> Digest b \<notin> indexed contents db1 \<and>
     pending_signers q b (st_Pending s) \<union> round_signers L P q b reqs \<subseteq> pending_signers q b (st_Pending s1) \<and>
     card (pending_signers q b (st_Pending s1)) < unat (st_Threshold s)"
    using round_progress [OF assms(1) ces Cons.prems(2), of "length rs" b db] Cons.prems(3-5) by auto
  have parse: "rounds_parse L P rs"
    using Cons.prems(1) by (simp add: rounds_parse_def)
  show ?case
  proof (cases "orders b g")
    case True
    obtain s2 db2 outs where "consenter_rounds L P S q rs (s1, db1) = Inr ((s2, db2), outs)"
      using rounds_complete [OF assms(1) parse step(2,3)] by blast
    then show ?thesis
      using step(1) True by auto
  next
    case False
    have "unrivalled q b (st_Pending s1 @ concat (map (round_bafs L P) rs))"
      using step(6) by (intro unrivalled_mono [OF Cons.prems(6)]) (auto simp: bafs)
    then obtain s2 db2 outs where rest: "consenter_rounds L P S q rs (s1, db1) = Inr ((s2, db2), outs)"
      "(\<exists>groups\<in>set outs. orders b groups) \<or>
       pending_signers q b (st_Pending s1) \<union> (\<Union>reqs\<in>set rs. round_signers L P q b reqs)
         \<subseteq> pending_signers q b (st_Pending s2) \<and>
       (rs \<noteq> [] \<longrightarrow> card (pending_signers q b (st_Pending s2)) < unat (st_Threshold s1))"
      using Cons.IH [of s1 db1] parse step(2-4,7) Cons.prems(4) False by auto
    have run: "consenter_rounds L P S q (reqs # rs) (s, db) = Inr ((s2, db2), g # outs)"
      using step(1) rest(1) by simp
    have "rs = [] \<Longrightarrow> s2 = s1"
      using rest(1) by auto
    then show ?thesis
      unfolding run using step(5,7) rest(2) False
      by (intro exI [of _ s2] exI [of _ db2] exI [of _ "g # outs"]) auto
  qed
qed simp

section \<open>Reachable states\<close>

text \<open>
  The states consensus can be in, with the config sequence that is in force: it starts with shards
  and no events, makes transitions on parsed requests while no term is the largest of 64 bits, and moves to a later config
  sequence when a config request is applied. The flag says whether the rounds are known to repeat no fragment.
\<close>

definition initial_state :: "State \<Rightarrow> bool" where
  "initial_state s \<longleftrightarrow> distinct (map stShard (st_Shards s)) \<and> st_Threshold s \<noteq> 0 \<and> st_Pending s = [] \<and>
     st_Complaints s = [] \<and> st_AssemblerHeights s = []"

inductive reachable ::
  "fabric_lib \<Rightarrow> pControlEvent proto_lib \<Rightarrow> (Envelope \<Rightarrow> error + u32 list) \<Rightarrow> bool \<Rightarrow> ConfigSequence \<Rightarrow> State \<Rightarrow> bool"
  for L P parties_of fresh where
  reach_start: "initial_state s \<Longrightarrow> reachable L P parties_of fresh q s"
| reach_round: "reachable L P parties_of fresh q s \<Longrightarrow> requestsToControlEvents L P reqs = Inr ces \<Longrightarrow> (fresh \<longrightarrow> fresh_events q ces) \<Longrightarrow>
    terms_below_max s \<Longrightarrow> Process L q (fresh_in D ces) s = Inr (s', ext, cfgs) \<Longrightarrow> reachable L P parties_of fresh q s'"
| reach_config: "reachable L P parties_of fresh q s \<Longrightarrow> ApplyConfigToState parties_of s cr = Inr s' \<Longrightarrow> q < q' \<Longrightarrow>
    reachable L P parties_of fresh q' s'"

definition consensus_inv :: "ConfigSequence \<Rightarrow> State \<Rightarrow> bool" where
  "consensus_inv q s \<longleftrightarrow> wf_state q s \<and> (\<forall>b\<in>set (st_Pending s). ConfigSeq b \<le> q) \<and>
     (\<forall>c\<in>set (st_Complaints s). cConfigSeq c \<le> q)"

lemma ComputeFTQ_threshold_nonzero: "fst (snd (ComputeFTQ n)) \<noteq> 0"
proof -
  have "unat ((n - 1) div 3) \<le> 65535 div 3"
    using unat_less_2p [of "n - 1"] by (simp add: unat_div)
  then have "unat ((n - 1) div 3 + 1) \<noteq> 0"
    by (simp add: unat_word_ariths)
  then have "(n - 1) div 3 + 1 \<noteq> 0"
    by (metis unat_0)
  then show ?thesis
    by (simp add: ComputeFTQ_def Let_def)
qed

lemma consensus_inv_config:
  assumes "consensus_inv q s" "ApplyConfigToState parties_of s cr = Inr s'" "q < q'"
  shows "consensus_inv q' s'"
proof -
  obtain ps where ps: "parties_of (crEnvelope cr) = Inr ps"
    using assms(2) by (auto simp: ApplyConfigToState_def res_bind_Inr_iff)
  obtain f t quorum where ftq: "ComputeFTQ (of_nat (length ps)) = (f, t, quorum)"
    by (cases "ComputeFTQ (of_nat (length ps))") auto
  then have "t \<noteq> 0"
    using ComputeFTQ_threshold_nonzero [of "of_nat (length ps)"] by simp
  then have s': "map stShard (st_Shards s') = map stShard (st_Shards s)" "st_Threshold s' \<noteq> 0"
    "st_Pending s' = st_Pending s" "st_Complaints s' = st_Complaints s"
    "\<exists>A. st_AssemblerHeights s' = filter A (st_AssemblerHeights s)"
    using assms(2) by (auto simp: ApplyConfigToState_def ps ftq RetainAssemblerHeights_def Let_def split: if_splits)
  have "x \<noteq> q'" if "x \<le> q" for x
    using that assms(3) by auto
  moreover have "sorted (map ahParty (filter A hs))" if "sorted (map ahParty hs)" for A hs
    using that by (rule sorted_filter)
  ultimately show ?thesis
    using assms(1,3) s' by (fastforce simp: consensus_inv_def wf_state_def distinct_map_filter)
qed

lemma consensus_inv_round:
  assumes "consensus_inv q s" "\<forall>ce\<in>set ces. wf_event ce" "terms_below_max s"
    and "Process L q ces s = Inr (s', ext, cfgs)"
  shows "consensus_inv q s'" and "distinct_pending s \<Longrightarrow> fresh_events q ces \<Longrightarrow> distinct_pending s'"
proof -
  have wf: "wf_state q s"
    using assms(1) by (simp add: consensus_inv_def)
  then have s': "s' = next_state L q ces s"
    using Process_closed_form [OF wf assms(2), of L] assms(4) by simp
  have "ConfigSeq b = q" if "b \<in> set (undecided q ces s)" for b
    using that gathered_props(1) [OF wf, of b ces] by (simp add: undecided_def Let_def)
  moreover have "cConfigSeq c = q" if "c \<in> set (kept_complaints L q ces s)" for c
    using that after_collect_complaints(2) [OF wf assms(2), of L] by (auto simp: kept_complaints_def Let_def)
  ultimately show "consensus_inv q s'"
    using wf_next_state [OF wf assms(2,3)] by (simp add: consensus_inv_def s' next_state_fields [OF assms(2)])
  show "distinct_pending s'" if "distinct_pending s" "fresh_events q ces"
    unfolding s' by (rule distinct_next_state [OF that assms(2)])
qed

lemma config_pending: "ApplyConfigToState parties_of s cr = Inr s' \<Longrightarrow> st_Pending s' = st_Pending s"
  by (cases "parties_of (crEnvelope cr)"; cases "ComputeFTQ (of_nat (length (projr (parties_of (crEnvelope cr)))))")
    (auto simp: ApplyConfigToState_def RetainAssemblerHeights_def Let_def split: if_splits)

lemma reachable_inv: "reachable L P parties_of fresh q s \<Longrightarrow> consensus_inv q s \<and> (fresh \<longrightarrow> distinct_pending s)"
proof (induction rule: reachable.induct)
  case (reach_start s q)
  then show ?case
    by (simp add: initial_state_def consensus_inv_def wf_state_def distinct_pending_def)
next
  case (reach_round q s reqs ces D s' ext cfgs)
  have "\<forall>ce\<in>set (fresh_in D ces). wf_event ce"
    using requests_wf [OF reach_round.hyps(2)] by (auto simp: fresh_in_def)
  then show ?case
    using consensus_inv_round [of q s "fresh_in D ces" L s' ext cfgs] reach_round.IH reach_round.hyps(3-5)
      fresh_events_fresh_in [of q ces D] by blast
next
  case (reach_config q s cr s' q')
  then show ?case
    using consensus_inv_config [of q s parties_of cr s' q'] config_pending [of parties_of s cr s']
    by (simp add: distinct_pending_def)
qed

section \<open>Properties\<close>

text \<open>
  (C24) A batch that enough parties attest is ordered. Take any run of rounds of parsed requests in one configuration in
  which at least \<^verbatim>\<open>Threshold\<close> different parties send a fragment of the batch, in any rounds and any order, among any other
  requests. If its shard is known, its digest is not indexed at the start, no other digest is attested for its shard, primary
  and sequence and no other batch with its digest, then the run completes and in one of its rounds this batch, with
  this digest, is ordered. The store does not fail, and no term wraps around during the run.
\<close>

theorem batch_eventually_ordered:
  assumes "kv_store S contents" "rounds_parse L P rs" "wf_state q s" "terms_room (length rs) s"
    and "Shard b \<in> stShard ` set (st_Shards s)" "Digest b \<notin> indexed contents db"
    and "unrivalled q b (st_Pending s @ concat (map (round_bafs L P) rs))"
    and "unat (st_Threshold s) \<le> card (\<Union>reqs\<in>set rs. round_signers L P q b reqs)"
  shows "\<exists>s' db' outs. consenter_rounds L P S q rs (s, db) = Inr ((s', db'), outs) \<and> (\<exists>groups\<in>set outs. orders b groups)"
proof -
  let ?R = "\<Union>reqs\<in>set rs. round_signers L P q b reqs"
  obtain s' db' outs where run: "consenter_rounds L P S q rs (s, db) = Inr ((s', db'), outs)"
    "(\<exists>groups\<in>set outs. orders b groups) \<or>
     pending_signers q b (st_Pending s) \<union> ?R \<subseteq> pending_signers q b (st_Pending s') \<and>
     (rs \<noteq> [] \<longrightarrow> card (pending_signers q b (st_Pending s')) < unat (st_Threshold s))"
    using rounds_progress [OF assms(1-7)] by blast
  have "rs \<noteq> []"
    using assms(3,8) by (auto simp: wf_state_def unat_eq_0)
  have "finite (pending_signers q b (st_Pending s'))"
    by (simp add: pending_signers_def)
  then have "card ?R \<le> card (pending_signers q b (st_Pending s'))" if "?R \<subseteq> pending_signers q b (st_Pending s')"
    using that by (rule card_mono)
  with \<open>rs \<noteq> []\<close> assms(8) have "\<exists>groups\<in>set outs. orders b groups"
    using run(2) unfolding Un_subset_iff by fastforce
  then show ?thesis
    using run(1) by blast
qed

definition ex_bafs_lib :: "pControlEvent proto_lib" where
  "ex_bafs_lib = \<lparr>Marshal = \<lambda>_. Inl (ErrNew ''''),
     Unmarshal = \<lambda>bs. Inr (Ev_Baf (Some (BAF_ToProto (ex_baf (ucast (hd bs)) [5]))))\<rparr>"

lemma ex_baf_parse: "ControlEvent_FromBytes ex_lib ex_bafs_lib [p] = Inr (BAFEvent (ex_baf (ucast p) [5]))"
  by (simp add: ControlEvent_FromBytes_def ex_bafs_lib_def ControlEvent_fromProto_def BAF_From_To_normal BAF_normal_def ex_baf_def)

lemma ex_round_parse:
  "requestsToControlEvents ex_lib ex_bafs_lib (map (\<lambda>p. [p]) ps) = Inr (map (\<lambda>p. BAFEvent (ex_baf (ucast p) [5])) ps)"
  by (induction ps) (simp_all add: requestsToControlEvents_def ex_baf_parse)

lemma ex_bafs_parse: "requestsToControlEvents ex_lib ex_bafs_lib [[p]] = Inr [BAFEvent (ex_baf (ucast p) [5])]"
  using ex_round_parse [of "[p]"] by simp

theorem batch_eventually_ordered_witness:
  "\<exists>s' db' outs. consenter_rounds ex_lib ex_bafs_lib alist_kv 3 [[[2]], [[3]]] (ex_state\<lparr>st_Pending := []\<rparr>, []) =
      Inr ((s', db'), outs) \<and> (\<exists>groups\<in>set outs. orders (ex_baf 2 [5]) groups)"
proof (rule batch_eventually_ordered)
  show "kv_store alist_kv map_of"
    by (rule badb.kv_store_axioms)
  show "rounds_parse ex_lib ex_bafs_lib [[[2]], [[3]]]"
    by (simp add: rounds_parse_def ex_bafs_parse)
  show "wf_state 3 (ex_state\<lparr>st_Pending := []\<rparr>)"
    using ex_wf(1) by (simp add: wf_state_def)
  show "unrivalled 3 (ex_baf 2 [5]) (st_Pending (ex_state\<lparr>st_Pending := []\<rparr>) @ concat (map (round_bafs ex_lib ex_bafs_lib) [[[2]], [[3]]]))"
    by (simp add: unrivalled_def round_bafs_def ex_bafs_parse ex_baf_def batchKeyOf_def)
  have "(\<Union>reqs\<in>set [[[2]], [[3]]]. round_signers ex_lib ex_bafs_lib 3 (ex_baf 2 [5]) reqs) = {2, 3}"
    by (auto simp: round_signers_def round_bafs_def ex_bafs_parse pending_signers_def ex_baf_def BatchIDEqual_def image_iff)
  then show "unat (st_Threshold (ex_state\<lparr>st_Pending := []\<rparr>)) \<le>
      card (\<Union>reqs\<in>set [[[2]], [[3]]]. round_signers ex_lib ex_bafs_lib 3 (ex_baf 2 [5]) reqs)"
    by (simp add: ex_state_def)
qed (simp_all add: terms_room_def ex_state_def ex_baf_def indexed_def)

text \<open>
  (C25) In every state that consensus can reach, through rounds and reconfigurations, a round of requests that parse
  never panics on a store that does not fail, and what it orders is one group of fragments per batch: each group belongs
  to a single batch, different groups to different ones, and each holds at least \<^verbatim>\<open>Threshold\<close> fragments. If neither this
  round nor an earlier one carries a fragment twice, they are of at least \<^verbatim>\<open>Threshold\<close> different parties.
\<close>

theorem reachable_round_ordered:
  assumes "reachable L P parties_of fresh q s" "kv_store S contents" "requestsToControlEvents L P reqs = Inr ces"
  shows "\<exists>s' groups cfgs. SimulateStateTransition L P (BADB_Exists S db) s q reqs = Inr (s', groups, cfgs) \<and>
    distinct (map (\<lambda>g. batchIDKeyOf (hd g)) groups) \<and>
    (\<forall>g\<in>set groups. g \<noteq> [] \<and> (\<forall>b\<in>set g. BatchIDEqual b (hd g)) \<and> unat (st_Threshold s) \<le> length g \<and>
       (fresh \<and> fresh_events q ces \<longrightarrow> unat (st_Threshold s) \<le> card (Signer ` set g)))"
proof -
  define F where "F = fresh_in (indexed contents db) ces"
  let ?fs = "attested q F s"
  have wf: "wf_state q s"
    using reachable_inv [OF assms(1)] by (simp add: consensus_inv_def)
  have d: "distinct (map attestationKeyOf (gathered q F s))" if "fresh" "fresh_events q ces"
    using that reachable_inv [OF assms(1)] by (intro gathered_distinct) (simp_all add: F_def fresh_events_fresh_in)
  have group: "g \<noteq> [] \<and> (\<forall>b\<in>set g. BatchIDEqual b (hd g)) \<and> unat (st_Threshold s) \<le> length g \<and>
      (fresh \<and> fresh_events q ces \<longrightarrow> unat (st_Threshold s) \<le> card (Signer ` set g))"
    if g: "g \<in> set (aggregateFragments ?fs)" for g
  proof -
    obtain b where b: "b \<in> set ?fs" "g = filter (\<lambda>x. BatchIDEqual x b) ?fs" "hd g \<in> set g"
      using aggregate_group [OF g] by blast
    have "unat (st_Threshold s) \<le> card (Signer ` {b' \<in> set ?fs. BatchIDEqual b' b})" if "fresh" "fresh_events q ces"
      using attested_signers [OF d [OF that], of b "unat (st_Threshold s)"] b(1) by (simp add: attested_def Let_def)
    moreover have "g \<noteq> []"
      using b(3) by (metis empty_iff empty_set)
    ultimately show ?thesis
      using b attested_support [OF b(1)] by (auto simp: BatchIDEqual_def)
  qed
  show ?thesis
    unfolding Simulate_closed_form [OF assms(2,3) wf, of db, folded F_def]
    using group by (auto simp: aggregate_keys)
qed

theorem reachable_round_ordered_witness:
  "\<exists>s' g cfgs. SimulateStateTransition ex_lib ex_bafs_lib (BADB_Exists alist_kv [])
      (ex_state\<lparr>st_Pending := [], st_Complaints := [], st_AssemblerHeights := []\<rparr>) 3 [[2], [3]] = Inr (s', [g], cfgs) \<and>
    2 \<le> card (Signer ` set g)"
proof -
  let ?s = "ex_state\<lparr>st_Pending := [], st_Complaints := [], st_AssemblerHeights := []\<rparr>"
  have r: "reachable ex_lib ex_bafs_lib (\<lambda>_. Inr []) True 3 ?s"
    by (rule reach_start) (simp add: initial_state_def ex_state_def)
  have parse: "requestsToControlEvents ex_lib ex_bafs_lib [[2], [3]] = Inr [BAFEvent (ex_baf 2 [5]), BAFEvent (ex_baf 3 [5])]"
    using ex_round_parse [of "[2, 3]"] by simp
  have fresh: "fresh_events 3 [BAFEvent (ex_baf 2 [5]), BAFEvent (ex_baf 3 [5])]"
    by (simp add: fresh_events_def attestationKeyOf_def ex_baf_def)
  have none: "BADB_Exists alist_kv [] = (\<lambda>d. Inr False)"
    using kv_store.set_laws(1) [OF badb.kv_store_axioms] by (auto simp: indexed_def)
  have "snd (projr (Process ex_lib 3 [BAFEvent (ex_baf 2 [5]), BAFEvent (ex_baf 3 [5])] ?s)) = ([ex_baf 2 [5], ex_baf 3 [5]], [])"
    "aggregateFragments [ex_baf 2 [5], ex_baf 3 [5]] = [[ex_baf 2 [5], ex_baf 3 [5]]]"
    by code_simp+
  then have "\<forall>s' groups cfgs. SimulateStateTransition ex_lib ex_bafs_lib (BADB_Exists alist_kv []) ?s 3 [[2], [3]] = Inr (s', groups, cfgs) \<longrightarrow>
      groups = [[ex_baf 2 [5], ex_baf 3 [5]]]"
    by (auto simp: SimulateStateTransition_def parse none res_bind_Inr_iff)
  then show ?thesis
    using reachable_round_ordered [OF r badb.kv_store_axioms parse, of "[]"] fresh by (fastforce simp: ex_state_def)
qed

text \<open>
  Grouping loses nothing and reorders only across batches: the groups together are the fragments
  given, each group lists the fragments of one batch in the given order, and the groups come in the
  order in which their batches are first seen.
\<close>

theorem aggregate_groups:
  "mset (concat (aggregateFragments fs)) = mset fs \<and>
   aggregateFragments fs = map (\<lambda>k. filter (\<lambda>b. batchIDKeyOf b = k) fs) (first_seen (map batchIDKeyOf fs))"
  using concat_groups [of "first_seen (map batchIDKeyOf fs)" batchIDKeyOf fs]
  by (simp add: aggregateFragments_closed_form)

end
