(* ===== verification/StateCodec.thy ===== *)
theory StateCodec
  imports ConsensusState
begin

text \<open>
  The wire forms of consensus: the state and the header of a decision
  (\<^verbatim>\<open>src/node/consensus/state/state.go\<close>, \<^verbatim>\<open>header.go\<close>, \<^verbatim>\<open>pruning.go\<close>), the compound signatures of a
  decision (\<^verbatim>\<open>compound_sig.go\<close>), and the blocks in which the consenters store decisions
  (\<^verbatim>\<open>decision.go\<close>, \<^verbatim>\<open>consenter_block_operations.go\<close>, \<^verbatim>\<open>src/common/utils/config_block_operations.go\<close>).

  The fields of a SmartBFT proposal are options, because the code compares them with nil. The blocks
  of a header are never nil pointers.
\<close>

section \<open>The state\<close>

record pShardTerm =
  pstShard :: u32
  pstTerm :: u64

record pHeight =
  pahParty :: u32
  pahDecisionNum :: u64

record pPrunePoint =
  pppShard :: u32
  pppPrimary :: u32
  pppSeq :: u64

record pState =
  psNumberOfParties :: u32
  psShards :: "pShardTerm list"
  psPending :: "pBAF list"
  psComplaints :: "pComplaint list"
  psAppContext :: bytes
  psStaleConfigBafs :: "pBAF list"
  psAssemblerHeights :: "pHeight list"
  psPrunePoints :: "pPrunePoint list"
  psDurableWatermark :: u64

definition AssemblerHeight_toProto :: "AssemblerHeight \<Rightarrow> pHeight" where
  "AssemblerHeight_toProto h = \<lparr>pahParty = ucast (ahParty h), pahDecisionNum = ahDecisionNum h\<rparr>"

definition AssemblerHeight_fromProto :: "pHeight \<Rightarrow> error + AssemblerHeight" where
  "AssemblerHeight_fromProto ph =
     (if pahParty ph > MaxUint16
      then Inl (ErrNew ''the AssemblerHeight Party value exceeds uint16 maximum'')
      else Inr \<lparr>ahParty = ucast (pahParty ph), ahDecisionNum = pahDecisionNum ph\<rparr>)"

definition PrunePoint_toProto :: "PrunePoint \<Rightarrow> pPrunePoint" where
  "PrunePoint_toProto p =
     \<lparr>pppShard = ucast (ppShard p), pppPrimary = ucast (ppPrimary p), pppSeq = ppSeq p\<rparr>"

definition PrunePoint_fromProto :: "pPrunePoint \<Rightarrow> error + PrunePoint" where
  "PrunePoint_fromProto pp =
     (if pppShard pp > MaxUint16
        then Inl (ErrNew ''the PrunePoint Shard value exceeds uint16 maximum'')
      else if pppPrimary pp > MaxUint16
        then Inl (ErrNew ''the PrunePoint Primary value exceeds uint16 maximum'')
      else Inr \<lparr>ppShard = ucast (pppShard pp), ppPrimary = ucast (pppPrimary pp), ppSeq = pppSeq pp\<rparr>)"

definition State_toProto :: "State \<Rightarrow> pState" where
  "State_toProto s =
     \<lparr>psNumberOfParties = ucast (st_N s),
      psShards = map (\<lambda>st. \<lparr>pstShard = ucast (stShard st), pstTerm = stTerm st\<rparr>) (st_Shards s),
      psPending = map BAF_ToProto (st_Pending s),
      psComplaints = map Complaint_toProto (st_Complaints s),
      psAppContext = st_AppContext s,
      psStaleConfigBafs = map BAF_ToProto (st_StaleConfigBAFs s),
      psAssemblerHeights = map AssemblerHeight_toProto (st_AssemblerHeights s),
      psPrunePoints = map PrunePoint_toProto (st_PrunePoints s),
      psDurableWatermark = st_DurableWatermark s\<rparr>"

definition State_Serialize :: "pState proto_lib \<Rightarrow> State \<Rightarrow> fault + bytes" where
  "State_Serialize P s = wrap_err (\<lambda>e. Panicked ''proto.Marshal'') (Marshal P (State_toProto s))"

definition ShardTerm_fromProto :: "pShardTerm \<Rightarrow> error + ShardTerm" where
  "ShardTerm_fromProto ps =
     (if pstShard ps > MaxUint16 then Inl (ErrNew ''the Shard value exceeds uint16 maximum'')
      else Inr \<lparr>stShard = ucast (pstShard ps), stTerm = pstTerm ps\<rparr>)"

definition BAFs_fromProto :: "string \<Rightarrow> pBAF list \<Rightarrow> error + BAF list" where
  "BAFs_fromProto msg pbs =
     wrap_err (\<lambda>e. ErrNew msg) (map_res (\<lambda>pb. BAF_FromProto (Some pb)) pbs)"

definition State_fromProto :: "pState \<Rightarrow> error + State" where
  "State_fromProto ps =
     (if psNumberOfParties ps > MaxUint16
      then Inl (ErrNew ''the NumberOfParties value exceeds uint16 maximum'')
      else
        let n = ucast (psNumberOfParties ps);
            (threshold, quorum) = (if n = 0 then (0, 0) else snd (ComputeFTQ n))
        in res_bind (map_res ShardTerm_fromProto (psShards ps)) (\<lambda>shards.
           res_bind (BAFs_fromProto ''failed loading batch attestation fragment'' (psPending ps)) (\<lambda>pending.
           res_bind (wrap_err (\<lambda>e. ErrNew ''failed loading complaint'')
             (map_res Complaint_fromProto (psComplaints ps))) (\<lambda>complaints.
           res_bind (BAFs_fromProto ''failed loading stale config batch attestation fragment''
             (psStaleConfigBafs ps)) (\<lambda>stale.
           res_bind (wrap_err (\<lambda>e. ErrWrap e ''failed loading assembler height'')
             (map_res AssemblerHeight_fromProto (psAssemblerHeights ps))) (\<lambda>heights.
           res_bind (wrap_err (\<lambda>e. ErrWrap e ''failed loading prune point'')
             (map_res PrunePoint_fromProto (psPrunePoints ps))) (\<lambda>prunePoints.
           Inr \<lparr>st_N = n, st_Quorum = quorum, st_Threshold = threshold, st_Shards = shards,
                st_Pending = pending, st_Complaints = complaints, st_AppContext = psAppContext ps,
                st_StaleConfigBAFs = stale, st_AssemblerHeights = heights,
                st_PrunePoints = prunePoints, st_DurableWatermark = psDurableWatermark ps\<rparr>)))))))"

definition State_Deserialize :: "pState proto_lib \<Rightarrow> bytes \<Rightarrow> error + State" where
  "State_Deserialize P rawBytes = res_bind (Unmarshal P rawBytes) State_fromProto"

section \<open>The header of a decision\<close>

record Header =
  hNum :: DecisionNum
  hPrevHash :: bytes
  hAvailableCommonBlocks :: "Block list"
  hState :: "State option"
  hDecisionNumOfLastConfigBlock :: DecisionNum

record pHeader =
  phNum :: u64
  phDecisionNumOfLastConfigBlock :: u64
  phPrevHash :: bytes
  phAvailableCommonBlocks :: "bytes list"
  phState :: bytes

text \<open>The codecs of the messages of consensus.\<close>

record consensus_wire = block_wire +
  wState :: "pState proto_lib"
  wHeader :: "pHeader proto_lib"

definition Header_toProto :: "'z consensus_wire_scheme \<Rightarrow> Header \<Rightarrow> fault + pHeader" where
  "Header_toProto W h =
     res_bind (map_res (\<lambda>block. wrap_err (\<lambda>e. Panicked ''failed to marshal available common block'')
       (Marshal (wBlock W) block)) (hAvailableCommonBlocks h)) (\<lambda>availableCommonBlocksBytes.
     res_bind (case hState h of None \<Rightarrow> Inr [] | Some s \<Rightarrow> State_Serialize (wState W) s) (\<lambda>rawState.
     Inr \<lparr>phNum = hNum h, phDecisionNumOfLastConfigBlock = hDecisionNumOfLastConfigBlock h,
          phPrevHash = hPrevHash h, phAvailableCommonBlocks = availableCommonBlocksBytes,
          phState = rawState\<rparr>))"

definition Header_Serialize :: "'z consensus_wire_scheme \<Rightarrow> Header \<Rightarrow> fault + bytes" where
  "Header_Serialize W h =
     res_bind (Header_toProto W h) (\<lambda>protoHeader.
     wrap_err (\<lambda>e. Panicked ''failed to marshal header'') (Marshal (wHeader W) protoHeader))"

definition Header_Deserialize :: "'z consensus_wire_scheme \<Rightarrow> bytes option \<Rightarrow> error + Header" where
  "Header_Deserialize W raw =
     (case raw of
        None \<Rightarrow> Inl (ErrNew ''nil bytes'')
      | Some rawBytes \<Rightarrow>
          if rawBytes = [] then Inl (ErrNew ''empty bytes'')
          else
            res_bind (wrap_err (\<lambda>e. ErrWrap e ''failed to unmarshal header'')
              (Unmarshal (wHeader W) rawBytes)) (\<lambda>ph.
            res_bind (wrap_err (\<lambda>e. ErrWrap e ''failed to unmarshal available common block'')
              (map_res (Unmarshal (wBlock W)) (phAvailableCommonBlocks ph))) (\<lambda>blocks.
            res_bind (if phState ph = [] then Inr None
                      else wrap_err (\<lambda>e. ErrWrap e ''failed to deserialize state'')
                        (res_bind (State_Deserialize (wState W) (phState ph)) (\<lambda>s. Inr (Some s)))) (\<lambda>st.
            Inr \<lparr>hNum = phNum ph, hPrevHash = phPrevHash ph, hAvailableCommonBlocks = blocks,
                 hState = st,
                 hDecisionNumOfLastConfigBlock = phDecisionNumOfLastConfigBlock ph\<rparr>))))"

section \<open>Proposals, signatures and decisions\<close>

record Proposal =
  prPayload :: "bytes option"
  prHeader :: "bytes option"
  prMetadata :: "bytes option"
  prVerificationSequence :: u64

record Signature =
  sigID :: u64
  sigValue :: bytes
  sigMsg :: bytes

record Decision =
  decProposal :: Proposal
  decSignatures :: "Signature list"

definition ProposalToBytes :: "Proposal \<Rightarrow> bytes" where
  "ProposalToBytes p = der_seq
     (der_octets (nil_bytes (prPayload p)) @ der_octets (nil_bytes (prHeader p)) @
      der_octets (nil_bytes (prMetadata p)) @ der_int (sint (prVerificationSequence p)))"

text \<open>Elements after the last field of a struct are ignored by \<^verbatim>\<open>asn1.Unmarshal\<close>.\<close>

definition parse_proposal :: "bytes \<Rightarrow> Proposal option" where
  "parse_proposal c =
     Option.bind (parse_octets c) (\<lambda>(payload, c1).
     Option.bind (parse_octets c1) (\<lambda>(header, c2).
     Option.bind (parse_octets c2) (\<lambda>(metadata, c3).
     Option.bind (parse_int64 c3) (\<lambda>(seq, c4).
     Some \<lparr>prPayload = Some payload, prHeader = Some header, prMetadata = Some metadata,
           prVerificationSequence = seq\<rparr>))))"

definition asn1_error :: error where
  "asn1_error = ErrNew ''asn1''"

definition of_asn1 :: "'a option \<Rightarrow> error + 'a" where
  "of_asn1 x = (case x of None \<Rightarrow> Inl asn1_error | Some y \<Rightarrow> Inr y)"

definition BytesToProposal :: "bytes \<Rightarrow> error + Proposal" where
  "BytesToProposal rawBytes = of_asn1 (Option.bind (parse_seq rawBytes) parse_proposal)"

definition Signature_asn1 :: "Signature \<Rightarrow> bytes" where
  "Signature_asn1 sig = der_seq
     (der_int (sint (sigID sig)) @ der_octets (sigValue sig) @ der_octets (sigMsg sig))"

definition parse_signature :: "bytes \<Rightarrow> Signature option" where
  "parse_signature c =
     Option.bind (parse_int64 c) (\<lambda>(id, c1).
     Option.bind (parse_octets c1) (\<lambda>(value, c2).
     Option.bind (parse_octets c2) (\<lambda>(msg, c3).
     Some \<lparr>sigID = id, sigValue = value, sigMsg = msg\<rparr>)))"

definition DecisionSignaturesToBytes :: "Signature list \<Rightarrow> bytes" where
  "DecisionSignaturesToBytes signatures = marshal_octets_list (map Signature_asn1 signatures)"

definition BytesToDecisionSignatures :: "bytes \<Rightarrow> error + Signature list" where
  "BytesToDecisionSignatures rawBytes =
     res_bind (of_asn1 (unmarshal_octets_list rawBytes)) (\<lambda>rawSigs.
     map_res (\<lambda>rawSig. of_asn1 (Option.bind (parse_seq rawSig) parse_signature)) rawSigs)"

section \<open>Compound signatures\<close>

definition CompoundSig_UnPack :: "Signature \<Rightarrow> error + Signature list" where
  "CompoundSig_UnPack cSig =
     (if length (sigValue cSig) = 0 then Inl (ErrNew ''empty signature value'')
      else
        res_bind (wrap_err (\<lambda>e. ErrWrap e ''failed to unmarshal values'')
          (of_asn1 (unmarshal_octets_list (sigValue cSig)))) (\<lambda>values.
        if length values = 0 then Inl (ErrNew ''zero signature values'')
        else
          res_bind (wrap_err (\<lambda>e. ErrWrap e ''failed to unmarshal msgs'')
            (of_asn1 (unmarshal_octets_list (sigMsg cSig)))) (\<lambda>msgs.
          if length msgs = 0 then Inl (ErrNew ''zero signature msgs'')
          else if length msgs \<noteq> length values
            then Inl (ErrNew ''number of msgs does not match number of values'')
          else Inr (map (\<lambda>i. \<lparr>sigID = sigID cSig, sigValue = values ! i, sigMsg = msgs ! i\<rparr>)
                      [0..<length values]))))"

definition unpack_party :: "nat \<Rightarrow> Signature \<Rightarrow> error + Signature list" where
  "unpack_party numBlocks cSig =
     res_bind (wrap_err (\<lambda>e. ErrWrap e ''failed to Unpack compound sig'') (CompoundSig_UnPack cSig))
       (\<lambda>partySigs.
        if length partySigs \<noteq> numBlocks + 1 then Inl (ErrNew ''extracted signatures but expected'')
        else Inr partySigs)"

definition UnpackBlockHeaderSigs :: "Signature list \<Rightarrow> nat \<Rightarrow> error + Signature list list" where
  "UnpackBlockHeaderSigs compoundSigs numBlocks =
     (if length compoundSigs = 0 then Inl (ErrNew ''zero compound sigs'')
      else if numBlocks = 0 then Inr []
      else
        res_bind (map_res (unpack_party numBlocks) compoundSigs) (\<lambda>sigs.
        Inr (map (\<lambda>blockIdx. map (\<lambda>partySigs. partySigs ! (blockIdx + 1)) sigs) [0..<numBlocks])))"

section \<open>Consenter blocks\<close>

definition ConsenterBlockToProposal :: "Block option \<Rightarrow> error + Proposal" where
  "ConsenterBlockToProposal blk =
     (case blk of
        None \<Rightarrow> Inl (ErrNew ''block is nil'')
      | Some block \<Rightarrow>
          if blkHeader block = None then Inl (ErrNew ''block header is nil'')
          else (case blkData block of
                  Some (proposalBytes # _) \<Rightarrow> BytesToProposal proposalBytes
                | _ \<Rightarrow> Inl (ErrNew ''data is empty for block'')))"

definition ConsenterBlockToDecision :: "Block option \<Rightarrow> error + Decision" where
  "ConsenterBlockToDecision blk =
     res_bind (wrap_err (\<lambda>e. ErrWrap e ''failed to deserialize proposal for block'')
       (ConsenterBlockToProposal blk)) (\<lambda>proposal.
     (case Option.bind blk blkMetadata of
        Some (md # mds) \<Rightarrow>
          if BlockMetadataIndex_SIGNATURES \<ge> length (md # mds)
            then Inl (ErrNew ''block metadata index is out of range'')
          else let signaturesBytes = (md # mds) ! BlockMetadataIndex_SIGNATURES in
            if length signaturesBytes = 0 then Inl (ErrNew ''signatures metadata is empty for block'')
            else
              res_bind (wrap_err (\<lambda>e. ErrWrap e ''failed to deserialize signatures for block'')
                (BytesToDecisionSignatures signaturesBytes)) (\<lambda>signatures.
              Inr \<lparr>decProposal = proposal, decSignatures = signatures\<rparr>)
      | _ \<Rightarrow> Inl (ErrNew ''metadata is empty for block'')))"

definition CreateBlockToAppendFromDecision ::
  "(bytes \<Rightarrow> bytes) \<Rightarrow> 'z consensus_wire_scheme \<Rightarrow> u64 \<Rightarrow> Proposal \<Rightarrow> Signature list \<Rightarrow> bytes \<Rightarrow> u64 \<Rightarrow> fault + Block" where
  "CreateBlockToAppendFromDecision sha256 W number proposal signatures prevHash decisionNumOfLastConfigBlock =
     (let data = [ProposalToBytes proposal];
          block = InitBlockMetadata
            \<lparr>blkHeader = Some \<lparr>bhNumber = number, bhPreviousHash = prevHash,
               bhDataHash = ComputeBlockDataHash sha256 data\<rparr>,
             blkData = Some data, blkMetadata = None\<rparr>
      in res_bind (MarshalOrPanic (wLastConfig W) decisionNumOfLastConfigBlock) (\<lambda>lastConfig.
         res_bind (MarshalOrPanic (wMetadata W) \<lparr>mdValue = lastConfig, mdSignatures = []\<rparr>) (\<lambda>lastConfigMd.
         Inr (block\<lparr>blkMetadata := Some ((nil_list (blkMetadata block))
           [BlockMetadataIndex_SIGNATURES := DecisionSignaturesToBytes signatures,
            BlockMetadataIndex_ORDERER := nil_bytes (prMetadata proposal),
            BlockMetadataIndex_LAST_CONFIG := lastConfigMd])\<rparr>))))"

definition GetLastConfigIndexFromConsenterBlock :: "'z consensus_wire_scheme \<Rightarrow> Block option \<Rightarrow> error + u64" where
  "GetLastConfigIndexFromConsenterBlock W blk =
     (case blk of
        None \<Rightarrow> Inl (ErrNew ''nil block'')
      | Some block \<Rightarrow>
          (case blkHeader block of
             None \<Rightarrow> Inl (ErrNew ''nil block header'')
           | Some header \<Rightarrow>
               if bhNumber header = 0 then Inr 0
               else
                 res_bind (GetMetadataFromBlock W block BlockMetadataIndex_LAST_CONFIG) (\<lambda>m.
                 Unmarshal (wLastConfig W) (mdValue m))))"

definition IsConsenterConfigBlock :: "'z consensus_wire_scheme \<Rightarrow> Block option \<Rightarrow> bool" where
  "IsConsenterConfigBlock W blk =
     (case Option.bind blk blkHeader of
        None \<Rightarrow> False
      | Some header \<Rightarrow>
          if bhNumber header = 0 then True
          else (case GetLastConfigIndexFromConsenterBlock W blk of
                  Inl e \<Rightarrow> False
                | Inr lastConfigIndex \<Rightarrow> lastConfigIndex = bhNumber header))"

definition extractFabricConfigBlock :: "'z consensus_wire_scheme \<Rightarrow> Block option \<Rightarrow> error + Block" where
  "extractFabricConfigBlock W blk =
     (case blk of
        None \<Rightarrow> Inl (ErrNew ''block is nil'')
      | Some block \<Rightarrow>
          if blkHeader block = None then Inl (ErrNew ''block header is nil'')
          else if nil_list (blkData block) = [] then Inl (ErrNew ''block data is empty'')
          else
            res_bind (wrap_err (\<lambda>e. ErrWrap e ''failed to extract proposal from consenter block'')
              (ConsenterBlockToProposal blk)) (\<lambda>proposal.
            res_bind (wrap_err (\<lambda>e. ErrWrap e ''failed to deserialize header'')
              (Header_Deserialize W (prHeader proposal))) (\<lambda>header.
            if hAvailableCommonBlocks header = []
            then Inl (ErrNew ''no available common blocks in consenter block'')
            else Inr (last (hAvailableCommonBlocks header)))))"

text \<open>Whether a Fabric block is a config block is decided by \<^verbatim>\<open>protoutil.IsConfigBlock\<close>, a parameter.\<close>

definition CommonConfigFromBlock :: "fabric_lib \<Rightarrow> Block option \<Rightarrow> error + ConfigEnvelope" where
  "CommonConfigFromBlock L blk =
     (case (Option.bind blk blkHeader, Option.bind blk blkData) of
        (Some header, Some (txn # _)) \<Rightarrow>
          res_bind (wrap_err (\<lambda>e. ErrWrap e ''error unmarshalling Envelope'') (UnmarshalEnvelope L txn)) (\<lambda>env.
          res_bind (UnmarshalPayload L (envPayload env)) (\<lambda>payload.
          if bhNumber header = 0
          then wrap_err (\<lambda>e. ErrWrap e ''invalid config envelope'') (UnmarshalConfigEnvelope L (plData payload))
          else (case plHeader payload of
                  None \<Rightarrow> Inl (ErrNew ''nil header in payload'')
                | Some ph \<Rightarrow>
                    res_bind (UnmarshalChannelHeader L (phChannelHeader ph)) (\<lambda>chdr.
                    if chType chdr \<noteq> HeaderType_CONFIG then Inl (ErrNew ''not a config block'')
                    else wrap_err (\<lambda>e. ErrWrap e ''invalid config envelope'')
                      (UnmarshalConfigEnvelope L (plData payload))))))
      | _ \<Rightarrow> Inl (ErrNew ''empty block''))"

definition ConsenterConfigFromBlock ::
  "fabric_lib \<Rightarrow> (Block \<Rightarrow> bool) \<Rightarrow> 'z consensus_wire_scheme \<Rightarrow> Block option \<Rightarrow> error + ConfigEnvelope" where
  "ConsenterConfigFromBlock L isConfig W blk =
     res_bind (extractFabricConfigBlock W blk) (\<lambda>fabricConfigBlock.
     if \<not> isConfig fabricConfigBlock
     then Inl (ErrNew ''Consenter decision block does not contain a config block'')
     else CommonConfigFromBlock L (Some fabricConfigBlock))"

definition ConfigBlockNumFromBlock ::
  "(Block \<Rightarrow> bool) \<Rightarrow> 'z consensus_wire_scheme \<Rightarrow> Block option \<Rightarrow> error + u64" where
  "ConfigBlockNumFromBlock isConfig W blk =
     res_bind (extractFabricConfigBlock W blk) (\<lambda>fabricConfigBlock.
     if \<not> isConfig fabricConfigBlock
     then Inl (ErrNew ''Consenter decision block does not contain a config block'')
     else (case blkHeader fabricConfigBlock of
             None \<Rightarrow> Inl (ErrNew ''fabric config block header is nil'')
           | Some header \<Rightarrow> Inr (bhNumber header)))"

section \<open>Reading back what was written\<close>

text \<open>A state whose derived fields are the ones that \<^verbatim>\<open>Deserialize\<close> computes.\<close>

definition state_normal :: "State \<Rightarrow> bool" where
  "state_normal s \<longleftrightarrow>
     (st_Threshold s, st_Quorum s) = (if st_N s = 0 then (0, 0) else snd (ComputeFTQ (st_N s))) \<and>
     list_all BAF_normal (st_Pending s) \<and> list_all BAF_normal (st_StaleConfigBAFs s)"

lemma BAFs_from_to: "list_all BAF_normal bs \<Longrightarrow> BAFs_fromProto msg (map BAF_ToProto bs) = Inr bs"
  by (simp add: BAFs_fromProto_def map_res_map map_res_id BAF_From_To_normal list_all_iff)

lemma heights_from_to: "map_res AssemblerHeight_fromProto (map AssemblerHeight_toProto hs) = Inr hs"
  by (simp add: map_res_map map_res_id AssemblerHeight_fromProto_def AssemblerHeight_toProto_def)

lemma prune_points_from_to: "map_res PrunePoint_fromProto (map PrunePoint_toProto ps) = Inr ps"
  by (simp add: map_res_map map_res_id PrunePoint_fromProto_def PrunePoint_toProto_def)

lemma State_from_to:
  assumes "state_normal s"
  shows "State_fromProto (State_toProto s) = Inr s"
proof -
  have "map_res ShardTerm_fromProto
      (map (\<lambda>st. \<lparr>pstShard = ucast (stShard st), pstTerm = stTerm st\<rparr>) (st_Shards s)) = Inr (st_Shards s)"
    by (simp add: map_res_map map_res_id ShardTerm_fromProto_def)
  moreover have "map_res Complaint_fromProto (map Complaint_toProto (st_Complaints s)) = Inr (st_Complaints s)"
    by (simp add: map_res_map map_res_id)
  moreover have "ucast (ucast (st_N s) :: u32) = st_N s" "\<not> (ucast (st_N s) :: u32) > MaxUint16"
    by simp_all
  ultimately show ?thesis
    using assms
    by (cases s) (auto simp: State_fromProto_def State_toProto_def BAFs_from_to heights_from_to
        prune_points_from_to state_normal_def Let_def split: prod.splits if_splits)
qed

lemma BAFs_fromProto_normal: "BAFs_fromProto msg pbs = Inr bs \<Longrightarrow> list_all BAF_normal bs"
  by (auto simp: BAFs_fromProto_def map_res_Inr_iff list_all2_conv_all_nth list_all_length
      dest: BAF_FromProto_normal)

lemma State_fromProto_normal: "State_fromProto ps = Inr s \<Longrightarrow> state_normal s"
  by (auto simp: State_fromProto_def state_normal_def res_bind_Inr_iff BAFs_fromProto_normal Let_def
      split: if_splits prod.splits)

lemma State_round_trip:
  assumes "state_normal s" and "wire_faithful P (State_toProto s)"
  obtains bs where "State_Serialize P s = Inr bs" "State_Deserialize P bs = Inr s"
    "Marshal P (State_toProto s) = Inr bs"
proof -
  from assms(2) obtain bs where "Marshal P (State_toProto s) = Inr bs" "Unmarshal P bs = Inr (State_toProto s)"
    by (rule wire_faithfulE)
  then show thesis
    using assms(1) by (intro that) (simp_all add: State_Serialize_def State_Deserialize_def State_from_to)
qed

text \<open>
  What a header needs of the codecs to be read back: its blocks and its state are read back, and
  neither the state nor the header is written as no bytes at all (which is how a message is written
  whose fields all have their default value).
\<close>

definition header_faithful :: "'z consensus_wire_scheme \<Rightarrow> Header \<Rightarrow> bool" where
  "header_faithful W h \<longleftrightarrow>
     list_all (wire_faithful (wBlock W)) (hAvailableCommonBlocks h) \<and>
     (case hState h of
        None \<Rightarrow> True
      | Some s \<Rightarrow> state_normal s \<and> wire_faithful (wState W) (State_toProto s) \<and>
          Marshal (wState W) (State_toProto s) \<noteq> Inr []) \<and>
     (case Header_toProto W h of
        Inl _ \<Rightarrow> True
      | Inr ph \<Rightarrow> wire_faithful (wHeader W) ph \<and> Marshal (wHeader W) ph \<noteq> Inr [])"

lemma blocks_round_trip:
  assumes "list_all (wire_faithful P) xs"
  shows "\<exists>raws. map_res (\<lambda>x. wrap_err w (Marshal P x)) xs = Inr raws \<and> map_res (Unmarshal P) raws = Inr xs"
proof -
  have "\<exists>y. wrap_err w (Marshal P x) = Inr y \<and> Unmarshal P y = Inr x" if "x \<in> set xs" for x
    using that assms by (auto simp: list_all_iff elim: wire_faithfulE)
  then show ?thesis
    by (metis map_res_back [of xs "\<lambda>x. wrap_err w (Marshal P x)" "Unmarshal P"])
qed

lemma Header_round_trip:
  assumes "header_faithful W h"
  shows "\<exists>bs. Header_Serialize W h = Inr bs \<and> Header_Deserialize W (Some bs) = Inr h"
proof -
  obtain raws where raws: "map_res (\<lambda>block. wrap_err (\<lambda>e. Panicked ''failed to marshal available common block'')
       (Marshal (wBlock W) block)) (hAvailableCommonBlocks h) = Inr raws"
    "map_res (Unmarshal (wBlock W)) raws = Inr (hAvailableCommonBlocks h)"
    using assms blocks_round_trip unfolding header_faithful_def by blast
  obtain rawState where st: "(case hState h of None \<Rightarrow> Inr [] | Some s \<Rightarrow> State_Serialize (wState W) s) = Inr rawState"
    "(if rawState = [] then Inr None
      else wrap_err (\<lambda>e. ErrWrap e ''failed to deserialize state'')
        (res_bind (State_Deserialize (wState W) rawState) (\<lambda>s. Inr (Some s)))) = Inr (hState h)"
  proof (cases "hState h")
    case (Some s)
    then have "state_normal s" "wire_faithful (wState W) (State_toProto s)"
      "Marshal (wState W) (State_toProto s) \<noteq> Inr []"
      using assms by (auto simp: header_faithful_def)
    then show thesis
      using that Some by (auto elim!: State_round_trip)
  qed (auto intro: that)
  obtain ph where ph: "Header_toProto W h = Inr ph"
    "ph = \<lparr>phNum = hNum h, phDecisionNumOfLastConfigBlock = hDecisionNumOfLastConfigBlock h,
          phPrevHash = hPrevHash h, phAvailableCommonBlocks = raws, phState = rawState\<rparr>"
    using raws(1) st(1) by (simp add: Header_toProto_def)
  with assms have "wire_faithful (wHeader W) ph" "Marshal (wHeader W) ph \<noteq> Inr []"
    by (auto simp: header_faithful_def)
  then obtain bs where bs: "Marshal (wHeader W) ph = Inr bs" "Unmarshal (wHeader W) bs = Inr ph" "bs \<noteq> []"
    by (auto elim!: wire_faithfulE)
  have "Header_Serialize W h = Inr bs"
    using ph(1) bs(1) by (simp add: Header_Serialize_def)
  moreover have "Header_Deserialize W (Some bs) = Inr h"
    using bs(2,3) ph(2) raws(2) st(2) by (cases "rawState = []") (simp_all add: Header_Deserialize_def)
  ultimately show ?thesis by blast
qed

section \<open>Decisions and signatures\<close>

lemma DER_length: "length c < 2 ^ 31 \<Longrightarrow> length (der_octets c) \<le> length c + 10"
  using DER_bounds(2) [of c] by simp

lemma DER_seq_length: "length c < 2 ^ 31 \<Longrightarrow> length (der_seq c) \<le> length c + 10"
  using length_tlv [of c 48] by (simp add: der_seq_def)

lemma length_der_sint: "length (der_int (sint (w :: u64))) \<le> 19"
proof -
  have "- (2 ^ 63) \<le> sint w" "sint w < 2 ^ 63"
    using sint_greater_eq [of w] sint_less [of w] by simp_all
  then show ?thesis
    by (intro fits64_length_der_int) (simp add: fits64_def)
qed

text \<open>Messages that Go's parser, whose lengths are below $2^{31}$, reads back.\<close>

definition proposal_fits :: "Proposal \<Rightarrow> bool" where
  "proposal_fits p \<longleftrightarrow>
     length (nil_bytes (prPayload p)) + length (nil_bytes (prHeader p)) + length (nil_bytes (prMetadata p)) + 49 < 2 ^ 31"

definition signature_fits :: "Signature \<Rightarrow> bool" where
  "signature_fits sig \<longleftrightarrow> length (sigValue sig) + length (sigMsg sig) + 49 < 2 ^ 31"

definition nonnil :: "Proposal \<Rightarrow> Proposal" where
  "nonnil p = p\<lparr>prPayload := Some (nil_bytes (prPayload p)), prHeader := Some (nil_bytes (prHeader p)),
     prMetadata := Some (nil_bytes (prMetadata p))\<rparr>"

lemma BytesToProposal_ToBytes:
  assumes "proposal_fits p"
  shows "BytesToProposal (ProposalToBytes p) = Inr (nonnil p)"
proof -
  let ?c = "der_octets (nil_bytes (prPayload p)) @ der_octets (nil_bytes (prHeader p)) @
      der_octets (nil_bytes (prMetadata p)) @ der_int (sint (prVerificationSequence p))"
  have l: "length (nil_bytes (prPayload p)) < 2 ^ 31" "length (nil_bytes (prHeader p)) < 2 ^ 31"
    "length (nil_bytes (prMetadata p)) < 2 ^ 31"
    using assms by (simp_all add: proposal_fits_def)
  have "length ?c < 2 ^ 31"
    using assms l [THEN DER_length] length_der_sint [of "prVerificationSequence p"]
    unfolding proposal_fits_def length_append by linarith
  then have "parse_seq (ProposalToBytes p) = Some ?c"
    by (simp add: ProposalToBytes_def parse_der_end)
  moreover have "parse_proposal ?c = Some (nonnil p)"
    using l by (simp add: parse_proposal_def parse_octets_der parse_der_end nonnil_def)
  ultimately show ?thesis
    by (simp add: BytesToProposal_def of_asn1_def)
qed

lemma parse_signature_asn1:
  assumes "signature_fits sig"
  shows "Option.bind (parse_seq (Signature_asn1 sig)) parse_signature = Some sig"
    and "length (Signature_asn1 sig) \<le> length (sigValue sig) + length (sigMsg sig) + 49"
proof -
  let ?c = "der_int (sint (sigID sig)) @ der_octets (sigValue sig) @ der_octets (sigMsg sig)"
  have l: "length (sigValue sig) < 2 ^ 31" "length (sigMsg sig) < 2 ^ 31"
    using assms by (simp_all add: signature_fits_def)
  then have c: "length ?c \<le> length (sigValue sig) + length (sigMsg sig) + 39"
    using DER_length [OF l(1)] DER_length [OF l(2)] length_der_sint [of "sigID sig"] by simp
  then have "length ?c < 2 ^ 31"
    using assms by (simp add: signature_fits_def)
  then show "Option.bind (parse_seq (Signature_asn1 sig)) parse_signature = Some sig"
    using l by (simp add: Signature_asn1_def parse_signature_def parse_der_end parse_octets_der parse_int64_der_int)
  show "length (Signature_asn1 sig) \<le> length (sigValue sig) + length (sigMsg sig) + 49"
    using c \<open>length ?c < 2 ^ 31\<close> DER_seq_length [of ?c] unfolding Signature_asn1_def by linarith
qed

definition signatures_fit :: "Signature list \<Rightarrow> bool" where
  "signatures_fit sigs \<longleftrightarrow> (\<Sum>sig\<leftarrow>sigs. length (sigValue sig) + length (sigMsg sig) + 59) < 2 ^ 31"

lemma signatures_fit_Cons:
  "signatures_fit (sig # sigs) \<longleftrightarrow>
     length (sigValue sig) + length (sigMsg sig) + 59 +
       (\<Sum>s\<leftarrow>sigs. length (sigValue s) + length (sigMsg s) + 59) < 2 ^ 31"
  by (simp add: signatures_fit_def)

lemma signatures_fit_each: "signatures_fit sigs \<Longrightarrow> sig \<in> set sigs \<Longrightarrow> signature_fits sig"
proof (induction sigs)
  case (Cons s sigs)
  then show ?case
    by (auto simp: signatures_fit_Cons signature_fits_def signatures_fit_def)
qed simp

lemma length_signatures:
  assumes "signatures_fit sigs"
  shows "length (concat (map der_octets (map Signature_asn1 sigs))) \<le>
    (\<Sum>s\<leftarrow>sigs. length (sigValue s) + length (sigMsg s) + 59)"
  using assms
proof (induction sigs)
  case (Cons s sigs)
  then have IH: "length (concat (map der_octets (map Signature_asn1 sigs))) \<le>
      (\<Sum>s\<leftarrow>sigs. length (sigValue s) + length (sigMsg s) + 59)"
    by (simp add: signatures_fit_def)
  have s: "length (Signature_asn1 s) \<le> length (sigValue s) + length (sigMsg s) + 49"
    using Cons.prems by (intro parse_signature_asn1(2) signatures_fit_each [OF Cons.prems]) simp
  moreover have "length (der_octets (Signature_asn1 s)) \<le> length (Signature_asn1 s) + 10"
    using s Cons.prems by (intro DER_length) (simp add: signatures_fit_def)
  ultimately show ?case
    using IH by simp
qed simp

lemma BytesToDecisionSignatures_ToBytes:
  assumes "signatures_fit sigs"
  shows "BytesToDecisionSignatures (DecisionSignaturesToBytes sigs) = Inr sigs"
proof -
  have "length x < 2 ^ 31" if x: "x \<in> set (map Signature_asn1 sigs)" for x
  proof -
    obtain s where s: "s \<in> set sigs" "x = Signature_asn1 s"
      using x by auto
    show ?thesis
      using parse_signature_asn1(2) [OF signatures_fit_each [OF assms s(1)]]
        signatures_fit_each [OF assms s(1)] s(2) by (simp add: signature_fits_def)
  qed
  moreover have "length (concat (map der_octets (map Signature_asn1 sigs))) < 2 ^ 31"
    using length_signatures [OF assms] assms unfolding signatures_fit_def by linarith
  ultimately have "unmarshal_octets_list (DecisionSignaturesToBytes sigs) = Some (map Signature_asn1 sigs)"
    using unmarshal_marshal_octets_list [of "map Signature_asn1 sigs" "[]"]
    by (simp only: DecisionSignaturesToBytes_def append_Nil2)
  then show ?thesis
    by (simp add: BytesToDecisionSignatures_def of_asn1_def map_res_map map_res_id
        parse_signature_asn1(1) signatures_fit_each [OF assms])
qed

lemma DecisionSignaturesToBytes_nonempty [simp]: "DecisionSignaturesToBytes sigs \<noteq> []"
  by (simp add: DecisionSignaturesToBytes_def marshal_octets_list_def der_seq_def)

lemmas metadata_slots = BlockMetadataIndex_SIGNATURES_def BlockMetadataIndex_LAST_CONFIG_def
  BlockMetadataIndex_TRANSACTIONS_FILTER_def BlockMetadataIndex_ORDERER_def BlockMetadataIndex_COMMIT_HASH_def

lemma CreateBlockToAppend_value:
  assumes "wire_faithful (wLastConfig W) lc" and "wire_faithful (wMetadata W) \<lparr>mdValue = lcBytes, mdSignatures = []\<rparr>"
    and "Marshal (wLastConfig W) lc = Inr lcBytes"
  obtains md where
    "CreateBlockToAppendFromDecision sha256 W number p sigs prevHash lc =
       Inr \<lparr>blkHeader = Some \<lparr>bhNumber = number, bhPreviousHash = prevHash,
              bhDataHash = ComputeBlockDataHash sha256 [ProposalToBytes p]\<rparr>,
            blkData = Some [ProposalToBytes p],
            blkMetadata = Some [DecisionSignaturesToBytes sigs, md, [], nil_bytes (prMetadata p), []]\<rparr>"
    "Unmarshal (wMetadata W) md = Inr \<lparr>mdValue = lcBytes, mdSignatures = []\<rparr>"
    "Unmarshal (wLastConfig W) lcBytes = Inr lc"
proof -
  obtain md where md: "Marshal (wMetadata W) \<lparr>mdValue = lcBytes, mdSignatures = []\<rparr> = Inr md"
    "Unmarshal (wMetadata W) md = Inr \<lparr>mdValue = lcBytes, mdSignatures = []\<rparr>"
    using assms(2) by (rule wire_faithfulE)
  have "Unmarshal (wLastConfig W) lcBytes = Inr lc"
    using assms(1,3) by (auto elim: wire_faithfulE)
  with md show thesis
    using assms(3)
    by (intro that) (simp_all add: CreateBlockToAppendFromDecision_def MarshalOrPanic_def
        InitBlockMetadata_def metadata_slots Let_def eval_nat_numeral)
qed

lemma last_config_of_block:
  assumes "blkHeader block = Some h" "blkMetadata block = Some mds" "1 < length mds"
    and "Unmarshal (wMetadata W) (mds ! 1) = Inr \<lparr>mdValue = lcBytes, mdSignatures = []\<rparr>"
    and "Unmarshal (wLastConfig W) lcBytes = Inr lc"
  shows "GetLastConfigIndexFromConsenterBlock W (Some block) = Inr (if bhNumber h = 0 then 0 else lc)"
  using assms by (simp add: GetLastConfigIndexFromConsenterBlock_def GetMetadataFromBlock_def
      metadata_slots)

lemma CompoundSig_UnPack_value:
  assumes "CompoundSig_UnPack c = Inr sigs"
  obtains vs ms where "unmarshal_octets_list (sigValue c) = Some vs" "length vs = length sigs"
    "unmarshal_octets_list (sigMsg c) = Some ms" "length ms = length sigs"
    "\<And>i. i < length sigs \<Longrightarrow> sigs ! i = \<lparr>sigID = sigID c, sigValue = vs ! i, sigMsg = ms ! i\<rparr>"
  using assms
  by (auto simp: CompoundSig_UnPack_def res_bind_Inr_iff of_asn1_def split: if_splits option.splits)

section \<open>Properties\<close>

text \<open>
  (C33) A block in which a decision was stored gives back the decision, proposal and signatures, and
  the last config number it was stored with; it is taken for a config block exactly when it is the
  first block or the last config number is its own.
\<close>

theorem decision_block_round_trip:
  assumes "proposal_fits p" and "signatures_fit sigs"
    and "wire_faithful (wLastConfig W) lc" and "Marshal (wLastConfig W) lc = Inr lcBytes"
    and "wire_faithful (wMetadata W) \<lparr>mdValue = lcBytes, mdSignatures = []\<rparr>"
  shows "\<exists>block. CreateBlockToAppendFromDecision sha256 W number p sigs prevHash lc = Inr block \<and>
    ConsenterBlockToDecision (Some block) = Inr \<lparr>decProposal = nonnil p, decSignatures = sigs\<rparr> \<and>
    GetLastConfigIndexFromConsenterBlock W (Some block) = Inr (if number = 0 then 0 else lc) \<and>
    IsConsenterConfigBlock W (Some block) = (number = 0 \<or> lc = number)"
proof -
  obtain md where b: "CreateBlockToAppendFromDecision sha256 W number p sigs prevHash lc =
       Inr \<lparr>blkHeader = Some \<lparr>bhNumber = number, bhPreviousHash = prevHash,
              bhDataHash = ComputeBlockDataHash sha256 [ProposalToBytes p]\<rparr>,
            blkData = Some [ProposalToBytes p],
            blkMetadata = Some [DecisionSignaturesToBytes sigs, md, [], nil_bytes (prMetadata p), []]\<rparr>"
      (is "_ = Inr ?b")
    and md: "Unmarshal (wMetadata W) md = Inr \<lparr>mdValue = lcBytes, mdSignatures = []\<rparr>"
    and lc: "Unmarshal (wLastConfig W) lcBytes = Inr lc"
    using assms(3,5,4) by (rule CreateBlockToAppend_value)
  have "GetLastConfigIndexFromConsenterBlock W (Some ?b) = Inr (if number = 0 then 0 else lc)"
    using last_config_of_block [of ?b "the (blkHeader ?b)" "the (blkMetadata ?b)" W lcBytes lc] md lc by simp
  moreover have "ConsenterBlockToDecision (Some ?b) = Inr \<lparr>decProposal = nonnil p, decSignatures = sigs\<rparr>"
    using assms(1,2) by (simp add: ConsenterBlockToDecision_def ConsenterBlockToProposal_def
        BytesToProposal_ToBytes BytesToDecisionSignatures_ToBytes metadata_slots)
  ultimately show ?thesis
    using b by (auto simp: IsConsenterConfigBlock_def)
qed

text \<open>Codecs with which a consenter block of a small header can be written and read.\<close>

definition ex_block :: "u64 \<Rightarrow> Block" where
  "ex_block n = \<lparr>blkHeader = Some \<lparr>bhNumber = n, bhPreviousHash = [1], bhDataHash = [2]\<rparr>,
     blkData = Some [], blkMetadata = None\<rparr>"

definition ex_ledger_state :: State where
  "ex_ledger_state = \<lparr>st_N = 4, st_Quorum = 3, st_Threshold = 2, st_Shards = [\<lparr>stShard = 1, stTerm = 0\<rparr>],
     st_Pending = [], st_Complaints = [], st_AppContext = [7], st_StaleConfigBAFs = [],
     st_AssemblerHeights = [\<lparr>ahParty = 2, ahDecisionNum = 6\<rparr>],
     st_PrunePoints = [\<lparr>ppShard = 1, ppPrimary = 2, ppSeq = 3\<rparr>], st_DurableWatermark = 5\<rparr>"

definition ex_header :: Header where
  "ex_header = \<lparr>hNum = 9, hPrevHash = [], hAvailableCommonBlocks = [ex_block 20, ex_block 21],
     hState = Some ex_ledger_state, hDecisionNumOfLastConfigBlock = 9\<rparr>"

definition ex_wire :: consensus_wire where
  "ex_wire =
     \<lparr>wMetadata = one_message \<lparr>mdValue = [8, 9], mdSignatures = []\<rparr> [10, 2, 8, 9],
      wLastConfig = one_message 9 [8, 9],
      wBlockHeader = one_message \<lparr>bhNumber = 20, bhPreviousHash = [1], bhDataHash = [2]\<rparr> [0],
      wBlock = \<lparr>Marshal = \<lambda>b. Inr (case blkHeader b of None \<Rightarrow> [] | Some h \<Rightarrow> [ucast (bhNumber h)]),
                Unmarshal = \<lambda>bs. Inr (ex_block (ucast (hd bs)))\<rparr>,
      wState = one_message (State_toProto ex_ledger_state) [4],
      wHeader = one_message \<lparr>phNum = 9, phDecisionNumOfLastConfigBlock = 9, phPrevHash = [],
        phAvailableCommonBlocks = [[20], [21]], phState = [4]\<rparr> [77]\<rparr>"

definition ex_proposal :: Proposal where
  "ex_proposal = \<lparr>prPayload = None, prHeader = Some [77], prMetadata = Some [5], prVerificationSequence = 3\<rparr>"

definition ex_signatures :: "Signature list" where
  "ex_signatures = [\<lparr>sigID = 1, sigValue = [1, 2], sigMsg = [3]\<rparr>, \<lparr>sigID = 2, sigValue = [], sigMsg = [4]\<rparr>]"

theorem decision_block_round_trip_witness:
  "\<exists>block. CreateBlockToAppendFromDecision id ex_wire 9 ex_proposal ex_signatures [6] 9 = Inr block \<and>
    ConsenterBlockToDecision (Some block) =
      Inr \<lparr>decProposal = nonnil ex_proposal, decSignatures = ex_signatures\<rparr> \<and>
    GetLastConfigIndexFromConsenterBlock ex_wire (Some block) = Inr (if 9 = (0 :: u64) then 0 else 9) \<and>
    IsConsenterConfigBlock ex_wire (Some block) = (9 = (0 :: u64) \<or> 9 = (9 :: u64))"
  by (rule decision_block_round_trip [where lcBytes = "[8, 9]"])
    (simp_all add: proposal_fits_def signatures_fit_def ex_proposal_def ex_signatures_def nil_bytes_def
      ex_wire_def wire_faithful_def one_message_def)

text \<open>
  A node that reads a consenter block recovers the Fabric config block of the decision: for a
  block that stores a proposal whose header was serialized from \<open>h\<close>, the extracted block is the last
  of the common blocks of \<open>h\<close>, with its state and blocks unchanged by the encoding.
\<close>

theorem config_block_recovered:
  assumes "header_faithful W h" and "Header_Serialize W h = Inr hb" and "hAvailableCommonBlocks h \<noteq> []"
    and "prHeader p = Some hb" and "proposal_fits p"
    and "CreateBlockToAppendFromDecision sha256 W number p sigs prevHash lc = Inr block"
  shows "Header_Deserialize W (prHeader p) = Inr h \<and>
    extractFabricConfigBlock W (Some block) = Inr (last (hAvailableCommonBlocks h))"
proof -
  have h: "Header_Deserialize W (Some hb) = Inr h"
    using Header_round_trip [OF assms(1)] assms(2) by auto
  have b: "blkHeader block \<noteq> None" "blkData block = Some [ProposalToBytes p]"
    using assms(6) by (auto simp: CreateBlockToAppendFromDecision_def InitBlockMetadata_def
        res_bind_Inr_iff Let_def)
  then have "ConsenterBlockToProposal (Some block) = Inr (nonnil p)"
    using assms(5) by (simp add: ConsenterBlockToProposal_def BytesToProposal_ToBytes)
  then show ?thesis
    using b h assms(3,4) by (simp add: extractFabricConfigBlock_def nonnil_def nil_bytes_def)
qed

theorem config_block_recovered_witness:
  "\<exists>block. Header_Deserialize ex_wire (prHeader ex_proposal) = Inr ex_header \<and>
    extractFabricConfigBlock ex_wire (Some block) = Inr (last (hAvailableCommonBlocks ex_header))"
proof -
  let ?b = "CreateBlockToAppendFromDecision id ex_wire 9 ex_proposal ex_signatures [6] 9"
  have ph: "Header_toProto ex_wire ex_header = Inr \<lparr>phNum = 9, phDecisionNumOfLastConfigBlock = 9,
      phPrevHash = [], phAvailableCommonBlocks = [[20], [21]], phState = [4]\<rparr>"
    by (simp add: Header_toProto_def ex_header_def ex_wire_def ex_block_def State_Serialize_def one_message_def)
  have "state_normal ex_ledger_state"
    by code_simp
  with ph have "header_faithful ex_wire ex_header"
    by (simp add: header_faithful_def ex_header_def wire_faithful_def ex_wire_def one_message_def ex_block_def)
  moreover have "Header_Serialize ex_wire ex_header = Inr [77]"
    using ph by (simp add: Header_Serialize_def ex_wire_def one_message_def)
  moreover have "\<exists>block. ?b = Inr block"
    by (simp add: CreateBlockToAppendFromDecision_def MarshalOrPanic_def ex_wire_def one_message_def Let_def)
  moreover have "hAvailableCommonBlocks ex_header \<noteq> []" "prHeader ex_proposal = Some [77]" "proposal_fits ex_proposal"
    by (simp_all add: ex_header_def ex_proposal_def proposal_fits_def nil_bytes_def)
  ultimately show ?thesis
    using config_block_recovered [of ex_wire ex_header "[77]" ex_proposal id 9 ex_signatures "[6]" 9] by blast
qed

text \<open>
  (C34) A state that a node accepts from the wire is well typed: its threshold and quorum are the ones
  of its number of parties, its fragments are in the form in which fragments are read, and it is
  written back as a message that reads as the same state.
\<close>

theorem deserialized_state_normal:
  assumes "State_Deserialize P bs = Inr s"
  shows "state_normal s \<and> State_fromProto (State_toProto s) = Inr s"
  using assms State_fromProto_normal State_from_to by (auto simp: State_Deserialize_def res_bind_Inr_iff)

theorem deserialized_state_normal_witness:
  "state_normal ex_ledger_state \<and> State_fromProto (State_toProto ex_ledger_state) = Inr ex_ledger_state"
proof (rule deserialized_state_normal)
  have "state_normal ex_ledger_state"
    by code_simp
  then show "State_Deserialize (wState ex_wire) [4] = Inr ex_ledger_state"
    by (simp add: State_Deserialize_def ex_wire_def one_message_def State_from_to)
qed

text \<open>
  (C35) The matrix of block header signatures: row \<open>b\<close> holds, in the order of the parties, the signature
  of each party on block \<open>b\<close>, which is number \<open>b + 1\<close> of its compound signature; a compound
  signature with any other number of parts is refused.
\<close>

theorem block_signature_matrix:
  assumes "UnpackBlockHeaderSigs cs n = Inr m" and "b < n" and "i < length cs"
  shows "length m = n \<and> length (m ! b) = length cs \<and>
    (\<exists>vs ms. unmarshal_octets_list (sigValue (cs ! i)) = Some vs \<and> length vs = n + 1 \<and>
       unmarshal_octets_list (sigMsg (cs ! i)) = Some ms \<and> length ms = n + 1 \<and>
       m ! b ! i = \<lparr>sigID = sigID (cs ! i), sigValue = vs ! (b + 1), sigMsg = ms ! (b + 1)\<rparr>)"
proof -
  obtain sigs where sigs: "map_res (unpack_party n) cs = Inr sigs"
    and m: "m = map (\<lambda>blockIdx. map (\<lambda>partySigs. partySigs ! (blockIdx + 1)) sigs) [0..<n]"
    using assms(1,2) by (auto simp: UnpackBlockHeaderSigs_def res_bind_Inr_iff split: if_splits)
  then have "length sigs = length cs" "unpack_party n (cs ! i) = Inr (sigs ! i)"
    using assms(3) by (auto simp: map_res_Inr_iff list_all2_conv_all_nth)
  then have "CompoundSig_UnPack (cs ! i) = Inr (sigs ! i)" "length (sigs ! i) = n + 1"
    by (auto simp: unpack_party_def res_bind_Inr_iff split: if_splits)
  then show ?thesis
    using assms(2,3) m \<open>length sigs = length cs\<close> by (elim CompoundSig_UnPack_value) auto
qed

definition ex_compound :: "Signature list" where
  "ex_compound = [\<lparr>sigID = 1, sigValue = marshal_octets_list [[1], [2]], sigMsg = marshal_octets_list [[3], [4]]\<rparr>,
     \<lparr>sigID = 2, sigValue = marshal_octets_list [[5], [6]], sigMsg = marshal_octets_list [[7], [8]]\<rparr>]"

lemma ex_octets:
  "unmarshal_octets_list (marshal_octets_list [[a], [b]]) = Some [[a], [b]]"
  using unmarshal_marshal_octets_list [of "[[a], [b]]" "[]"]
  by (force simp: der_octets_def tlv_def der_len_def)

theorem block_signature_matrix_witness:
  "\<exists>vs ms. unmarshal_octets_list (sigValue (ex_compound ! 1)) = Some vs \<and> length vs = 1 + 1 \<and>
     unmarshal_octets_list (sigMsg (ex_compound ! 1)) = Some ms \<and> length ms = 1 + 1 \<and>
     \<lparr>sigID = 2, sigValue = [6], sigMsg = [8]\<rparr> =
       \<lparr>sigID = sigID (ex_compound ! 1), sigValue = vs ! (0 + 1), sigMsg = ms ! (0 + 1)\<rparr>"
proof -
  have "marshal_octets_list (x # xs) \<noteq> []" for x xs
    by (simp add: marshal_octets_list_def der_seq_def)
  then have "UnpackBlockHeaderSigs ex_compound 1 = Inr [[\<lparr>sigID = 1, sigValue = [2], sigMsg = [4]\<rparr>,
      \<lparr>sigID = 2, sigValue = [6], sigMsg = [8]\<rparr>]]"
    by (simp add: ex_compound_def UnpackBlockHeaderSigs_def unpack_party_def CompoundSig_UnPack_def
        of_asn1_def ex_octets)
  from block_signature_matrix [OF this, of 0 1] show ?thesis
    by (simp add: ex_compound_def)
qed

end
