(* ===== verification/Blocks.thy ===== *)
theory Blocks
  imports StateCodec
begin

text \<open>
  The Fabric blocks that a decision makes available: their creation by the leader and their
  verification by the followers (\<^verbatim>\<open>src/node/consensus/utils.go\<close>), and the batch metadata stored in
  them (\<^verbatim>\<open>src/node/ledger/assembler_ledger_util.go\<close>), from which the assembler recovers the batch.
\<close>

section \<open>Block metadata of the assembler\<close>

record OrderingInformation =
  oiCommonBlock :: "Block option"
  oiSignatures :: "Signature list"
  oiDecisionNum :: DecisionNum
  oiBatchIndex :: int
  oiBatchCount :: int

record pAssemblerBlockMetadata =
  pmPrimary :: u32
  pmShard :: u32
  pmSequence :: u64
  pmDecisionNum :: u64
  pmBatchIndex :: u32
  pmBatchCount :: u32
  pmTransactionCount :: u64

record ledger_wire = consensus_wire +
  wAssemblerBlockMetadata :: "pAssemblerBlockMetadata proto_lib"
  UnmarshalIdentifierHeader :: "bytes \<Rightarrow> error + u32"

definition AssemblerBlockMetadata_toProto ::
  "'b BatchID_scheme \<Rightarrow> OrderingInformation \<Rightarrow> u64 \<Rightarrow> pAssemblerBlockMetadata" where
  "AssemblerBlockMetadata_toProto batchID oi transactionCount =
     \<lparr>pmPrimary = ucast (Primary batchID), pmShard = ucast (Shard batchID), pmSequence = Seq batchID,
      pmDecisionNum = oiDecisionNum oi, pmBatchIndex = word_of_int (oiBatchIndex oi),
      pmBatchCount = word_of_int (oiBatchCount oi), pmTransactionCount = transactionCount\<rparr>"

definition AssemblerBlockMetadataToBytes ::
  "'z ledger_wire_scheme \<Rightarrow> 'b BatchID_scheme option \<Rightarrow> OrderingInformation option \<Rightarrow> u64 \<Rightarrow> error + bytes" where
  "AssemblerBlockMetadataToBytes W batchID orderingInfo transactionCount =
     (case batchID of
        None \<Rightarrow> Inl (ErrNew ''nil batchID'')
      | Some bid \<Rightarrow>
          (case orderingInfo of
             None \<Rightarrow> Inl (ErrNew ''nil orderingInfo'')
           | Some oi \<Rightarrow> Marshal (wAssemblerBlockMetadata W) (AssemblerBlockMetadata_toProto bid oi transactionCount)))"

record AssemblerBlockMetadata =
  amPrimary :: PartyID
  amShard :: ShardID
  amSeq :: BatchSequence
  amNum :: DecisionNum
  amBatchIndex :: u32
  amBatchCount :: u32
  amTransactionCount :: u64

definition zero_metadata :: AssemblerBlockMetadata where
  "zero_metadata = \<lparr>amPrimary = 0, amShard = 0, amSeq = 0, amNum = 0, amBatchIndex = 0, amBatchCount = 0,
     amTransactionCount = 0\<rparr>"

text \<open>
  The two range checks return \<^verbatim>\<open>errors.Wrapf(err, ...)\<close> with the named result \<^verbatim>\<open>err\<close>, which is not set yet and
  so nil there. An error result is an option here, \<^const>\<open>None\<close> for nil.
\<close>

fun Wrapf :: "error option \<Rightarrow> string \<Rightarrow> error option" where
  "Wrapf None msg = None"
| "Wrapf (Some e) msg = Some (ErrWrap e msg)"

text \<open>The results that a caller sees: the values count only when the error is nil.\<close>

fun with_error :: "error option \<Rightarrow> 'a \<Rightarrow> error + 'a" where
  "with_error None x = Inr x"
| "with_error (Some e) x = Inl e"

definition AssemblerBlockMetadataFromBytes ::
  "'z ledger_wire_scheme \<Rightarrow> bytes option \<Rightarrow> error + AssemblerBlockMetadata" where
  "AssemblerBlockMetadataFromBytes W metadata =
     (case metadata of
        None \<Rightarrow> Inl (ErrNew ''nil bytes'')
      | Some bs \<Rightarrow>
          if length bs = 0 then Inl (ErrNew ''empty bytes'')
          else
            res_bind (wrap_err (\<lambda>e. ErrWrap e ''failed to unmarshal assembler block metadata'')
              (Unmarshal (wAssemblerBlockMetadata W) bs)) (\<lambda>md.
            let err = None in
            if pmShard md > MaxUint16 then with_error (Wrapf err ''the shard value exceeds uint16 maximum'') zero_metadata
            else if pmPrimary md > MaxUint16 then with_error (Wrapf err ''the primary value exceeds uint16 maximum'') zero_metadata
            else Inr \<lparr>amPrimary = ucast (pmPrimary md), amShard = ucast (pmShard md), amSeq = pmSequence md,
              amNum = pmDecisionNum md, amBatchIndex = pmBatchIndex md, amBatchCount = pmBatchCount md,
              amTransactionCount = pmTransactionCount md\<rparr>))"

definition metadata_signature :: "'z ledger_wire_scheme \<Rightarrow> MetadataSignature \<Rightarrow> error + Signature" where
  "metadata_signature W sig =
     res_bind (wrap_err (\<lambda>e. ErrWrap e ''failed to extract signature identifier'')
       (UnmarshalIdentifierHeader W (msIdentifierHeader sig))) (\<lambda>identifier.
     Inr \<lparr>sigID = ucast identifier, sigValue = msSignature sig, sigMsg = []\<rparr>)"

definition AssemblerBatchIdOrderingInfoAndTxCountFromBlock ::
  "'z ledger_wire_scheme \<Rightarrow> Block option \<Rightarrow> error + BatchID \<times> OrderingInformation \<times> u64" where
  "AssemblerBatchIdOrderingInfoAndTxCountFromBlock W blk =
     (case blk of
        None \<Rightarrow> Inl (ErrNew ''nil block'')
      | Some block \<Rightarrow>
          (case blkHeader block of
             None \<Rightarrow> Inl (ErrNew ''nil block header'')
           | Some header \<Rightarrow>
               let mds = nil_list (blkMetadata block) in
               if mds = [] then Inl (ErrNew ''missing block metadata'')
               else if length mds < BlockMetadataIndex_ORDERER + 1
                 then Inl (ErrNew ''missing block ORDERER metadata'')
               else
                 res_bind (wrap_err (\<lambda>e. ErrWrap e ''failed to extract AssemblerBlockMetadata'')
                   (AssemblerBlockMetadataFromBytes W (Some (mds ! BlockMetadataIndex_ORDERER)))) (\<lambda>am.
                 res_bind (wrap_err (\<lambda>e. ErrWrap e ''failed to extract signatures'')
                   (GetMetadataFromBlock W block BlockMetadataIndex_SIGNATURES)) (\<lambda>mdSigs.
                 res_bind (map_res (metadata_signature W) (mdSignatures mdSigs)) (\<lambda>bftSigs.
                 Inr (NewAvailableBatch (amPrimary am) (amShard am) (amSeq am) (bhDataHash header),
                   \<lparr>oiCommonBlock = Some block, oiSignatures = bftSigs, oiDecisionNum = amNum am,
                    oiBatchIndex = uint (amBatchIndex am), oiBatchCount = uint (amBatchCount am)\<rparr>,
                   amTransactionCount am))))))"

section \<open>Fragments\<close>

definition toBeSignedBAF :: "BAF \<Rightarrow> fault + bytes" where
  "toBeSignedBAF baf = BAF_ToBeSigned baf"

definition duplicateBAFSetSigner :: "BAF \<Rightarrow> PartyID \<Rightarrow> BAF" where
  "duplicateBAFSetSigner baf signer =
     NewSimpleBatchAttestationFragment (Shard baf) (Primary baf) (Seq baf) (Digest baf) signer
       (ConfigSeq baf) (TXCount baf) (PrimarySignature baf)"

section \<open>Data and config blocks\<close>

definition ordering_info :: "DecisionNum \<Rightarrow> int \<Rightarrow> int \<Rightarrow> OrderingInformation" where
  "ordering_info decisionNum batchCount batchIndex =
     \<lparr>oiCommonBlock = None, oiSignatures = [], oiDecisionNum = decisionNum, oiBatchIndex = batchIndex,
      oiBatchCount = batchCount\<rparr>"

definition LastConfigMetadata :: "'z block_wire_scheme \<Rightarrow> u64 \<Rightarrow> fault + bytes" where
  "LastConfigMetadata W lastConfig =
     res_bind (MarshalOrPanic (wLastConfig W) lastConfig) (\<lambda>lc.
     MarshalOrPanic (wMetadata W) \<lparr>mdValue = lc, mdSignatures = []\<rparr>)"

definition config_batch :: "(bytes \<Rightarrow> bytes) \<Rightarrow> SimpleBatch" where
  "config_batch sha256 = NewSimpleBatch sha256 ShardIDConsensus 0 0 [] 0 []"

definition CreateDataCommonBlock ::
  "'z ledger_wire_scheme \<Rightarrow> u64 \<Rightarrow> bytes \<Rightarrow> 'b BatchID_scheme \<Rightarrow> u64 \<Rightarrow> DecisionNum \<Rightarrow> int \<Rightarrow> int \<Rightarrow> u64 \<Rightarrow>
   failure + Block" where
  "CreateDataCommonBlock W blockNum prevHash batchID txCount decisionNum batchCount batchIndex lastConfigBlockNum =
     (case AssemblerBlockMetadataToBytes W (Some batchID) (Some (ordering_info decisionNum batchCount batchIndex)) txCount of
        Inl e \<Rightarrow> fail ''Failed to invoke AssemblerBlockMetadataToBytes''
      | Inr blockMetadata \<Rightarrow>
          res_bind (or_fault (LastConfigMetadata W lastConfigBlockNum)) (\<lambda>lastConfig.
          Inr ((NewBlock blockNum prevHash)
            \<lparr>blkHeader := Some \<lparr>bhNumber = blockNum, bhPreviousHash = prevHash, bhDataHash = Digest batchID\<rparr>,
             blkMetadata := Some ((replicate 5 [])
               [BlockMetadataIndex_ORDERER := blockMetadata, BlockMetadataIndex_LAST_CONFIG := lastConfig])\<rparr>)))"

definition CreateConfigCommonBlock ::
  "(bytes \<Rightarrow> bytes) \<Rightarrow> 'z ledger_wire_scheme \<Rightarrow> u64 \<Rightarrow> bytes \<Rightarrow> u64 \<Rightarrow> DecisionNum \<Rightarrow> int \<Rightarrow> int \<Rightarrow> bytes \<Rightarrow>
   failure + Block" where
  "CreateConfigCommonBlock sha256 W blockNum prevHash txCount decisionNum batchCount batchIndex configReq =
     (case AssemblerBlockMetadataToBytes W (Some (config_batch sha256))
             (Some (ordering_info decisionNum batchCount batchIndex)) txCount of
        Inl e \<Rightarrow> fail ''Failed to invoke AssemblerBlockMetadataToBytes''
      | Inr blockMetadata \<Rightarrow>
          res_bind (or_fault (LastConfigMetadata W blockNum)) (\<lambda>lastConfig.
          Inr ((NewBlock blockNum prevHash)
            \<lparr>blkHeader := Some \<lparr>bhNumber = blockNum, bhPreviousHash = prevHash,
               bhDataHash = BatchedRequests_Digest sha256 [configReq]\<rparr>,
             blkData := Some [configReq],
             blkMetadata := Some ((replicate 5 [])
               [BlockMetadataIndex_ORDERER := blockMetadata, BlockMetadataIndex_LAST_CONFIG := lastConfig])\<rparr>)))"

definition verify_last_config :: "'z block_wire_scheme \<Rightarrow> Block \<Rightarrow> u64 \<Rightarrow> failure + unit" where
  "verify_last_config W block lastConfig =
     res_bind (or_err (wrap_err (\<lambda>e. ErrWrap e ''failed getting proposed block metadata last config'')
       (GetMetadataFromBlock W block BlockMetadataIndex_LAST_CONFIG))) (\<lambda>rawLastConfig.
     res_bind (or_err (wrap_err (\<lambda>e. ErrWrap e ''failed unmarshaling proposed block metadata last config'')
       (Unmarshal (wLastConfig W) (mdValue rawLastConfig)))) (\<lambda>lastConf.
     require (lastConf = lastConfig) ''last config in block metadata points to another block'' (Inr ())))"

definition VerifyDataCommonBlock ::
  "'z ledger_wire_scheme \<Rightarrow> Block \<Rightarrow> u64 \<Rightarrow> bytes \<Rightarrow> 'b BatchID_scheme \<Rightarrow> u64 \<Rightarrow> DecisionNum \<Rightarrow> int \<Rightarrow> int \<Rightarrow> u64 \<Rightarrow>
   failure + unit" where
  "VerifyDataCommonBlock W block blockNum prevHash batchID txCount decisionNum batchCount batchIndex lastConfigBlockNum =
     res_bind (deref (blkHeader block)) (\<lambda>header.
     require (bhPreviousHash header = prevHash) ''proposed block header prev hash''
    (require (bhDataHash header = Digest batchID) ''proposed block data hash''
    (require (bhNumber header = blockNum) ''proposed block header number''
    (case AssemblerBlockMetadataToBytes W (Some batchID) (Some (ordering_info decisionNum batchCount batchIndex)) txCount of
       Inl e \<Rightarrow> panic ''failed to invoke AssemblerBlockMetadataToBytes''
     | Inr computedBlockMetadata \<Rightarrow>
         let mds = nil_list (blkMetadata block) in
         require (mds \<noteq> []) ''proposed block metadata is nil''
        (res_bind (or_fault (index mds BlockMetadataIndex_ORDERER)) (\<lambda>ordererMetadata.
         require (computedBlockMetadata = ordererMetadata) ''proposed block metadata''
        (verify_last_config W block lastConfigBlockNum)))))))"

definition VerifyConfigCommonBlock ::
  "(bytes \<Rightarrow> bytes) \<Rightarrow> 'z ledger_wire_scheme \<Rightarrow> Block \<Rightarrow> u64 \<Rightarrow> bytes \<Rightarrow> bytes \<Rightarrow> u64 \<Rightarrow> DecisionNum \<Rightarrow> int \<Rightarrow> int \<Rightarrow>
   failure + unit" where
  "VerifyConfigCommonBlock sha256 W configBlock blockNum prevHash dataHash txCount decisionNum batchCount batchIndex =
     res_bind (deref (blkHeader configBlock)) (\<lambda>header.
     require (bhNumber header = blockNum) ''proposed config block header number''
    (require (bhPreviousHash header = prevHash) ''proposed config block header prev hash''
    (let data = nil_list (blkData configBlock) in
     require (data \<noteq> []) ''empty config block data''
    (require (length data = 1) ''config block does not contain only one tx''
    (require (bhDataHash header = BatchedRequests_Digest sha256 data) ''proposed config block data hash (computed digest)''
    (require (bhDataHash header = dataHash) ''proposed config block data hash''
    (case AssemblerBlockMetadataToBytes W (Some (config_batch sha256))
             (Some (ordering_info decisionNum batchCount batchIndex)) txCount of
       Inl e \<Rightarrow> panic ''failed to invoke AssemblerBlockMetadataToBytes''
     | Inr computedBlockMetadata \<Rightarrow>
         let mds = nil_list (blkMetadata configBlock) in
         require (length mds = 5) ''proposed config block metadata is not set''
        (require (computedBlockMetadata = mds ! BlockMetadataIndex_ORDERER) ''proposed config block metadata''
        (verify_last_config W configBlock blockNum)))))))))"

section \<open>Created blocks verify, verified blocks are the created ones\<close>

lemma AssemblerBlockMetadata_round_trip:
  assumes "wire_faithful (wAssemblerBlockMetadata W) (AssemblerBlockMetadata_toProto bid oi tx)"
    and "AssemblerBlockMetadataToBytes W (Some bid) (Some oi) tx = Inr bs" and "bs \<noteq> []"
  shows "AssemblerBlockMetadataFromBytes W (Some bs) =
    Inr \<lparr>amPrimary = Primary bid, amShard = Shard bid, amSeq = Seq bid, amNum = oiDecisionNum oi,
         amBatchIndex = word_of_int (oiBatchIndex oi), amBatchCount = word_of_int (oiBatchCount oi),
         amTransactionCount = tx\<rparr>"
proof -
  have "Unmarshal (wAssemblerBlockMetadata W) bs = Inr (AssemblerBlockMetadata_toProto bid oi tx)"
    using assms(1,2) by (auto simp: AssemblerBlockMetadataToBytes_def elim: wire_faithfulE)
  then show ?thesis
    using assms(3) by (simp add: AssemblerBlockMetadataFromBytes_def AssemblerBlockMetadata_toProto_def)
qed

definition last_config_faithful :: "'z block_wire_scheme \<Rightarrow> u64 \<Rightarrow> bool" where
  "last_config_faithful W lc \<longleftrightarrow> wire_faithful (wLastConfig W) lc \<and>
     (case Marshal (wLastConfig W) lc of
        Inl _ \<Rightarrow> False
      | Inr bs \<Rightarrow> wire_faithful (wMetadata W) \<lparr>mdValue = bs, mdSignatures = []\<rparr>)"

lemma last_config_faithfulE:
  assumes "last_config_faithful W lc"
  obtains bs md where "LastConfigMetadata W lc = Inr md"
    "Unmarshal (wMetadata W) md = Inr \<lparr>mdValue = bs, mdSignatures = []\<rparr>"
    "Unmarshal (wLastConfig W) bs = Inr lc"
  using assms by (auto simp: last_config_faithful_def LastConfigMetadata_def MarshalOrPanic_def
      elim!: wire_faithfulE split: sum.splits)

lemma verify_last_config_ok:
  assumes "blkMetadata b = Some mds" "BlockMetadataIndex_LAST_CONFIG < length mds"
    and "Unmarshal (wMetadata W) (mds ! BlockMetadataIndex_LAST_CONFIG) = Inr \<lparr>mdValue = bs, mdSignatures = []\<rparr>"
    and "Unmarshal (wLastConfig W) bs = Inr lc"
  shows "verify_last_config W b lc = Inr ()"
  using assms by (simp add: verify_last_config_def GetMetadataFromBlock_def require_def)

lemmas common_block_simps = NewBlock_def metadata_slots index_def require_def Let_def eval_nat_numeral

lemma VerifyDataCommonBlock_created:
  assumes "CreateDataCommonBlock W n ph bid tx dn bc bi lc = Inr b" and "last_config_faithful W lc"
  shows "VerifyDataCommonBlock W b n ph bid tx dn bc bi lc = Inr ()"
proof -
  obtain bs md where md: "LastConfigMetadata W lc = Inr md"
    "Unmarshal (wMetadata W) md = Inr \<lparr>mdValue = bs, mdSignatures = []\<rparr>"
    "Unmarshal (wLastConfig W) bs = Inr lc"
    using assms(2) by (rule last_config_faithfulE)
  then obtain am where am: "AssemblerBlockMetadataToBytes W (Some bid) (Some (ordering_info dn bc bi)) tx = Inr am"
    and b: "blkHeader b = Some \<lparr>bhNumber = n, bhPreviousHash = ph, bhDataHash = Digest bid\<rparr>"
      "blkMetadata b = Some [[], md, [], am, []]"
    using assms(1) by (auto simp: CreateDataCommonBlock_def common_block_simps split: sum.splits)
  have "verify_last_config W b lc = Inr ()"
    using b(2) md by (intro verify_last_config_ok) (auto simp: metadata_slots)
  then show ?thesis
    using am b by (simp add: VerifyDataCommonBlock_def common_block_simps)
qed

lemma VerifyConfigCommonBlock_created:
  assumes "CreateConfigCommonBlock sha256 W n ph tx dn bc bi req = Inr b" and "last_config_faithful W n"
  shows "VerifyConfigCommonBlock sha256 W b n ph (BatchedRequests_Digest sha256 [req]) tx dn bc bi = Inr ()"
proof -
  obtain bs md where md: "LastConfigMetadata W n = Inr md"
    "Unmarshal (wMetadata W) md = Inr \<lparr>mdValue = bs, mdSignatures = []\<rparr>"
    "Unmarshal (wLastConfig W) bs = Inr n"
    using assms(2) by (rule last_config_faithfulE)
  then obtain am where am: "AssemblerBlockMetadataToBytes W (Some (config_batch sha256)) (Some (ordering_info dn bc bi)) tx = Inr am"
    and b: "blkHeader b = Some \<lparr>bhNumber = n, bhPreviousHash = ph, bhDataHash = BatchedRequests_Digest sha256 [req]\<rparr>"
      "blkData b = Some [req]" "blkMetadata b = Some [[], md, [], am, []]"
    using assms(1) by (auto simp: CreateConfigCommonBlock_def common_block_simps split: sum.splits)
  have "verify_last_config W b n = Inr ()"
    using b(3) md by (intro verify_last_config_ok) (auto simp: metadata_slots)
  then show ?thesis
    using am b by (simp add: VerifyConfigCommonBlock_def common_block_simps)
qed

lemma VerifyDataCommonBlock_header:
  assumes "VerifyDataCommonBlock W b n ph bid tx dn bc bi lc = Inr ()"
  shows "blkHeader b = Some \<lparr>bhNumber = n, bhPreviousHash = ph, bhDataHash = Digest bid\<rparr>"
    and "\<exists>mds. blkMetadata b = Some mds \<and> BlockMetadataIndex_ORDERER < length mds \<and>
      AssemblerBlockMetadataToBytes W (Some bid) (Some (ordering_info dn bc bi)) tx = Inr (mds ! BlockMetadataIndex_ORDERER)"
  using assms
  by (auto simp: VerifyDataCommonBlock_def res_bind_Inr_iff index_Inr_iff Let_def nil_list_def
      split: sum.splits option.splits)

lemma VerifyConfigCommonBlock_header:
  assumes "VerifyConfigCommonBlock sha256 W b n ph dh tx dn bc bi = Inr ()"
  shows "blkHeader b = Some \<lparr>bhNumber = n, bhPreviousHash = ph, bhDataHash = dh\<rparr>"
    and "\<exists>req. blkData b = Some [req] \<and> BatchedRequests_Digest sha256 [req] = dh"
  using assms
  by (auto simp: VerifyConfigCommonBlock_def res_bind_Inr_iff Let_def nil_list_def length_Suc_conv
      split: sum.splits option.splits)

section \<open>Properties\<close>

text \<open>
  (C36) The batch of a block is recovered from it. From a block that the followers verified for a
  batch, at a position of a decision, the assembler reads back the batch identity, the position, the
  transaction count and the signatures, one per identifier header of the block.
\<close>

theorem verified_block_recovers_batch:
  assumes "VerifyDataCommonBlock W b n ph bid tx dn bc bi lc = Inr ()"
    and "wire_faithful (wAssemblerBlockMetadata W) (AssemblerBlockMetadata_toProto bid (ordering_info dn bc bi) tx)"
    and "Marshal (wAssemblerBlockMetadata W) (AssemblerBlockMetadata_toProto bid (ordering_info dn bc bi) tx) \<noteq> Inr []"
    and "0 \<le> bi" "bi < 2 ^ 32" "0 \<le> bc" "bc < 2 ^ 32"
    and "GetMetadataFromBlock W b BlockMetadataIndex_SIGNATURES = Inr md"
    and "map_res (\<lambda>s. UnmarshalIdentifierHeader W (msIdentifierHeader s)) (mdSignatures md) = Inr ids"
  shows "AssemblerBatchIdOrderingInfoAndTxCountFromBlock W (Some b) =
    Inr (BatchID.truncate bid,
      \<lparr>oiCommonBlock = Some b,
       oiSignatures = map2 (\<lambda>i s. \<lparr>sigID = ucast i, sigValue = msSignature s, sigMsg = []\<rparr>) ids (mdSignatures md),
       oiDecisionNum = dn, oiBatchIndex = bi, oiBatchCount = bc\<rparr>, tx)"
proof -
  obtain mds where mds: "blkMetadata b = Some mds" "BlockMetadataIndex_ORDERER < length mds"
    and am: "AssemblerBlockMetadataToBytes W (Some bid) (Some (ordering_info dn bc bi)) tx = Inr (mds ! BlockMetadataIndex_ORDERER)"
    using VerifyDataCommonBlock_header(2) [OF assms(1)] by blast
  have "mds ! BlockMetadataIndex_ORDERER \<noteq> []"
    using assms(3) am by (auto simp: AssemblerBlockMetadataToBytes_def)
  note md = AssemblerBlockMetadata_round_trip [OF assms(2) am this]
  have sigs: "map_res (metadata_signature W) (mdSignatures md) =
      Inr (map2 (\<lambda>i s. \<lparr>sigID = ucast i, sigValue = msSignature s, sigMsg = []\<rparr>) ids (mdSignatures md))"
    using assms(9) unfolding map_res_Inr_iff
    by (auto simp: list_all2_conv_all_nth metadata_signature_def)
  have "uint (word_of_int bi :: u32) = bi" "uint (word_of_int bc :: u32) = bc"
    using assms(4-7) by (simp_all add: uint_word_of_int_eq take_bit_int_eq_self)
  then show ?thesis
    using md sigs mds assms(8) VerifyDataCommonBlock_header(1) [OF assms(1)]
    by (auto simp: AssemblerBatchIdOrderingInfoAndTxCountFromBlock_def ordering_info_def NewAvailableBatch_def
        BatchID.truncate_def)
qed

definition ex_ledger_wire :: ledger_wire where
  "ex_ledger_wire =
     \<lparr>wMetadata = \<lparr>Marshal = \<lambda>m. Inr (mdValue m), Unmarshal = \<lambda>bs. Inr \<lparr>mdValue = bs, mdSignatures =
        [\<lparr>msSignatureHeader = [], msSignature = [4], msIdentifierHeader = [2]\<rparr>]\<rparr>\<rparr>,
      wLastConfig = \<lparr>Marshal = \<lambda>m. Inr [ucast m], Unmarshal = \<lambda>bs. Inr (ucast (hd bs))\<rparr>,
      wBlockHeader = one_message \<lparr>bhNumber = 20, bhPreviousHash = [1], bhDataHash = [2]\<rparr> [0],
      wBlock = one_message (ex_block 1) [0],
      wState = one_message (State_toProto ex_ledger_state) [4],
      wHeader = one_message \<lparr>phNum = 9, phDecisionNumOfLastConfigBlock = 9, phPrevHash = [],
        phAvailableCommonBlocks = [], phState = [4]\<rparr> [77],
      wAssemblerBlockMetadata =
        \<lparr>Marshal = \<lambda>m. Inr (put32 (pmPrimary m) @ put32 (pmShard m)),
         Unmarshal = \<lambda>bs. Inr \<lparr>pmPrimary = get32 (slice 0 4 bs), pmShard = get32 (slice 4 8 bs), pmSequence = 5,
           pmDecisionNum = 7, pmBatchIndex = 1, pmBatchCount = 2, pmTransactionCount = 100\<rparr>\<rparr>,
      UnmarshalIdentifierHeader = \<lambda>bs. Inr (ucast (hd bs))\<rparr>"

definition ex_batch_id :: BatchID where
  "ex_batch_id = \<lparr>Shard = 1, Primary = 3, Seq = 5, Digest = [9, 9]\<rparr>"

definition ex_data_block :: Block where
  "ex_data_block = \<lparr>blkHeader = Some \<lparr>bhNumber = 11, bhPreviousHash = [8], bhDataHash = [9, 9]\<rparr>,
     blkData = Some [], blkMetadata = Some [[], [6], [], [0, 0, 0, 3, 0, 0, 0, 1], []]\<rparr>"

theorem verified_block_recovers_batch_witness:
  "AssemblerBatchIdOrderingInfoAndTxCountFromBlock ex_ledger_wire (Some ex_data_block) =
    Inr (BatchID.truncate ex_batch_id,
      \<lparr>oiCommonBlock = Some ex_data_block,
       oiSignatures = map2 (\<lambda>i s. \<lparr>sigID = ucast i, sigValue = msSignature s, sigMsg = []\<rparr>) [2 :: u32]
         (mdSignatures \<lparr>mdValue = [], mdSignatures = [\<lparr>msSignatureHeader = [], msSignature = [4], msIdentifierHeader = [2]\<rparr>]\<rparr>),
       oiDecisionNum = 7, oiBatchIndex = 1, oiBatchCount = 2\<rparr>, 100)"
proof (rule verified_block_recovers_batch)
  show "VerifyDataCommonBlock ex_ledger_wire ex_data_block 11 [8] ex_batch_id 100 7 2 1 6 = Inr ()"
    by code_simp
  show "wire_faithful (wAssemblerBlockMetadata ex_ledger_wire)
      (AssemblerBlockMetadata_toProto ex_batch_id (ordering_info 7 2 1) 100)"
    by (simp add: wire_faithful_def ex_ledger_wire_def AssemblerBlockMetadata_toProto_def ex_batch_id_def
        ordering_info_def codec_simps)
  show "Marshal (wAssemblerBlockMetadata ex_ledger_wire)
      (AssemblerBlockMetadata_toProto ex_batch_id (ordering_info 7 2 1) 100) \<noteq> Inr []"
    by (simp add: ex_ledger_wire_def flip: length_0_conv)
qed (simp_all add: ex_ledger_wire_def GetMetadataFromBlock_def ex_data_block_def metadata_slots)

text \<open>
  Metadata whose shard or primary does not fit the identifiers of the system is therefore not refused: the
  caller sees the zero values and no error.
\<close>

lemma metadata_out_of_range_silent:
  assumes "Unmarshal (wAssemblerBlockMetadata W) bs = Inr md" and "bs \<noteq> []"
    and "MaxUint16 < pmShard md \<or> MaxUint16 < pmPrimary md"
  shows "AssemblerBlockMetadataFromBytes W (Some bs) = Inr zero_metadata"
  using assms by (auto simp: AssemblerBlockMetadataFromBytes_def)

end
