(* ===== verification/Consensus.thy ===== *)
theory Consensus
  imports Consenter Blocks
begin

text \<open>
  The consensus node (\<^verbatim>\<open>src/node/consensus/consensus.go\<close>) as an application of the SmartBFT library:
  verification of requests and proposals, assembly of proposals, signatures over proposals and blocks,
  delivery of decisions. What the node calls outside the repository is the record \<open>node_env\<close>:
  the hash, the codecs, the parsers of configurations, the signature schemes and the store.

  Operations that the code runs under the lock of the node are atomic here. \<^verbatim>\<open>VerifyProposal\<close> takes the
  lock a second time after it verified the requests, so it has the node at both moments as arguments:
  a reconfiguration may have come between them.
\<close>

section \<open>The node\<close>

record 'db node_env =
  sha256 :: "bytes \<Rightarrow> bytes"
  fabric :: fabric_lib
  wireEvents :: "pControlEvent proto_lib"
  wireConfigRequest :: "pConfigRequest proto_lib"
  wire :: ledger_wire
  kv :: "'db kv_lib"
  isConfigBlock :: "Block \<Rightarrow> bool"
  UnmarshalViewMetadata :: "bytes \<Rightarrow> error + u64"
  VerifySig :: "NodeIdentity \<Rightarrow> bytes \<Rightarrow> bytes \<Rightarrow> error + unit"
  ValidateConfigRequest :: "Envelope \<Rightarrow> error + unit"
  ValidateNewConfig :: "Envelope \<Rightarrow> error + unit"
  ValidateTransition :: "Envelope \<Rightarrow> error + unit"
  partiesOf :: "Envelope \<Rightarrow> error + u32 list"
  MarshalOrdererMetadata :: "u64 \<Rightarrow> bytes \<Rightarrow> error + bytes"
  MarshalIdentifierHeader :: "u32 \<Rightarrow> bytes \<Rightarrow> error + bytes"
  SignMsg :: "bytes \<Rightarrow> error + bytes"
  ExtractSmartBFTConfig :: "Block \<Rightarrow> error + u64 list"

record 'db Consensus =
  c_State :: "State option"
  c_verificationSequence :: u64
  c_lastConfigBlockNum :: u64
  c_decisionNumOfLastConfigBlock :: DecisionNum
  c_txCount :: u64
  c_PrevHash :: bytes
  c_Storage :: "Block list"
  c_DB :: 'db
  c_CurrentNodes :: "u64 list"
  c_PartyID :: PartyID
  c_SelfID :: u64
  c_softStopped :: bool

record RequestInfo =
  riID :: string
  riClientID :: string

definition no_info :: RequestInfo where
  "no_info = \<lparr>riID = [], riClientID = []\<rparr>"

section \<open>Requests\<close>

definition RequestID :: "'db node_env \<Rightarrow> bytes \<Rightarrow> fault + RequestInfo" where
  "RequestID E req =
     (case ControlEvent_FromBytes (fabric E) (wireEvents E) req of
        Inl e \<Rightarrow> Inr no_info
      | Inr ce \<Rightarrow>
          if ceComplaint ce = None \<and> ceBAF ce = None \<and> ceConfigRequest ce = None \<and> ceAssemblerReport ce = None
          then Inr no_info
          else res_bind (ControlEvent_ID (sha256 E) (fabric E) (wireConfigRequest E) ce) (\<lambda>id.
               Inr \<lparr>riID = id, riClientID = ControlEvent_SignerID ce\<rparr>))"

definition getReqConfigSeq :: "'db node_env \<Rightarrow> bytes \<Rightarrow> error + u64 \<times> bool" where
  "getReqConfigSeq E req =
     res_bind (ControlEvent_FromBytes (fabric E) (wireEvents E) req) (\<lambda>ce.
     case ceComplaint ce of
       Some c \<Rightarrow> Inr (cConfigSeq c, False)
     | None \<Rightarrow>
         (case ceBAF ce of
            Some b \<Rightarrow> Inr (ConfigSeq b, True)
          | None \<Rightarrow>
              (case ceConfigRequest ce of
                 Some r \<Rightarrow>
                   res_bind (ConfigRequest_ConfigSequence (fabric E) r) (\<lambda>configSeq.
                   Inr (if configSeq = 0 then 0 else configSeq - 1, False))
               | None \<Rightarrow>
                   (case ceAssemblerReport ce of
                      Some r \<Rightarrow> Inr (rConfigSeq r, False)
                    | None \<Rightarrow> Inl (ErrNew ''empty control event'')))))"

definition maxAssemblerReportSignatureSize :: nat where
  "maxAssemblerReportSignatureSize = 256"

definition ErrReportNotCommitted :: error where
  "ErrReportNotCommitted = ErrNew ''assembler decision report of a decision not committed yet''"

definition verifyReportDecisionNum ::
  "u64 \<Rightarrow> AssemblerDecisionReport \<Rightarrow> DecisionNum \<Rightarrow> failure + unit" where
  "verifyReportDecisionNum height report proposalNum =
     (if proposalNum = 0 then
        if height = 0
        then Inl (Err (ErrWrap ErrReportNotCommitted ''received before any decision is committed''))
        else if rDecisionNum report > height - 1
        then Inl (Err (ErrWrap ErrReportNotCommitted ''ahead of the last committed decision''))
        else Inr ()
      else require (rDecisionNum report < proposalNum) ''not below the proposed decision'' (Inr ()))"

definition verify_complaint :: "'db node_env \<Rightarrow> ConfigSequence \<Rightarrow> Complaint \<Rightarrow> failure + unit" where
  "verify_complaint E configSeq c =
     require (cConfigSeq c = configSeq) ''mismatch config sequence''
    (res_bind (or_fault (Complaint_ToBeSigned c)) (\<lambda>tbs.
     or_err (VerifySig E (NewBatcherIdentity (cSigner c) (stShard c)) tbs (cSignature c))))"

definition verify_primary_signature :: "'db node_env \<Rightarrow> BAF \<Rightarrow> failure + unit" where
  "verify_primary_signature E baf =
     (if Primary baf = Signer baf then Inr ()
      else
        require (nil_bytes (PrimarySignature baf) \<noteq> []) ''missing primary signature''
       (res_bind (or_fault (toBeSignedBAF (duplicateBAFSetSigner baf (Primary baf)))) (\<lambda>tbs.
        or_err (wrap_err (\<lambda>e. ErrWrap e ''failed to verify primary signature'')
          (VerifySig E (NewBatcherIdentity (Primary baf) (Shard baf)) tbs (nil_bytes (PrimarySignature baf)))))))"

definition verify_baf :: "'db node_env \<Rightarrow> ConfigSequence \<Rightarrow> BAF \<Rightarrow> failure + unit" where
  "verify_baf E configSeq baf =
     require (ConfigSeq baf \<le> configSeq) ''config sequence ahead''
    (res_bind (verify_primary_signature E baf) (\<lambda>_.
     res_bind (or_fault (toBeSignedBAF baf)) (\<lambda>tbs.
     or_err (VerifySig E (NewBatcherIdentity (Signer baf) (Shard baf)) tbs (nil_bytes (Signature baf))))))"

definition verify_config_request :: "'db node_env \<Rightarrow> ConfigSequence \<Rightarrow> ConfigRequest \<Rightarrow> failure + unit" where
  "verify_config_request E configSeq r =
     res_bind (or_err (wrap_err (\<lambda>e. ErrWrap e ''failed getting config request's config seq'')
       (ConfigRequest_ConfigSequence (fabric E) r))) (\<lambda>reqConfigSeq.
     require (reqConfigSeq = configSeq + 1) ''mismatch config sequence''
    (res_bind (or_err (wrap_err (\<lambda>e. ErrWrap e ''failed to verify and classify request'')
       (ValidateConfigRequest E (crEnvelope r)))) (\<lambda>_.
     res_bind (or_err (wrap_err (\<lambda>e. ErrWrap e ''failed to validate rules in new config'')
       (ValidateNewConfig E (crEnvelope r)))) (\<lambda>_.
     or_err (wrap_err (\<lambda>e. ErrWrap e ''failed to validate config transition rules'')
       (ValidateTransition E (crEnvelope r)))))))"

definition verify_report ::
  "'db node_env \<Rightarrow> ConfigSequence \<Rightarrow> u64 \<Rightarrow> DecisionNum \<Rightarrow> AssemblerDecisionReport \<Rightarrow> failure + unit" where
  "verify_report E configSeq height proposalNum report =
     require (rConfigSeq report = configSeq) ''mismatch config sequence''
    (require (rSignature report \<noteq> []) ''missing assembler decision report signature''
    (res_bind (verifyReportDecisionNum height report proposalNum) (\<lambda>_.
     require (length (rSignature report) \<le> maxAssemblerReportSignatureSize) ''assembler decision report signature too large''
    (res_bind (or_fault (Report_ToBeSigned report)) (\<lambda>tbs.
     or_err (wrap_err (\<lambda>e. ErrWrap e ''invalid assembler decision report signature'')
       (VerifySig E (NewAssemblerIdentity (rParty report)) tbs (rSignature report))))))))"

definition check_event ::
  "'db node_env \<Rightarrow> 'db Consensus \<Rightarrow> ControlEvent \<Rightarrow> DecisionNum \<Rightarrow> failure + unit" where
  "check_event E c ce proposalNum =
     (let configSeq = c_verificationSequence c in
      case ceComplaint ce of
        Some complaint \<Rightarrow> verify_complaint E configSeq complaint
      | None \<Rightarrow>
          (case ceBAF ce of
             Some baf \<Rightarrow> verify_baf E configSeq baf
           | None \<Rightarrow>
               (case ceConfigRequest ce of
                  Some r \<Rightarrow> verify_config_request E configSeq r
                | None \<Rightarrow>
                    (case ceAssemblerReport ce of
                       Some report \<Rightarrow> verify_report E configSeq (of_nat (length (c_Storage c))) proposalNum report
                     | None \<Rightarrow> fail ''empty control event''))))"

text \<open>The code returns the request info and the event together with the error.\<close>

definition verifyControlEvent ::
  "'db node_env \<Rightarrow> 'db Consensus \<Rightarrow> bytes \<Rightarrow> DecisionNum \<Rightarrow>
   fault + RequestInfo \<times> ControlEvent option \<times> error option" where
  "verifyControlEvent E c req proposalNum =
     (case ControlEvent_FromBytes (fabric E) (wireEvents E) req of
        Inl e \<Rightarrow> Inr (no_info, None, Some e)
      | Inr ce \<Rightarrow>
          res_bind (RequestID E req) (\<lambda>reqID.
          (case check_event E c ce proposalNum of
             Inl (Fault f) \<Rightarrow> Inl f
           | Inl (Err e) \<Rightarrow> Inr (reqID, Some ce, Some e)
           | Inr _ \<Rightarrow> Inr (reqID, Some ce, None))))"

definition verifyCE ::
  "'db node_env \<Rightarrow> 'db Consensus \<Rightarrow> bytes \<Rightarrow> fault + RequestInfo \<times> ControlEvent option \<times> error option" where
  "verifyCE E c req = verifyControlEvent E c req 0"

definition verifyProposalCE ::
  "'db node_env \<Rightarrow> 'db Consensus \<Rightarrow> bytes \<Rightarrow> DecisionNum \<Rightarrow>
   fault + RequestInfo \<times> ControlEvent option \<times> error option" where
  "verifyProposalCE E c req proposalNum = verifyControlEvent E c req proposalNum"

definition VerifyRequest ::
  "'db node_env \<Rightarrow> 'db Consensus \<Rightarrow> bytes \<Rightarrow> fault + RequestInfo \<times> error option" where
  "VerifyRequest E c req =
     res_bind (verifyCE E c req) (\<lambda>(reqID, ce, err).
     Inr (reqID, case err of None \<Rightarrow> None | Some e \<Rightarrow> if riID reqID \<noteq> [] then Some (ErrWrap e ''request'') else Some e))"

text \<open>\<^verbatim>\<open>SubmitRequest\<close> hands what it accepts to the BFT library: the result is the request to submit.\<close>

definition SubmitRequest :: "'db node_env \<Rightarrow> 'db Consensus \<Rightarrow> bytes \<Rightarrow> failure + bytes" where
  "SubmitRequest E c req =
     (if c_softStopped c then fail ''consensus is soft-stopped''
      else res_bind (or_fault (verifyCE E c req)) (\<lambda>(reqID, ce, err).
           case err of Some e \<Rightarrow> Inl (Err e) | None \<Rightarrow> Inr req))"

fun verifyProposalRequests ::
  "'db node_env \<Rightarrow> 'db Consensus \<Rightarrow> bytes list \<Rightarrow> u64 \<Rightarrow> DecisionNum \<Rightarrow> failure + RequestInfo list" where
  "verifyProposalRequests E c [] verificationSeq proposalNum = Inr []"
| "verifyProposalRequests E c (rawReq # reqs) verificationSeq proposalNum =
     (case getReqConfigSeq E rawReq of
        Inl e \<Rightarrow> fail ''invalid request''
      | Inr (configSeq, isBAF) \<Rightarrow>
          res_bind
            (if configSeq = verificationSeq \<or> (isBAF \<and> configSeq < verificationSeq)
             then res_bind (or_fault (verifyProposalCE E c rawReq proposalNum)) (\<lambda>(reqID, ce, err).
                  if err \<noteq> None then fail ''invalid request'' else Inr reqID)
             else or_fault (RequestID E rawReq)) (\<lambda>reqID.
          res_bind (verifyProposalRequests E c reqs verificationSeq proposalNum) (\<lambda>reqInfos.
          Inr (reqID # reqInfos))))"

section \<open>Assembling a proposal\<close>

definition simulate ::
  "'db node_env \<Rightarrow> 'db Consensus \<Rightarrow> State \<Rightarrow> bytes list \<Rightarrow> failure + State \<times> BAF list list \<times> ConfigRequest list" where
  "simulate E c st requests =
     or_fault (SimulateStateTransition (fabric E) (wireEvents E) (BADB_Exists (kv E) (c_DB c)) st
       (c_verificationSequence c) requests)"

text \<open>A loop state of the block chain: the last block number, its hash and the transaction count.\<close>

record chain_end =
  ceNumber :: u64
  cePrevHash :: bytes
  ceTXCount :: u64

definition chain_start :: "'db node_env \<Rightarrow> 'db Consensus \<Rightarrow> State \<Rightarrow> fault + chain_end" where
  "chain_start E c st =
     (case Unmarshal (wBlockHeader (wire E)) (st_AppContext st) of
        Inl e \<Rightarrow> Inl (Panicked ''Failed unmarshaling app context to block header from state'')
      | Inr h \<Rightarrow> Inr \<lparr>ceNumber = bhNumber h, cePrevHash = BlockHeaderHash (sha256 E) h, ceTXCount = c_txCount c\<rparr>)"

fun create_data_blocks ::
  "'db node_env \<Rightarrow> DecisionNum \<Rightarrow> int \<Rightarrow> u64 \<Rightarrow> int \<Rightarrow> BAF list list \<Rightarrow> chain_end \<Rightarrow> failure + Block list \<times> chain_end" where
  "create_data_blocks E num numBlocks lastConfig i [] ce = Inr ([], ce)"
| "create_data_blocks E num numBlocks lastConfig i (ba # bas) ce =
     res_bind (or_fault (index ba 0)) (\<lambda>baf.
     let n = ceNumber ce + 1; tx = ceTXCount ce + TXCount baf in
     case CreateDataCommonBlock (wire E) n (cePrevHash ce) baf tx num numBlocks i lastConfig of
       Inl (Fault f) \<Rightarrow> Inl (Fault f)
     | Inl (Err e) \<Rightarrow> panic ''Failed to create data block''
     | Inr block \<Rightarrow>
         res_bind (deref (blkHeader block)) (\<lambda>h.
         res_bind (create_data_blocks E num numBlocks lastConfig (i + 1) bas
           \<lparr>ceNumber = n, cePrevHash = BlockHeaderHash (sha256 E) h, ceTXCount = tx\<rparr>) (\<lambda>(blocks, ce').
         Inr (block # blocks, ce'))))"

definition create_config_block ::
  "'db node_env \<Rightarrow> DecisionNum \<Rightarrow> int \<Rightarrow> ConfigRequest list \<Rightarrow> chain_end \<Rightarrow> failure + Block list" where
  "create_config_block E num numBlocks configRequests ce =
     (case configRequests of
        [] \<Rightarrow> Inr []
      | r # _ \<Rightarrow>
          (case MarshalEnvelope (fabric E) (crEnvelope r) of
             Inl e \<Rightarrow> panic ''Failed marshaling config request''
           | Inr configReq \<Rightarrow>
               (case CreateConfigCommonBlock (sha256 E) (wire E) (ceNumber ce + 1) (cePrevHash ce) (ceTXCount ce + 1)
                       num numBlocks (numBlocks - 1) configReq of
                  Inl (Fault f) \<Rightarrow> Inl (Fault f)
                | Inl (Err e) \<Rightarrow> panic ''Failed to create config block''
                | Inr block \<Rightarrow> Inr [block])))"

definition apply_config ::
  "'db node_env \<Rightarrow> State \<Rightarrow> ConfigRequest list \<Rightarrow> error + State" where
  "apply_config E st configRequests =
     (case configRequests of [] \<Rightarrow> Inr st | r # _ \<Rightarrow> ApplyConfigToState (partiesOf E) st r)"

definition set_app_context :: "'db node_env \<Rightarrow> BlockHeader list \<Rightarrow> State \<Rightarrow> fault + State" where
  "set_app_context E headers st =
     (if headers = [] then Inr st
      else res_bind (MarshalOrPanic (wBlockHeader (wire E)) (last headers)) (\<lambda>ctx. Inr (st\<lparr>st_AppContext := ctx\<rparr>)))"

definition assemble_header :: "'db node_env \<Rightarrow> 'db Consensus \<Rightarrow> bytes \<Rightarrow> bytes list \<Rightarrow> failure + Header" where
  "assemble_header E c metadata requests =
     res_bind (deref (c_State c)) (\<lambda>st.
     res_bind (simulate E c st requests) (\<lambda>(newState0, attestations, configRequests).
     case apply_config E newState0 configRequests of
       Inl e \<Rightarrow> panic ''failed applying config to state''
     | Inr newState \<Rightarrow>
         res_bind (or_fault (chain_start E c newState)) (\<lambda>start.
         case UnmarshalViewMetadata E metadata of
           Inl e \<Rightarrow> panic ''ViewMetadata''
         | Inr latestSequence \<Rightarrow>
             let numBlocks = int (length attestations) + (if configRequests = [] then 0 else 1) in
             res_bind (create_data_blocks E latestSequence numBlocks (c_lastConfigBlockNum c) 0 attestations start) (\<lambda>(dataBlocks, chainEnd).
             res_bind (create_config_block E latestSequence numBlocks configRequests chainEnd) (\<lambda>configBlocks.
             let blocks = dataBlocks @ configBlocks in
             res_bind (map_res (\<lambda>b. deref (blkHeader b)) blocks) (\<lambda>headers.
             res_bind (or_fault (set_app_context E headers newState)) (\<lambda>finalState.
             Inr \<lparr>hNum = latestSequence, hPrevHash = c_PrevHash c, hAvailableCommonBlocks = blocks,
                  hState = Some finalState,
                  hDecisionNumOfLastConfigBlock =
                    (if configRequests = [] then c_decisionNumOfLastConfigBlock c else latestSequence)\<rparr>)))))))"

definition AssembleProposal :: "'db node_env \<Rightarrow> 'db Consensus \<Rightarrow> bytes \<Rightarrow> bytes list \<Rightarrow> failure + Proposal" where
  "AssembleProposal E c metadata requests =
     res_bind (assemble_header E c metadata requests) (\<lambda>hdr.
     res_bind (or_fault (Header_Serialize (wire E) hdr)) (\<lambda>header.
     Inr \<lparr>prPayload = Some (BatchedRequests_Serialize requests), prHeader = Some header,
          prMetadata = Some metadata, prVerificationSequence = c_verificationSequence c\<rparr>))"

section \<open>Verifying a proposal\<close>

fun verify_data_blocks ::
  "'db node_env \<Rightarrow> Block list \<Rightarrow> DecisionNum \<Rightarrow> int \<Rightarrow> u64 \<Rightarrow> nat \<Rightarrow> BAF list list \<Rightarrow> chain_end \<Rightarrow>
   failure + BlockHeader list \<times> chain_end" where
  "verify_data_blocks E proposed num numBlocks lastConfig i [] ce = Inr ([], ce)"
| "verify_data_blocks E proposed num numBlocks lastConfig i (ba # bas) ce =
     res_bind (or_fault (index ba 0)) (\<lambda>baf.
     res_bind (or_fault (index proposed i)) (\<lambda>block.
     let n = ceNumber ce + 1; tx = ceTXCount ce + TXCount baf in
     case VerifyDataCommonBlock (wire E) block n (cePrevHash ce) baf tx num numBlocks (int i) lastConfig of
       Inl (Fault f) \<Rightarrow> Inl (Fault f)
     | Inl (Err e) \<Rightarrow> Inl (Err (ErrWrap e ''failed verifying proposed block''))
     | Inr _ \<Rightarrow>
         let h = \<lparr>bhNumber = n, bhPreviousHash = cePrevHash ce, bhDataHash = Digest baf\<rparr> in
         res_bind (verify_data_blocks E proposed num numBlocks lastConfig (i + 1) bas
           \<lparr>ceNumber = n, cePrevHash = BlockHeaderHash (sha256 E) h, ceTXCount = tx\<rparr>) (\<lambda>(headers, ce').
         Inr (h # headers, ce'))))"

definition verify_config_block ::
  "'db node_env \<Rightarrow> Block list \<Rightarrow> DecisionNum \<Rightarrow> nat \<Rightarrow> ConfigRequest list \<Rightarrow> chain_end \<Rightarrow>
   failure + BlockHeader list" where
  "verify_config_block E proposed num numBlocks configRequests ce =
     (case configRequests of
        [] \<Rightarrow> Inr []
      | r # _ \<Rightarrow>
          (case MarshalEnvelope (fabric E) (crEnvelope r) of
             Inl e \<Rightarrow> panic ''Failed marshaling config request''
           | Inr configReq \<Rightarrow>
               let dataHash = BatchedRequests_Digest (sha256 E) [configReq] in
               res_bind (or_fault (index proposed (numBlocks - 1))) (\<lambda>block.
               case VerifyConfigCommonBlock (sha256 E) (wire E) block (ceNumber ce + 1) (cePrevHash ce) dataHash
                      (ceTXCount ce + 1) num (int numBlocks) (int numBlocks - 1) of
                 Inl (Fault f) \<Rightarrow> Inl (Fault f)
               | Inl (Err e) \<Rightarrow> Inl (Err (ErrWrap e ''failed verifying proposed config block''))
               | Inr _ \<Rightarrow> Inr [\<lparr>bhNumber = ceNumber ce + 1, bhPreviousHash = cePrevHash ce, bhDataHash = dataHash\<rparr>])))"

text \<open>
  The part of the verification that depends on the state: the transition is computed again and every
  block and the resulting state are compared with the proposed ones.
\<close>

definition verify_transition ::
  "'db node_env \<Rightarrow> 'db Consensus \<Rightarrow> bytes list \<Rightarrow> Header \<Rightarrow> State \<Rightarrow> u64 \<Rightarrow> failure + unit" where
  "verify_transition E c requests hdr proposedState latestSequence =
     res_bind (deref (c_State c)) (\<lambda>st.
     res_bind (simulate E c st requests) (\<lambda>(computed0, attestations, configRequests).
     case apply_config E computed0 configRequests of
       Inl e \<Rightarrow> fail ''failed applying config to state''
     | Inr computed \<Rightarrow>
         let numBlocks = length attestations + (if configRequests = [] then 0 else 1) in
         require (hDecisionNumOfLastConfigBlock hdr =
             (if configRequests = [] then c_decisionNumOfLastConfigBlock c else latestSequence))
           ''proposed decision num of last config block''
        (res_bind (or_fault (chain_start E c computed)) (\<lambda>start.
         res_bind (verify_data_blocks E (hAvailableCommonBlocks hdr) latestSequence (int numBlocks)
           (c_lastConfigBlockNum c) 0 attestations start) (\<lambda>(dataHeaders, chainEnd).
         res_bind (verify_config_block E (hAvailableCommonBlocks hdr) latestSequence numBlocks configRequests chainEnd) (\<lambda>configHeaders.
         res_bind (or_fault (set_app_context E (dataHeaders @ configHeaders) computed)) (\<lambda>finalState.
         res_bind (or_fault (State_Serialize (wState (wire E)) proposedState)) (\<lambda>proposedBytes.
         res_bind (or_fault (State_Serialize (wState (wire E)) finalState)) (\<lambda>computedBytes.
         require (proposedBytes = computedBytes) ''proposed state isn't equal to computed state'' (Inr ())))))))))) "

definition VerifyProposal ::
  "'db node_env \<Rightarrow> 'db Consensus \<Rightarrow> 'db Consensus \<Rightarrow> Proposal \<Rightarrow> failure + RequestInfo list" where
  "VerifyProposal E c c' proposal =
     (case (prHeader proposal, prMetadata proposal, prPayload proposal) of
        (Some header, Some metadata, Some payload) \<Rightarrow>
          res_bind (or_err (wrap_err (\<lambda>e. ErrWrap e ''failed to deserialize proposal payload'')
            (BatchedRequests_Deserialize payload))) (\<lambda>requests.
          res_bind (or_err (wrap_err (\<lambda>e. ErrWrap e ''failed to deserialize proposal header'')
            (Header_Deserialize (wire E) (Some header)))) (\<lambda>hdr.
          case hState hdr of
            None \<Rightarrow> fail ''state in proposal header is nil''
          | Some proposedState \<Rightarrow>
              res_bind (or_err (wrap_err (\<lambda>e. ErrWrap e ''failed to unmarshal proposal metadata'')
                (UnmarshalViewMetadata E metadata))) (\<lambda>latestSequence.
              require (latestSequence = hNum hdr) ''proposed number isn't equal to computed number''
             (let verificationSeq = c_verificationSequence c in
              require (verificationSeq = prVerificationSequence proposal) ''expected verification sequence''
             (res_bind (verifyProposalRequests E c requests verificationSeq (hNum hdr)) (\<lambda>reqInfos.
              require (c_verificationSequence c' = verificationSeq) ''verification sequence changed''
             (res_bind (verify_transition E c' requests hdr proposedState latestSequence) (\<lambda>_.
              Inr reqInfos))))))))
      | _ \<Rightarrow> fail ''proposal has a nil header or metadata or payload'')"

definition RequestsFromProposal :: "'db node_env \<Rightarrow> Proposal \<Rightarrow> fault + RequestInfo list" where
  "RequestsFromProposal E proposal =
     (case BatchedRequests_Deserialize (nil_bytes (prPayload proposal)) of
        Inl e \<Rightarrow> Inl (Panicked ''failed deserializing proposal payload'')
      | Inr batch \<Rightarrow> map_res (RequestID E) batch)"

section \<open>Signatures over a proposal and its blocks\<close>

record MessageToSign =
  msgIdentifierHeader :: bytes
  msgBlockHeader :: bytes
  msgOrdererBlockMetadata :: bytes

definition MessageToSign_asn1 :: "MessageToSign \<Rightarrow> bytes" where
  "MessageToSign_asn1 m = der_seq
     (der_octets (msgIdentifierHeader m) @ der_octets (msgBlockHeader m) @ der_octets (msgOrdererBlockMetadata m))"

definition MessageToSign_parse :: "bytes \<Rightarrow> MessageToSign option" where
  "MessageToSign_parse bs =
     Option.bind (parse_seq bs) (\<lambda>c.
     Option.bind (parse_octets c) (\<lambda>(i, c1).
     Option.bind (parse_octets c1) (\<lambda>(h, c2).
     Option.bind (parse_octets c2) (\<lambda>(md, c3).
     Some \<lparr>msgIdentifierHeader = i, msgBlockHeader = h, msgOrdererBlockMetadata = md\<rparr>))))"

definition orderer_metadata :: "'db node_env \<Rightarrow> u64 \<Rightarrow> bytes \<Rightarrow> failure + bytes" where
  "orderer_metadata E lastConfig consenterMetadata =
     wrap_err (\<lambda>e. Fault (Panicked ''MarshalOrPanic'')) (MarshalOrdererMetadata E lastConfig consenterMetadata)"

definition proposal_message ::
  "'db node_env \<Rightarrow> bytes \<Rightarrow> Proposal \<Rightarrow> u64 \<Rightarrow> u64 \<Rightarrow> bytes \<Rightarrow> failure + bytes" where
  "proposal_message E idHeader proposal num decisionNumOfLastConfigBlock prevHash =
     res_bind (orderer_metadata E decisionNumOfLastConfigBlock (nil_bytes (prMetadata proposal))) (\<lambda>md.
     Inr (MessageToSign_asn1
       \<lparr>msgIdentifierHeader = idHeader,
        msgBlockHeader = BlockHeaderBytes \<lparr>bhNumber = num, bhPreviousHash = prevHash,
          bhDataHash = ComputeBlockDataHash (sha256 E) [ProposalToBytes proposal]\<rparr>,
        msgOrdererBlockMetadata = md\<rparr>))"

definition block_message ::
  "'db node_env \<Rightarrow> bytes \<Rightarrow> Block \<Rightarrow> u64 \<Rightarrow> failure + bytes" where
  "block_message E idHeader block lastConfigBlockNum =
     res_bind (deref (blkHeader block)) (\<lambda>h.
     res_bind (deref (blkMetadata block)) (\<lambda>mds.
     res_bind (or_fault (index mds BlockMetadataIndex_ORDERER)) (\<lambda>ordererMd.
     res_bind (orderer_metadata E lastConfigBlockNum ordererMd) (\<lambda>md.
     Inr (MessageToSign_asn1
       \<lparr>msgIdentifierHeader = idHeader, msgBlockHeader = BlockHeaderBytes h, msgOrdererBlockMetadata = md\<rparr>)))))"

definition config_num_of :: "'db node_env \<Rightarrow> Block \<Rightarrow> u64 \<Rightarrow> failure + u64" where
  "config_num_of E block lastConfigBlockNum =
     (if isConfigBlock E block
      then res_bind (deref (blkHeader block)) (\<lambda>h. Inr (bhNumber h))
      else Inr lastConfigBlockNum)"

fun sign_blocks ::
  "'db node_env \<Rightarrow> (nat \<Rightarrow> fault + bytes) \<Rightarrow> nat \<Rightarrow> u64 \<Rightarrow> Block list \<Rightarrow> failure + (bytes \<times> bytes) list" where
  "sign_blocks E idHeaders i lastConfigBlockNum [] = Inr []"
| "sign_blocks E idHeaders i lastConfigBlockNum (ab # blks) =
     res_bind (config_num_of E ab lastConfigBlockNum) (\<lambda>lc.
     res_bind (or_fault (idHeaders i)) (\<lambda>idHeader.
     res_bind (block_message E idHeader ab lc) (\<lambda>msgBytes.
     case SignMsg E msgBytes of
       Inl e \<Rightarrow> panic ''Failed signing block header''
     | Inr sig \<Rightarrow>
         res_bind (sign_blocks E idHeaders (i + 1) lc blks) (\<lambda>rest. Inr ((sig, msgBytes) # rest)))))"

text \<open>
  The identifier header of a message names the party and carries a random nonce: \<open>nonces i\<close> is what the source of
  randomness answers for the message number \<open>i\<close>, the proposal being number 0.
\<close>

definition NewIdentifierHeaderOrPanic :: "u32 \<Rightarrow> error + bytes \<Rightarrow> fault + u32 \<times> bytes" where
  "NewIdentifierHeaderOrPanic identifier nonce =
     (case nonce of Inl e \<Rightarrow> Inl (Panicked ''GetRandomNonce'') | Inr n \<Rightarrow> Inr (identifier, n))"

definition identifier_header :: "'db node_env \<Rightarrow> 'db Consensus \<Rightarrow> (nat \<Rightarrow> error + bytes) \<Rightarrow> nat \<Rightarrow> fault + bytes" where
  "identifier_header E c nonces i =
     res_bind (NewIdentifierHeaderOrPanic (ucast (c_PartyID c)) (nonces i)) (\<lambda>(identifier, nonce).
     wrap_err (\<lambda>e. Panicked ''MarshalOrPanic'') (MarshalIdentifierHeader E identifier nonce))"

definition SignProposal ::
  "'db node_env \<Rightarrow> 'db Consensus \<Rightarrow> (nat \<Rightarrow> error + bytes) \<Rightarrow> Proposal \<Rightarrow> failure + Signature" where
  "SignProposal E c nonces proposal =
     (let idHeaders = identifier_header E c nonces in
      case BatchedRequests_Deserialize (nil_bytes (prPayload proposal)) of
        Inl e \<Rightarrow> panic ''Failed deserializing proposal payload''
      | Inr requests \<Rightarrow>
          (case Header_Deserialize (wire E) (prHeader proposal) of
             Inl e \<Rightarrow> panic ''Failed deserializing proposal header''
           | Inr hdr \<Rightarrow>
               let lastDecision = (if hNum hdr = hDecisionNumOfLastConfigBlock hdr then hNum hdr
                                   else c_decisionNumOfLastConfigBlock c) in
               res_bind (or_fault (idHeaders 0)) (\<lambda>idHeader.
               res_bind (proposal_message E idHeader proposal (hNum hdr) lastDecision (hPrevHash hdr)) (\<lambda>proposalMsgBytes.
               case SignMsg E proposalMsgBytes of
                 Inl e \<Rightarrow> panic ''Failed signing proposal''
               | Inr proposalSig \<Rightarrow>
                   res_bind (sign_blocks E idHeaders 1 (c_lastConfigBlockNum c) (hAvailableCommonBlocks hdr)) (\<lambda>rest.
                   Inr \<lparr>sigID = c_SelfID c, sigValue = marshal_octets_list (proposalSig # map fst rest),
                        sigMsg = marshal_octets_list (proposalMsgBytes # map snd rest)\<rparr>)))))"

definition verify_identifier :: "'db node_env \<Rightarrow> MessageToSign \<Rightarrow> u64 \<Rightarrow> failure + unit" where
  "verify_identifier E msg signatureID =
     res_bind (or_err (wrap_err (\<lambda>e. ErrWrap e ''failed to unmarshal identifier header'')
       (UnmarshalIdentifierHeader (wire E) (msgIdentifierHeader msg)))) (\<lambda>identifier.
     require (ucast identifier = signatureID) ''signature ID does not match identifier header ID'' (Inr ()))"

definition verifyProposalMessageToSign ::
  "'db node_env \<Rightarrow> MessageToSign \<Rightarrow> bytes \<Rightarrow> u64 \<Rightarrow> Proposal \<Rightarrow> u64 \<Rightarrow> u64 \<Rightarrow> bytes \<Rightarrow> failure + unit" where
  "verifyProposalMessageToSign E msg msgBytes signatureID proposal num decisionNumOfLastConfigBlock prevHash =
     res_bind (verify_identifier E msg signatureID) (\<lambda>_.
     res_bind (proposal_message E (msgIdentifierHeader msg) proposal num decisionNumOfLastConfigBlock prevHash) (\<lambda>computed.
     require (msgBytes = computed) ''proposal message content is not as expected'' (Inr ())))"

definition verifyBlockMessageToSign ::
  "'db node_env \<Rightarrow> MessageToSign \<Rightarrow> bytes \<Rightarrow> u64 \<Rightarrow> Block \<Rightarrow> u64 \<Rightarrow> failure + unit" where
  "verifyBlockMessageToSign E msg msgBytes signatureID block lastConfigBlockNum =
     res_bind (verify_identifier E msg signatureID) (\<lambda>_.
     res_bind (config_num_of E block lastConfigBlockNum) (\<lambda>lc.
     res_bind (block_message E (msgIdentifierHeader msg) block lc) (\<lambda>computed.
     require (msgBytes = computed) ''message content is not as expected'' (Inr ()))))"

definition VerifySignature :: "'db node_env \<Rightarrow> Signature \<Rightarrow> error + unit" where
  "VerifySignature E sig = VerifySig E (NewConsenterIdentity (ucast (sigID sig))) (sigMsg sig) (sigValue sig)"

fun verify_block_sigs ::
  "'db node_env \<Rightarrow> u64 \<Rightarrow> bytes list \<Rightarrow> bytes list \<Rightarrow> u64 \<Rightarrow> nat \<Rightarrow> Block list \<Rightarrow> failure + unit" where
  "verify_block_sigs E signer values msgs lastConfigBlockNum i [] = Inr ()"
| "verify_block_sigs E signer values msgs lastConfigBlockNum i (ab # blks) =
     res_bind (or_fault (index msgs (i + 1))) (\<lambda>msgBytes.
     res_bind (or_err (of_asn1 (MessageToSign_parse msgBytes))) (\<lambda>msg.
     res_bind (wrap_err (\<lambda>x. case x of Err e \<Rightarrow> Err (ErrWrap e ''failed verifying msg over block'') | f \<Rightarrow> f)
       (verifyBlockMessageToSign E msg msgBytes signer ab lastConfigBlockNum)) (\<lambda>_.
     res_bind (or_fault (index values (i + 1))) (\<lambda>value.
     res_bind (or_err (wrap_err (\<lambda>e. ErrWrap e ''failed verifying signature over block'')
       (VerifySignature E \<lparr>sigID = signer, sigValue = value, sigMsg = msgBytes\<rparr>))) (\<lambda>_.
     verify_block_sigs E signer values msgs lastConfigBlockNum (i + 1) blks)))))"

definition VerifyConsenterSig ::
  "'db node_env \<Rightarrow> 'db Consensus \<Rightarrow> Signature \<Rightarrow> Proposal \<Rightarrow> failure + unit" where
  "VerifyConsenterSig E c signature prop =
     require (sigValue signature \<noteq> []) ''signature value is nil''
    (res_bind (or_err (wrap_err (\<lambda>e. ErrWrap e ''failed unmarshaling signature value'')
       (of_asn1 (unmarshal_octets_list (sigValue signature))))) (\<lambda>values.
     require (values \<noteq> []) ''signature values array is empty''
    (require (sigMsg signature \<noteq> []) ''signature msg is nil''
    (res_bind (or_err (wrap_err (\<lambda>e. ErrWrap e ''failed unmarshaling signature msg'')
       (of_asn1 (unmarshal_octets_list (sigMsg signature))))) (\<lambda>msgs.
     require (msgs \<noteq> []) ''signature msgs array is empty''
    (res_bind (or_err (wrap_err (\<lambda>e. ErrWrap e ''failed deserializing proposal header'')
       (Header_Deserialize (wire E) (prHeader prop)))) (\<lambda>hdr.
     let lastDecision = (if hNum hdr = hDecisionNumOfLastConfigBlock hdr then hNum hdr
                         else c_decisionNumOfLastConfigBlock c) in
     res_bind (or_err (of_asn1 (MessageToSign_parse (hd msgs)))) (\<lambda>proposalMsg.
     res_bind (wrap_err (\<lambda>x. case x of Err e \<Rightarrow> Err (ErrWrap e ''failed verifying proposal msg'') | f \<Rightarrow> f)
       (verifyProposalMessageToSign E proposalMsg (hd msgs) (sigID signature) prop (hNum hdr) lastDecision (hPrevHash hdr))) (\<lambda>_.
     res_bind (or_err (wrap_err (\<lambda>e. ErrWrap e ''failed verifying signature over proposal'')
       (VerifySignature E \<lparr>sigID = sigID signature, sigValue = hd values, sigMsg = hd msgs\<rparr>))) (\<lambda>_.
     verify_block_sigs E (sigID signature) values msgs (c_lastConfigBlockNum c) 0 (hAvailableCommonBlocks hdr)))))))))))"

section \<open>Delivering a decision\<close>

record Reconfig =
  rcCurrentNodes :: "u64 list"
  rcInLatestDecision :: bool

definition headerAndDigestsFromProposal :: "'db node_env \<Rightarrow> Proposal \<Rightarrow> fault + Header \<times> bytes list" where
  "headerAndDigestsFromProposal E proposal =
     (case Header_Deserialize (wire E) (prHeader proposal) of
        Inl e \<Rightarrow> Inl (Panicked ''Failed deserializing header'')
      | Inr hdr \<Rightarrow>
          Inr (hdr, map (\<lambda>ab. case blkHeader ab of None \<Rightarrow> [] | Some h \<Rightarrow> bhDataHash h)
                      (filter (\<lambda>ab. \<not> isConfigBlock E ab) (hAvailableCommonBlocks hdr))))"

definition getLastTxCountFromHeader :: "'db node_env \<Rightarrow> Header \<Rightarrow> fault + u64" where
  "getLastTxCountFromHeader E hdr =
     (if hAvailableCommonBlocks hdr = [] then Inr 0
      else case AssemblerBatchIdOrderingInfoAndTxCountFromBlock (wire E) (Some (last (hAvailableCommonBlocks hdr))) of
             Inl e \<Rightarrow> Inl (Panicked ''Couldn't retrieve tx count from last block'')
           | Inr (bid, oi, txCount) \<Rightarrow> Inr txCount)"

definition updateMetricsOnDeliver :: "'db node_env \<Rightarrow> Header \<Rightarrow> 'db Consensus \<Rightarrow> fault + 'db Consensus" where
  "updateMetricsOnDeliver E hdr c =
     res_bind (getLastTxCountFromHeader E hdr) (\<lambda>txCount.
     Inr (if txCount > 0 then c\<lparr>c_txCount := txCount\<rparr> else c))"

text \<open>
  The update of the node that delivery and synchronization share. The result has the config block that
  the goroutine started by the code goes on to process, if there is a new one.
\<close>

definition enter_decision ::
  "'db node_env \<Rightarrow> Header \<Rightarrow> Block \<Rightarrow> DecisionNum \<Rightarrow> 'db Consensus \<Rightarrow> fault + 'db Consensus \<times> Reconfig \<times> Block option" where
  "enter_decision E hdr block configDecision c =
     (case blkHeader block of
        None \<Rightarrow> Inl NilDereference
      | Some bh \<Rightarrow>
      let c1 = c\<lparr>c_State := hState hdr, c_PrevHash := BlockHeaderHash (sha256 E) bh\<rparr> in
      res_bind
        (if hNum hdr = hDecisionNumOfLastConfigBlock hdr
         then res_bind (index (hAvailableCommonBlocks hdr) (length (hAvailableCommonBlocks hdr) - 1)) (\<lambda>configBlock.
              case blkHeader configBlock of
                None \<Rightarrow> Inl NilDereference
              | Some h \<Rightarrow>
                  (case ExtractSmartBFTConfig E configBlock of
                     Inl e \<Rightarrow> Inl (Panicked ''Failed extracting smartBFT config from config block'')
                   | Inr nodes \<Rightarrow>
                       Inr (if c_lastConfigBlockNum c1 < bhNumber h
                            then (c1\<lparr>c_decisionNumOfLastConfigBlock := configDecision, c_lastConfigBlockNum := bhNumber h\<rparr>,
                                  \<lparr>rcCurrentNodes = nodes, rcInLatestDecision = True\<rparr>, Some configBlock)
                            else (c1, \<lparr>rcCurrentNodes = nodes, rcInLatestDecision = True\<rparr>, None))))
         else Inr (c1, \<lparr>rcCurrentNodes = c_CurrentNodes c1, rcInLatestDecision = False\<rparr>, None)) (\<lambda>(c2, rc, cb).
      res_bind (updateMetricsOnDeliver E hdr c2) (\<lambda>c3.
      Inr (c3, rc, cb))))"

definition Deliver ::
  "'db node_env \<Rightarrow> 'db Consensus \<Rightarrow> Proposal \<Rightarrow> Signature list \<Rightarrow> fault + 'db Consensus \<times> Reconfig \<times> Block option" where
  "Deliver E c proposal signatures =
     res_bind (headerAndDigestsFromProposal E proposal) (\<lambda>(hdr, digests).
     res_bind (Consenter_Index (BADB_Put (kv E)) (c_DB c) digests) (\<lambda>db.
     res_bind (CreateBlockToAppendFromDecision (sha256 E) (wire E) (hNum hdr) proposal signatures (c_PrevHash c)
       (hDecisionNumOfLastConfigBlock hdr)) (\<lambda>block.
     enter_decision E hdr block (hNum hdr) (c\<lparr>c_DB := db, c_Storage := c_Storage c @ [block]\<rparr>))))"

text \<open>
  What \<^verbatim>\<open>Deliver\<close> returns after it waited for the reconfiguration that a new config block starts:
  \<open>aborted\<close> tells which of the two channels released it.
\<close>

definition await_reconfig :: "bool \<Rightarrow> Reconfig \<Rightarrow> Block option \<Rightarrow> Reconfig" where
  "await_reconfig aborted rc newConfigBlock =
     (if newConfigBlock \<noteq> None \<and> aborted then \<lparr>rcCurrentNodes = [], rcInLatestDecision = False\<rparr> else rc)"

definition UpdateStateAndRuntimeConfig ::
  "'db node_env \<Rightarrow> 'db Consensus \<Rightarrow> Block \<Rightarrow> fault + 'db Consensus \<times> Reconfig \<times> Block option" where
  "UpdateStateAndRuntimeConfig E c block =
     (case ConsenterBlockToProposal (Some block) of
        Inl e \<Rightarrow> Inl (Panicked ''Failed parsing block we pulled with BFT Synchronizer'')
      | Inr proposal \<Rightarrow>
          res_bind (headerAndDigestsFromProposal E proposal) (\<lambda>(hdr, _).
          enter_decision E hdr block (hDecisionNumOfLastConfigBlock hdr) c))"

text \<open>The requests that a synchronized block removes from the pool of the BFT library.\<close>

definition PruneRequestsFromMemPool :: "'db node_env \<Rightarrow> Block \<Rightarrow> fault + RequestInfo list" where
  "PruneRequestsFromMemPool E block =
     (if (case blkHeader block of None \<Rightarrow> 0 | Some h \<Rightarrow> bhNumber h) = 0 then Inr []
      else case ConsenterBlockToDecision (Some block) of
             Inl e \<Rightarrow> Inl (Panicked ''Failed parsing block we pulled with BFT Synchronizer'')
           | Inr decision \<Rightarrow>
               (case BatchedRequests_Deserialize (nil_bytes (prPayload (decProposal decision))) of
                  Inl e \<Rightarrow> Inl (Panicked ''Failed deserializing proposal payload'')
                | Inr batch \<Rightarrow> map_res (RequestID E) batch))"

section \<open>The blocks of a decision\<close>

text \<open>The headers that the data blocks of a decision must have, from the digests of the batches.\<close>

fun chain_headers :: "(bytes \<Rightarrow> bytes) \<Rightarrow> u64 \<Rightarrow> bytes \<Rightarrow> bytes list \<Rightarrow> BlockHeader list" where
  "chain_headers sha n prev [] = []"
| "chain_headers sha n prev (d # ds) =
     (let h = \<lparr>bhNumber = n + 1, bhPreviousHash = prev, bhDataHash = d\<rparr> in
      h # chain_headers sha (n + 1) (BlockHeaderHash sha h) ds)"

lemma length_chain_headers [simp]: "length (chain_headers sha n prev ds) = length ds"
  by (induction sha n prev ds rule: chain_headers.induct) (simp_all add: Let_def)

lemma chain_headers_linked:
  assumes "i < length ds"
  shows "bhNumber (chain_headers sha n prev ds ! i) = n + 1 + of_nat i \<and>
    bhDataHash (chain_headers sha n prev ds ! i) = ds ! i \<and>
    bhPreviousHash (chain_headers sha n prev ds ! i) =
      (if i = 0 then prev else BlockHeaderHash sha (chain_headers sha n prev ds ! (i - 1)))"
  using assms
proof (induction sha n prev ds arbitrary: i rule: chain_headers.induct)
  case (2 sha n prev d ds)
  then show ?case
    by (cases i) (auto simp: Let_def nth_Cons split: nat.split)
qed simp

lemma verify_data_blocks_headers:
  assumes "verify_data_blocks E proposed num nb lc i bas ce = Inr (hs, ce')"
  shows "hs = chain_headers (sha256 E) (ceNumber ce) (cePrevHash ce) (map (\<lambda>ba. Digest (hd ba)) bas) \<and>
    length hs = length bas \<and>
    (\<forall>j < length bas. bas ! j \<noteq> [] \<and> i + j < length proposed \<and> blkHeader (proposed ! (i + j)) = Some (hs ! j))"
  using assms
proof (induction bas arbitrary: i ce hs)
  case (Cons ba bas)
  obtain baf where baf: "ba \<noteq> []" "baf = hd ba"
    using Cons.prems by (cases ba) (auto simp: index_def)
  define h where "h = \<lparr>bhNumber = ceNumber ce + 1, bhPreviousHash = cePrevHash ce, bhDataHash = Digest baf\<rparr>"
  have i0: "index ba 0 = Inr baf"
    using baf by (simp add: index_def hd_conv_nth)
  obtain block where block: "i < length proposed" "block = proposed ! i"
    using Cons.prems i0 by (auto simp: index_def res_bind_Inr_iff split: if_splits)
  have ib: "index proposed i = Inr block"
    using block by (simp add: index_def)
  have ver: "VerifyDataCommonBlock (wire E) block (ceNumber ce + 1) (cePrevHash ce) baf
      (ceTXCount ce + TXCount baf) num nb (int i) lc = Inr ()"
    using Cons.prems i0 ib by (auto simp: Let_def split: sum.splits failure.splits)
  obtain hs' where rec: "verify_data_blocks E proposed num nb lc (i + 1) bas
      \<lparr>ceNumber = ceNumber ce + 1, cePrevHash = BlockHeaderHash (sha256 E) h, ceTXCount = ceTXCount ce + TXCount baf\<rparr> = Inr (hs', ce')"
    "hs = h # hs'"
    using Cons.prems i0 ib ver by (auto simp: Let_def h_def res_bind_Inr_iff)
  have IH: "hs' = chain_headers (sha256 E) (ceNumber ce + 1) (BlockHeaderHash (sha256 E) h) (map (\<lambda>ba. Digest (hd ba)) bas) \<and>
    length hs' = length bas \<and>
    (\<forall>j < length bas. bas ! j \<noteq> [] \<and> i + 1 + j < length proposed \<and> blkHeader (proposed ! (i + 1 + j)) = Some (hs' ! j))"
    using Cons.IH [OF rec(1)] by simp
  have "blkHeader (proposed ! i) = Some h"
    using VerifyDataCommonBlock_header(1) [OF ver] by (simp add: block h_def)
  then have "bas' ! j \<noteq> [] \<and> i + j < length proposed \<and> blkHeader (proposed ! (i + j)) = Some (hs ! j)"
    if "j < length (ba # bas)" "bas' = ba # bas" for j bas'
    using that IH rec(2) block(1) baf(1) by (cases j) auto
  then show ?case
    using IH rec(2) by (simp add: h_def Let_def baf(2))
qed simp

lemma verify_created_data_blocks:
  assumes "create_data_blocks E num nb lc (int (length pre)) bas ce = Inr (blocks, ce')"
    and "last_config_faithful (wire E) lc"
  shows "\<exists>hs. verify_data_blocks E (pre @ blocks @ post) num nb lc (length pre) bas ce = Inr (hs, ce') \<and>
    map blkHeader blocks = map Some hs \<and> length blocks = length bas"
  using assms(1)
proof (induction bas arbitrary: pre ce blocks)
  case Nil
  then show ?case by simp
next
  case (Cons ba bas)
  obtain baf where baf: "index ba 0 = Inr baf"
    using Cons.prems by (cases "index ba 0") auto
  let ?n = "ceNumber ce + 1" and ?tx = "ceTXCount ce + TXCount baf"
  obtain block where block: "CreateDataCommonBlock (wire E) ?n (cePrevHash ce) baf ?tx num nb (int (length pre)) lc = Inr block"
    using Cons.prems baf by (auto simp: Let_def split: sum.splits failure.splits)
  note ver = VerifyDataCommonBlock_created [OF block assms(2)]
  define h where "h = \<lparr>bhNumber = ?n, bhPreviousHash = cePrevHash ce, bhDataHash = Digest baf\<rparr>"
  have h: "blkHeader block = Some h"
    using VerifyDataCommonBlock_header(1) [OF ver] by (simp add: h_def)
  let ?ce = "\<lparr>ceNumber = ?n, cePrevHash = BlockHeaderHash (sha256 E) h, ceTXCount = ?tx\<rparr>"
  obtain blocks' where rec: "create_data_blocks E num nb lc (int (length (pre @ [block]))) bas ?ce = Inr (blocks', ce')"
    "blocks = block # blocks'"
    using Cons.prems baf block h by (auto simp: Let_def res_bind_Inr_iff add.commute)
  obtain hs where hs: "verify_data_blocks E (pre @ [block] @ blocks' @ post) num nb lc (length pre + 1) bas ?ce = Inr (hs, ce')"
    "map blkHeader blocks' = map Some hs" "length blocks' = length bas"
    using Cons.IH [OF rec(1)] by auto
  have "index (pre @ blocks @ post) (length pre) = Inr block"
    by (simp add: index_def rec(2) nth_append)
  then show ?case
    using baf ver hs h by (simp add: rec(2) Let_def h_def)
qed

lemma verify_created_config_block:
  assumes "create_config_block E num (int nb) cfgs ce = Inr blocks" and "\<And>n. last_config_faithful (wire E) n"
    and "nb = length pre + length blocks"
  shows "\<exists>hs. verify_config_block E (pre @ blocks) num nb cfgs ce = Inr hs \<and> map blkHeader blocks = map Some hs"
proof (cases cfgs)
  case Nil
  then show ?thesis
    using assms(1) by (simp add: create_config_block_def verify_config_block_def)
next
  case (Cons r rs)
  obtain req where req: "MarshalEnvelope (fabric E) (crEnvelope r) = Inr req"
    using assms(1) Cons by (auto simp: create_config_block_def split: sum.splits)
  obtain block where block: "CreateConfigCommonBlock (sha256 E) (wire E) (ceNumber ce + 1) (cePrevHash ce)
      (ceTXCount ce + 1) num (int nb) (int nb - 1) req = Inr block" "blocks = [block]"
    using assms(1) Cons req by (auto simp: create_config_block_def split: sum.splits failure.splits)
  note ver = VerifyConfigCommonBlock_created [OF block(1) assms(2)]
  have "index (pre @ blocks) (nb - 1) = Inr block"
    using assms(3) block(2) by (simp add: index_def)
  then show ?thesis
    using ver VerifyConfigCommonBlock_header(1) [OF ver] block(2)
    by (simp add: verify_config_block_def Cons req)
qed

section \<open>Properties\<close>

text \<open>Two nodes that are at the same point of the chain of decisions.\<close>

definition agree :: "'db Consensus \<Rightarrow> 'db Consensus \<Rightarrow> bool" where
  "agree c c' \<longleftrightarrow> c_State c = c_State c' \<and> c_verificationSequence c = c_verificationSequence c' \<and>
     c_lastConfigBlockNum c = c_lastConfigBlockNum c' \<and>
     c_decisionNumOfLastConfigBlock c = c_decisionNumOfLastConfigBlock c' \<and>
     c_txCount c = c_txCount c' \<and> c_DB c = c_DB c'"

lemma agree_calls:
  assumes "agree c c'"
  shows "simulate E c = simulate E c'" "chain_start E c = chain_start E c'"
  using assms by (auto simp: agree_def simulate_def chain_start_def fun_eq_iff split: sum.split)

lemma headers_of_blocks:
  "map blkHeader bs = map Some hs \<Longrightarrow> map_res (\<lambda>b. deref (blkHeader b)) bs = Inr hs"
proof (induction bs arbitrary: hs)
  case (Cons b bs)
  then obtain h hs' where "hs = h # hs'" "blkHeader b = Some h" "map blkHeader bs = map Some hs'"
    by (cases hs) auto
  then show ?case
    using Cons.IH by simp
qed simp

lemma assembled_transition_verifies:
  assumes "assemble_header E c metadata requests = Inr hdr" "agree c c'"
    and "header_faithful (wire E) hdr" "\<And>n. last_config_faithful (wire E) n"
  obtains st latestSequence where "hState hdr = Some st" "UnmarshalViewMetadata E metadata = Inr latestSequence"
    "hNum hdr = latestSequence" "verify_transition E c' requests hdr st latestSequence = Inr ()"
proof -
  obtain st s0 atts cfgs where sim: "c_State c = Some st" "simulate E c st requests = Inr (s0, atts, cfgs)"
    using assms(1) by (auto simp: assemble_header_def res_bind_Inr_iff)
  obtain s1 where s1: "apply_config E s0 cfgs = Inr s1"
    using assms(1) sim by (cases "apply_config E s0 cfgs") (auto simp: assemble_header_def)
  obtain start where start: "chain_start E c s1 = Inr start"
    using assms(1) sim s1 by (auto simp: assemble_header_def res_bind_Inr_iff)
  obtain num where num: "UnmarshalViewMetadata E metadata = Inr num"
    using assms(1) sim s1 start by (cases "UnmarshalViewMetadata E metadata") (auto simp: assemble_header_def)
  define nb where "nb = length atts + (if cfgs = [] then 0 else 1)"
  have nb: "int (length atts) + (if cfgs = [] then 0 else 1) = int nb"
    by (simp add: nb_def)
  obtain db ce cb where db: "create_data_blocks E num (int nb) (c_lastConfigBlockNum c) 0 atts start = Inr (db, ce)"
    and cb: "create_config_block E num (int nb) cfgs ce = Inr cb"
    using assms(1) sim s1 start num by (auto simp: assemble_header_def nb res_bind_Inr_iff Let_def)
  obtain hs1 where hs1: "verify_data_blocks E (db @ cb) num (int nb) (c_lastConfigBlockNum c) 0 atts start = Inr (hs1, ce)"
    "map blkHeader db = map Some hs1" "length db = length atts"
    using verify_created_data_blocks [of E num "int nb" "c_lastConfigBlockNum c" "[]" atts start db ce cb] db assms(4)
    by auto
  have "length cb = (if cfgs = [] then 0 else 1)"
    using cb by (auto simp: create_config_block_def split: list.splits sum.splits failure.splits)
  then obtain hs2 where hs2: "verify_config_block E (db @ cb) num nb cfgs ce = Inr hs2" "map blkHeader cb = map Some hs2"
    using verify_created_config_block [OF cb assms(4), of db] hs1(3) by (auto simp: nb_def)
  have "map_res (\<lambda>b. deref (blkHeader b)) (db @ cb) = Inr (hs1 @ hs2)"
    using hs1(2) hs2(2) by (intro headers_of_blocks) simp
  then obtain fs where fs: "set_app_context E (hs1 @ hs2) s1 = Inr fs"
    and hdr: "hdr = \<lparr>hNum = num, hPrevHash = c_PrevHash c, hAvailableCommonBlocks = db @ cb, hState = Some fs,
      hDecisionNumOfLastConfigBlock = (if cfgs = [] then c_decisionNumOfLastConfigBlock c else num)\<rparr>"
    using assms(1) sim s1 start num db cb by (auto simp: assemble_header_def nb res_bind_Inr_iff Let_def)
  obtain sb where sb: "State_Serialize (wState (wire E)) fs = Inr sb"
    using assms(3) by (auto simp: header_faithful_def hdr State_Serialize_def elim: wire_faithfulE)
  have c': "c_State c' = Some st" "simulate E c' st requests = Inr (s0, atts, cfgs)" "chain_start E c' s1 = Inr start"
    "c_lastConfigBlockNum c' = c_lastConfigBlockNum c"
    "c_decisionNumOfLastConfigBlock c' = c_decisionNumOfLastConfigBlock c"
    using sim start assms(2) by (simp_all flip: agree_calls [OF assms(2)]) (simp_all add: agree_def)
  have "verify_transition E c' requests hdr fs num = Inr ()"
    using c' s1 hs1(1) hs2(1) fs sb
    by (simp add: verify_transition_def hdr nb_def [symmetric] require_def Let_def)
  then show thesis
    using that num by (simp add: hdr)
qed

lemma outcome_cases:
  obtains (fault) f where "m = Inl (Fault f)" | (err) e where "m = Inl (Err e)" | (ok) x where "m = Inr x"
  by (metis failure.exhaust sum.exhaust)

text \<open>
  A request that the leader verifies on its own also passes as part of a proposal at a node that agrees with the leader, as
  long as the number of the proposal is not below the height of the ledger of the leader.
\<close>

lemma check_event_proposed:
  assumes "agree c c'" "check_event E c ce 0 = Inr ()" "num \<noteq> 0" "of_nat (length (c_Storage c)) \<le> num"
  shows "check_event E c' ce num = Inr ()"
proof -
  have "verifyReportDecisionNum h' report num = Inr ()"
    if "verifyReportDecisionNum (of_nat (length (c_Storage c))) report 0 = Inr ()" for report h'
  proof -
    let ?h = "of_nat (length (c_Storage c)) :: u64"
    have h: "?h \<noteq> 0" "rDecisionNum report \<le> ?h - 1"
      using that by (auto simp: verifyReportDecisionNum_def split: if_splits)
    then have "rDecisionNum report < ?h"
      by (meson le_less_trans measure_unat word_less_nat_alt)
    then show ?thesis
      using assms(3,4) by (simp add: verifyReportDecisionNum_def require_def)
  qed
  then show ?thesis
    using assms(1,2) unfolding check_event_def agree_def
    by (auto simp: verify_report_def require_def res_bind_Inr_iff Let_def split: option.splits if_splits)
qed

lemma request_proposed:
  assumes "agree c c'" "VerifyRequest E c r = Inr (info, None)" "num \<noteq> 0" "of_nat (length (c_Storage c)) \<le> num"
  obtains ce configSeq isBAF where "getReqConfigSeq E r = Inr (configSeq, isBAF)" "RequestID E r = Inr info"
    "verifyProposalCE E c' r num = Inr (info, Some ce, None)"
proof -
  obtain ce where ce: "ControlEvent_FromBytes (fabric E) (wireEvents E) r = Inr ce"
    using assms(2) by (cases "ControlEvent_FromBytes (fabric E) (wireEvents E) r") (auto simp: VerifyRequest_def verifyCE_def verifyControlEvent_def split: if_splits)
  obtain reqID where id: "RequestID E r = Inr reqID"
    using assms(2) ce by (cases "RequestID E r") (auto simp: VerifyRequest_def verifyCE_def verifyControlEvent_def)
  have check: "check_event E c ce 0 = Inr ()" "info = reqID"
    using assms(2) ce id
    by (cases "check_event E c ce 0" rule: outcome_cases; auto simp: VerifyRequest_def verifyCE_def verifyControlEvent_def split: if_splits)+
  have "\<exists>cs. getReqConfigSeq E r = Inr cs"
    using check(1) ce unfolding check_event_def getReqConfigSeq_def verify_config_request_def
    by (auto simp: res_bind_Inr_iff wrap_err_def Let_def split: option.splits sum.splits)
  then show thesis
    using that ce id check check_event_proposed [OF assms(1) check(1) assms(3,4)]
    by (auto simp: verifyProposalCE_def verifyControlEvent_def)
qed

lemma requests_proposed:
  assumes "agree c c'" "num \<noteq> 0" "of_nat (length (c_Storage c)) \<le> num"
    and "\<forall>r\<in>set requests. \<exists>info. VerifyRequest E c r = Inr (info, None)"
  shows "\<exists>infos. map_res (RequestID E) requests = Inr infos \<and> verifyProposalRequests E c' requests seq num = Inr infos"
  using assms(4)
proof (induction requests)
  case (Cons r requests)
  then obtain info infos where i: "VerifyRequest E c r = Inr (info, None)" "map_res (RequestID E) requests = Inr infos"
      "verifyProposalRequests E c' requests seq num = Inr infos"
    by auto
  obtain ce configSeq isBAF where "getReqConfigSeq E r = Inr (configSeq, isBAF)" "RequestID E r = Inr info"
      "verifyProposalCE E c' r num = Inr (info, Some ce, None)"
    by (rule request_proposed [OF assms(1) i(1) assms(2,3)])
  then show ?case
    using i(2,3) by simp
qed simp

text \<open>
  (C26) What a correct leader proposes is accepted. If a node assembles a proposal from requests each of which it verified
  itself, then every node at the same point of the chain of decisions (same state, digests, transaction count and
  configuration numbers, which do not change during the verification) accepts the proposal: the requests verify there too, and
  the state, the blocks, their numbers, hashes and metadata that it computes are the proposed ones. It is assumed that there is a
  request, that requests are shorter than two to the 32, that the number of the decision is not 0 nor below the height of the
  ledger of the leader, and that the codecs read back what they write.
\<close>

theorem honest_proposal_accepted:
  assumes "AssembleProposal E c metadata requests = Inr p" "agree c c'"
    and "assemble_header E c metadata requests = Inr hdr" "header_faithful (wire E) hdr"
    and "\<And>n. last_config_faithful (wire E) n" "requests \<noteq> []" "requests_fit requests"
    and "\<forall>r\<in>set requests. \<exists>info. VerifyRequest E c r = Inr (info, None)"
    and "hNum hdr \<noteq> 0" "of_nat (length (c_Storage c)) \<le> hNum hdr"
  shows "\<exists>infos. map_res (RequestID E) requests = Inr infos \<and> VerifyProposal E c' c' p = Inr infos"
proof -
  obtain hb where hb: "Header_Serialize (wire E) hdr = Inr hb"
    "p = \<lparr>prPayload = Some (BatchedRequests_Serialize requests), prHeader = Some hb, prMetadata = Some metadata,
      prVerificationSequence = c_verificationSequence c\<rparr>"
    using assms(1,3) by (auto simp: AssembleProposal_def res_bind_Inr_iff)
  have "Header_Deserialize (wire E) (Some hb) = Inr hdr"
    using Header_round_trip [OF assms(4)] hb(1) by auto
  moreover have "BatchedRequests_Deserialize (BatchedRequests_Serialize requests) = Inr requests"
    using assms(6,7) by (intro br.dec_enc) simp
  moreover obtain st num where "hState hdr = Some st" "UnmarshalViewMetadata E metadata = Inr num"
    "hNum hdr = num" "verify_transition E c' requests hdr st num = Inr ()"
    using assembled_transition_verifies [OF assms(3,2,4,5)] by blast
  moreover obtain infos where "map_res (RequestID E) requests = Inr infos"
      "verifyProposalRequests E c' requests (c_verificationSequence c') (hNum hdr) = Inr infos"
    using requests_proposed [OF assms(2,9,10,8)] by blast
  ultimately show ?thesis
    using assms(2) by (simp add: VerifyProposal_def hb(2) agree_def require_def)
qed

lemma verify_transition_parts:
  assumes "verify_transition E c requests hdr pst num = Inr ()"
  obtains st s0 atts cfgs s1 start hs1 ce hs2 fs where
    "c_State c = Some st" "simulate E c st requests = Inr (s0, atts, cfgs)" "apply_config E s0 cfgs = Inr s1"
    "hDecisionNumOfLastConfigBlock hdr = (if cfgs = [] then c_decisionNumOfLastConfigBlock c else num)"
    "chain_start E c s1 = Inr start"
    "verify_data_blocks E (hAvailableCommonBlocks hdr) num (int (length atts + (if cfgs = [] then 0 else 1)))
       (c_lastConfigBlockNum c) 0 atts start = Inr (hs1, ce)"
    "verify_config_block E (hAvailableCommonBlocks hdr) num (length atts + (if cfgs = [] then 0 else 1)) cfgs ce = Inr hs2"
    "set_app_context E (hs1 @ hs2) s1 = Inr fs"
    "\<exists>bs. State_Serialize (wState (wire E)) pst = Inr bs \<and> State_Serialize (wState (wire E)) fs = Inr bs"
proof -
  obtain st s0 atts cfgs where sim: "c_State c = Some st" "simulate E c st requests = Inr (s0, atts, cfgs)"
    using assms by (auto simp: verify_transition_def res_bind_Inr_iff)
  obtain s1 where "apply_config E s0 cfgs = Inr s1"
    using assms sim by (cases "apply_config E s0 cfgs") (auto simp: verify_transition_def)
  then show thesis
    using assms sim that by (auto simp: verify_transition_def res_bind_Inr_iff Let_def)
qed

lemma VerifyProposal_parts:
  assumes "VerifyProposal E c c' p = Inr infos"
  obtains hdr requests pst metadata where
    "Header_Deserialize (wire E) (prHeader p) = Inr hdr" "prHeader p \<noteq> None"
    "BatchedRequests_Deserialize (nil_bytes (prPayload p)) = Inr requests"
    "hState hdr = Some pst" "prMetadata p = Some metadata" "UnmarshalViewMetadata E metadata = Inr (hNum hdr)"
    "prVerificationSequence p = c_verificationSequence c" "c_verificationSequence c' = c_verificationSequence c"
    "verifyProposalRequests E c requests (c_verificationSequence c) (hNum hdr) = Inr infos"
    "verify_transition E c' requests hdr pst (hNum hdr) = Inr ()"
  using assms by (auto simp: VerifyProposal_def res_bind_Inr_iff nil_bytes_def Let_def split: option.splits)

text \<open>The digests that the checked blocks bind: those of the ordered batches, and then that of the config request if there is one.\<close>

definition config_digests :: "'db node_env \<Rightarrow> ConfigRequest list \<Rightarrow> bytes list" where
  "config_digests E configRequests =
     (case configRequests of
        [] \<Rightarrow> []
      | r # _ \<Rightarrow>
          (case MarshalEnvelope (fabric E) (crEnvelope r) of
             Inl e \<Rightarrow> []
           | Inr configReq \<Rightarrow> [BatchedRequests_Digest (sha256 E) [configReq]]))"

lemma verify_data_blocks_end:
  assumes "verify_data_blocks E proposed num nb lc i bas ce = Inr (hs, ce')"
  shows "chain_headers (sha256 E) (ceNumber ce) (cePrevHash ce) (map (\<lambda>ba. Digest (hd ba)) bas @ ds) =
    hs @ chain_headers (sha256 E) (ceNumber ce') (cePrevHash ce') ds"
  using assms
proof (induction bas arbitrary: i ce hs)
  case (Cons ba bas)
  obtain baf where i0: "index ba 0 = Inr baf" and baf: "baf = hd ba"
    using Cons.prems by (cases ba) (auto simp: index_def)
  obtain block where ib: "index proposed i = Inr block"
    using Cons.prems i0 by (auto simp: res_bind_Inr_iff)
  let ?h = "\<lparr>bhNumber = ceNumber ce + 1, bhPreviousHash = cePrevHash ce, bhDataHash = Digest baf\<rparr>"
  obtain hs' where "verify_data_blocks E proposed num nb lc (i + 1) bas
      \<lparr>ceNumber = ceNumber ce + 1, cePrevHash = BlockHeaderHash (sha256 E) ?h, ceTXCount = ceTXCount ce + TXCount baf\<rparr> = Inr (hs', ce')"
    "hs = ?h # hs'"
    using Cons.prems i0 ib by (auto simp: Let_def res_bind_Inr_iff split: sum.splits failure.splits)
  then show ?case
    using Cons.IH by (fastforce simp: Let_def baf)
qed simp

lemma verify_config_block_parts:
  assumes "verify_config_block E proposed num numBlocks (r # rs) ce = Inr hs"
  obtains req block where "MarshalEnvelope (fabric E) (crEnvelope r) = Inr req" "index proposed (numBlocks - 1) = Inr block"
    "VerifyConfigCommonBlock (sha256 E) (wire E) block (ceNumber ce + 1) (cePrevHash ce)
       (BatchedRequests_Digest (sha256 E) [req]) (ceTXCount ce + 1) num (int numBlocks) (int numBlocks - 1) = Inr ()"
    "hs = chain_headers (sha256 E) (ceNumber ce) (cePrevHash ce) (config_digests E (r # rs))" "length hs = 1"
proof -
  obtain req block where b: "MarshalEnvelope (fabric E) (crEnvelope r) = Inr req" "index proposed (numBlocks - 1) = Inr block"
    using assms by (cases "MarshalEnvelope (fabric E) (crEnvelope r)") (auto simp: verify_config_block_def res_bind_Inr_iff Let_def)
  then show thesis
    using assms
    by (cases "VerifyConfigCommonBlock (sha256 E) (wire E) block (ceNumber ce + 1) (cePrevHash ce)
         (BatchedRequests_Digest (sha256 E) [req]) (ceTXCount ce + 1) num (int numBlocks) (int numBlocks - 1)" rule: outcome_cases)
      (auto intro!: that simp: verify_config_block_def config_digests_def Let_def)
qed

lemma verify_config_block_header:
  assumes "verify_config_block E proposed num (length bas + (if cfgs = [] then 0 else 1)) cfgs ce = Inr hs"
  shows "hs = chain_headers (sha256 E) (ceNumber ce) (cePrevHash ce) (config_digests E cfgs)"
    and "cfgs \<noteq> [] \<Longrightarrow> length bas < length proposed \<and> blkHeader (proposed ! length bas) = Some (hs ! 0)"
    and "length hs = (if cfgs = [] then 0 else 1)"
proof -
  have "hs = chain_headers (sha256 E) (ceNumber ce) (cePrevHash ce) (config_digests E cfgs) \<and>
    (cfgs \<noteq> [] \<longrightarrow> length bas < length proposed \<and> blkHeader (proposed ! length bas) = Some (hs ! 0)) \<and>
    length hs = (if cfgs = [] then 0 else 1)"
  proof (cases cfgs)
    case Nil
    then show ?thesis
      using assms by (simp add: verify_config_block_def config_digests_def)
  next
    case (Cons r rs)
    obtain req block where b: "MarshalEnvelope (fabric E) (crEnvelope r) = Inr req" "index proposed (length bas) = Inr block"
      "VerifyConfigCommonBlock (sha256 E) (wire E) block (ceNumber ce + 1) (cePrevHash ce)
         (BatchedRequests_Digest (sha256 E) [req]) (ceTXCount ce + 1) num (int (length bas + 1)) (int (length bas + 1) - 1) = Inr ()"
      "hs = chain_headers (sha256 E) (ceNumber ce) (cePrevHash ce) (config_digests E (r # rs))" "length hs = 1"
      using assms by (simp add: Cons) (erule verify_config_block_parts, simp)
    show ?thesis
      using b(1,2,4,5) VerifyConfigCommonBlock_header(1) [OF b(3)]
      by (auto simp: Cons config_digests_def index_def Let_def split: if_splits)
  qed
  then show "hs = chain_headers (sha256 E) (ceNumber ce) (cePrevHash ce) (config_digests E cfgs)"
    and "cfgs \<noteq> [] \<Longrightarrow> length bas < length proposed \<and> blkHeader (proposed ! length bas) = Some (hs ! 0)"
    and "length hs = (if cfgs = [] then 0 else 1)"
    by blast+
qed

text \<open>
  (C27) The blocks that a node checks in a proposal before it accepts it continue its chain. There is one for each batch that
  the node's own transition orders, in that order, and then one for the config request if there is one. Their headers carry
  consecutive numbers after the last block of the state, each with the hash of the header before it and the digest of its
  batch or of the config request. Blocks of the proposal beyond these are not checked.
\<close>

theorem accepted_blocks_chained:
  assumes "VerifyProposal E c c' p = Inr infos"
  shows "\<exists>hdr requests st s0 atts cfgs s1 start.
    Header_Deserialize (wire E) (prHeader p) = Inr hdr \<and>
    BatchedRequests_Deserialize (nil_bytes (prPayload p)) = Inr requests \<and>
    c_State c' = Some st \<and> simulate E c' st requests = Inr (s0, atts, cfgs) \<and>
    apply_config E s0 cfgs = Inr s1 \<and> chain_start E c' s1 = Inr start \<and>
    (let n = length atts + (if cfgs = [] then 0 else 1) in
      n \<le> length (hAvailableCommonBlocks hdr) \<and>
      map blkHeader (take n (hAvailableCommonBlocks hdr)) =
        map Some (chain_headers (sha256 E) (ceNumber start) (cePrevHash start)
          (map (\<lambda>ba. Digest (hd ba)) atts @ config_digests E cfgs)))"
proof -
  obtain hdr requests pst where p: "Header_Deserialize (wire E) (prHeader p) = Inr hdr"
    "BatchedRequests_Deserialize (nil_bytes (prPayload p)) = Inr requests"
    "verify_transition E c' requests hdr pst (hNum hdr) = Inr ()"
    using assms by (rule VerifyProposal_parts)
  obtain st s0 atts cfgs s1 start hs1 ce hs2 where t: "c_State c' = Some st"
    "simulate E c' st requests = Inr (s0, atts, cfgs)" "apply_config E s0 cfgs = Inr s1" "chain_start E c' s1 = Inr start"
    "verify_data_blocks E (hAvailableCommonBlocks hdr) (hNum hdr) (int (length atts + (if cfgs = [] then 0 else 1)))
       (c_lastConfigBlockNum c') 0 atts start = Inr (hs1, ce)"
    "verify_config_block E (hAvailableCommonBlocks hdr) (hNum hdr) (length atts + (if cfgs = [] then 0 else 1)) cfgs ce = Inr hs2"
    using p(3) by (rule verify_transition_parts)
  let ?blocks = "hAvailableCommonBlocks hdr" and ?n = "length atts + (if cfgs = [] then 0 else 1)"
  have v: "length hs1 = length atts" "\<forall>j < length atts. j < length ?blocks \<and> blkHeader (?blocks ! j) = Some (hs1 ! j)"
    using verify_data_blocks_headers [OF t(5)] by auto
  note w = verify_config_block_header [OF t(6)]
  have at: "j < length ?blocks \<and> blkHeader (?blocks ! j) = Some ((hs1 @ hs2) ! j)" if "j < ?n" for j
    using that v w(2) by (cases "j < length atts") (auto simp: nth_append less_Suc_eq split: if_splits)
  have len: "?n \<le> length ?blocks"
    using at [of "?n - 1"] by (cases ?n) auto
  have "map blkHeader (take ?n ?blocks) = map Some (hs1 @ hs2)"
    using at len v(1) w(3) by (intro nth_equalityI) (simp_all del: map_append)
  then show ?thesis
    using p t(1-4) len verify_data_blocks_end [OF t(5), of "config_digests E cfgs"] w(1) by (auto simp: Let_def)
qed

lemma index_append: "index xs i = Inr x \<Longrightarrow> index (xs @ ys) i = Inr x"
  by (auto simp: index_def nth_append split: if_splits)

lemma verify_data_blocks_extra:
  "verify_data_blocks E proposed num nb lc i bas ce = Inr r \<Longrightarrow>
   verify_data_blocks E (proposed @ extra) num nb lc i bas ce = Inr r"
proof (induction bas arbitrary: i ce r)
  case (Cons ba bas)
  obtain baf block where "index ba 0 = Inr baf" "index proposed i = Inr block"
    using Cons.prems by (auto simp: res_bind_Inr_iff)
  then show ?case
    using Cons index_append [of proposed i block extra]
    by (auto simp: Let_def res_bind_Inr_iff split: sum.splits failure.splits)
qed simp

lemma verify_config_block_extra:
  assumes "verify_config_block E proposed num nb cfgs ce = Inr r"
  shows "verify_config_block E (proposed @ extra) num nb cfgs ce = Inr r"
proof (cases cfgs)
  case (Cons x xs)
  then obtain block where "index proposed (nb - 1) = Inr block"
    using assms by (cases "index proposed (nb - 1)")
      (auto simp: verify_config_block_def Let_def split: sum.splits)
  then show ?thesis
    using assms index_append [of proposed "nb - 1" block extra] Cons
    by (cases "MarshalEnvelope (fabric E) (crEnvelope x)") (simp_all add: verify_config_block_def Let_def)
qed (use assms in \<open>simp add: verify_config_block_def\<close>)

text \<open>
  (C31) The number of blocks of a proposal is not checked. If a proposal is accepted, then so is the proposal
  with further blocks of any content after the ones that the transition makes available, although
  \<^verbatim>\<open>SignProposal\<close> signs and \<^verbatim>\<open>Deliver\<close> indexes every block of the header.
\<close>

theorem extra_blocks_accepted:
  assumes "VerifyProposal E c c' p = Inr infos" "Header_Deserialize (wire E) (prHeader p) = Inr hdr"
    and "Header_Deserialize (wire E) (Some hb) = Inr (hdr\<lparr>hAvailableCommonBlocks := hAvailableCommonBlocks hdr @ extra\<rparr>)"
  shows "VerifyProposal E c c' (p\<lparr>prHeader := Some hb\<rparr>) = Inr infos"
proof -
  obtain requests pst metadata where p: "BatchedRequests_Deserialize (nil_bytes (prPayload p)) = Inr requests"
    "hState hdr = Some pst" "prMetadata p = Some metadata" "UnmarshalViewMetadata E metadata = Inr (hNum hdr)"
    "prVerificationSequence p = c_verificationSequence c" "c_verificationSequence c' = c_verificationSequence c"
    "verifyProposalRequests E c requests (c_verificationSequence c) (hNum hdr) = Inr infos"
    "verify_transition E c' requests hdr pst (hNum hdr) = Inr ()"
    using assms(1,2) by (auto elim!: VerifyProposal_parts)
  have "verify_transition E c' requests (hdr\<lparr>hAvailableCommonBlocks := hAvailableCommonBlocks hdr @ extra\<rparr>) pst (hNum hdr) = Inr ()"
    using p(8) by (rule verify_transition_parts)
      (simp add: verify_transition_def verify_data_blocks_extra verify_config_block_extra require_def split: if_splits)
  moreover obtain payload where "prPayload p = Some payload"
    using p(1) by (cases "prPayload p") (auto simp: nil_bytes_def BatchedRequests_Deserialize_def)
  ultimately show ?thesis
    using p assms(3) by (simp add: VerifyProposal_def nil_bytes_def require_def)
qed

lemma verified_request_baf:
  assumes "verifyProposalRequests E c reqs (c_verificationSequence c) num = Inr infos" "req \<in> set reqs"
    and "ControlEvent_FromBytes (fabric E) (wireEvents E) req = Inr ce" "ceBAF ce = Some b"
    and "ConfigSeq b \<le> c_verificationSequence c"
  shows "verify_baf E (c_verificationSequence c) b = Inr ()"
  using assms(1,2)
proof (induction reqs arbitrary: infos)
  case (Cons r reqs)
  have ce: "ceComplaint ce = None"
    using ControlEvent_FromBytes_wf [OF assms(3)] assms(4) by (cases rule: wf_event_cases) auto
  show ?case
  proof (cases "r = req")
    case True
    have "getReqConfigSeq E req = Inr (ConfigSeq b, True)"
      using assms(3,4) ce by (simp add: getReqConfigSeq_def)
    then obtain reqID ce' where "verifyControlEvent E c req num = Inr (reqID, ce', None)"
      using Cons.prems(1) True assms(5)
      by (auto simp: res_bind_Inr_iff verifyProposalCE_def less_le split: if_splits)
    then have "check_event E c ce num = Inr ()"
      using assms(3) unfolding verifyControlEvent_def
      by (cases "check_event E c ce num" rule: outcome_cases) (auto simp: res_bind_Inr_iff)
    then show ?thesis
      using ce assms(4) by (simp add: check_event_def)
  next
    case False
    then obtain infos' where "verifyProposalRequests E c reqs (c_verificationSequence c) num = Inr infos'"
      using Cons.prems(1) by (auto simp: res_bind_Inr_iff split: sum.splits)
    then show ?thesis
      using Cons.IH Cons.prems(2) False by auto
  qed
qed simp

text \<open>
  (C28) Only authenticated fragments are ordered. Every fragment of a batch that an accepted proposal orders
  was pending in the state of the node, or is signed: its signature verifies, for the bytes that the
  fragment stands for, as one of the batcher of its signer and shard.
\<close>

theorem ordered_fragments_verified:
  assumes "VerifyProposal E c c' p = Inr infos" "kv_store (kv E) contents"
    and "c_State c' = Some st" "wf_state (c_verificationSequence c') st"
  shows "\<exists>requests s0 atts cfgs. BatchedRequests_Deserialize (nil_bytes (prPayload p)) = Inr requests \<and>
    simulate E c' st requests = Inr (s0, atts, cfgs) \<and>
    (\<forall>g\<in>set atts. \<forall>b\<in>set g. b \<in> set (st_Pending st) \<or>
      (\<exists>tbs. toBeSignedBAF b = Inr tbs \<and>
        VerifySig E (NewBatcherIdentity (Signer b) (Shard b)) tbs (nil_bytes (Signature b)) = Inr ()))"
proof -
  let ?q = "c_verificationSequence c'"
  obtain hdr requests pst where p: "BatchedRequests_Deserialize (nil_bytes (prPayload p)) = Inr requests"
    "?q = c_verificationSequence c"
    "verifyProposalRequests E c requests (c_verificationSequence c) (hNum hdr) = Inr infos"
    "verify_transition E c' requests hdr pst (hNum hdr) = Inr ()"
    using assms(1) by (rule VerifyProposal_parts)
  obtain s0 atts cfgs where sim: "simulate E c' st requests = Inr (s0, atts, cfgs)"
    using p(4) assms(3) by (auto elim: verify_transition_parts)
  obtain ces where ces: "requestsToControlEvents (fabric E) (wireEvents E) requests = Inr ces"
    using sim by (auto simp: simulate_def SimulateStateTransition_def split: sum.splits)
  define F where "F = fresh_in (indexed contents (c_DB c')) ces"
  have atts: "atts = aggregateFragments (attested ?q F st)"
    using sim Simulate_closed_form [OF assms(2) ces assms(4), of "c_DB c'"] by (simp add: simulate_def F_def)
  have "b \<in> set (st_Pending st) \<or> (\<exists>tbs. toBeSignedBAF b = Inr tbs \<and>
        VerifySig E (NewBatcherIdentity (Signer b) (Shard b)) tbs (nil_bytes (Signature b)) = Inr ())"
    if "b \<in> set (attested ?q F st)" for b
  proof (cases "b \<in> set (st_Pending st)")
    case False
    have "b \<in> set (gathered ?q F st)"
      using that by (simp add: attested_def Let_def)
    then have b: "ConfigSeq b = ?q" "b \<in> set (BAFs ces)"
      using gathered_props [OF assms(4), of b F] False by (auto simp: F_def BAFs_fresh_in)
    obtain ce where ce: "ce \<in> set ces" "ceBAF ce = Some b"
      using b(2) by (auto simp: List.map_filter_def)
    then obtain req where "req \<in> set requests" "ControlEvent_FromBytes (fabric E) (wireEvents E) req = Inr ce"
      using map_res_from [of "ControlEvent_FromBytes (fabric E) (wireEvents E)" requests ces ce]
        ces ce(1) by (auto simp: requestsToControlEvents_def)
    then have "verify_baf E (c_verificationSequence c) b = Inr ()"
      using verified_request_baf [OF p(3)] ce(2) b(1) p(2) by simp
    then show ?thesis
      by (auto simp: verify_baf_def res_bind_Inr_iff)
  qed simp
  then show ?thesis
    using p(1) sim set_concat_aggregate [of "attested ?q F st"] unfolding atts by blast
qed

section \<open>Signatures and the ledger\<close>

lemma length_der: "length c \<le> length (der_octets c)" "length c \<le> length (der_seq c)"
  by (simp_all add: der_octets_def der_seq_def tlv_def)

lemma length_in_marshal: "x \<in> set xs \<Longrightarrow> length x \<le> length (concat (map der_octets xs))"
  by (induction xs) (auto intro: le_trans [OF length_der(1)] trans_le_add2)

lemma unmarshal_marshal_short:
  assumes "length (marshal_octets_list xs) < 2 ^ 31"
  shows "unmarshal_octets_list (marshal_octets_list xs) = Some xs"
proof -
  have "length (concat (map der_octets xs)) < 2 ^ 31"
    using assms length_der(2) [of "concat (map der_octets xs)"] unfolding marshal_octets_list_def by linarith
  then show ?thesis
    using unmarshal_marshal_octets_list [of xs "[]"] length_in_marshal [of _ xs] by fastforce
qed

lemma MessageToSign_round_trip:
  assumes "length (MessageToSign_asn1 m) < 2 ^ 31"
  shows "MessageToSign_parse (MessageToSign_asn1 m) = Some m"
proof -
  let ?c = "der_octets (msgIdentifierHeader m) @ der_octets (msgBlockHeader m) @ der_octets (msgOrdererBlockMetadata m)"
  have c: "length ?c < 2 ^ 31"
    using assms length_der(2) [of ?c] unfolding MessageToSign_asn1_def by linarith
  then have "length (msgIdentifierHeader m) < 2 ^ 31" "length (msgBlockHeader m) < 2 ^ 31"
    "length (msgOrdererBlockMetadata m) < 2 ^ 31"
    using length_der(1) [of "msgIdentifierHeader m"] length_der(1) [of "msgBlockHeader m"]
      length_der(1) [of "msgOrdererBlockMetadata m"] unfolding length_append by linarith+
  then show ?thesis
    using c by (simp add: MessageToSign_parse_def MessageToSign_asn1_def parse_der_end parse_octets_der)
qed

text \<open>What a node relies on when it verifies its own signatures: that the key verifies, and the codec of identifier headers.\<close>

definition key_verifies :: "'db node_env \<Rightarrow> u64 \<Rightarrow> bool" where
  "key_verifies E self \<longleftrightarrow> (\<forall>m s. SignMsg E m = Inr s \<longrightarrow> VerifySig E (NewConsenterIdentity (ucast self)) m s = Inr ())"

definition identifiers_faithful :: "'db node_env \<Rightarrow> u32 \<Rightarrow> bool" where
  "identifiers_faithful E identifier \<longleftrightarrow>
     (\<forall>nonce h. MarshalIdentifierHeader E identifier nonce = Inr h \<longrightarrow> UnmarshalIdentifierHeader (wire E) h = Inr identifier)"

definition signer_ok :: "'db node_env \<Rightarrow> (nat \<Rightarrow> fault + bytes) \<Rightarrow> u64 \<Rightarrow> bool" where
  "signer_ok E idHeaders self \<longleftrightarrow> key_verifies E self \<and>
     (\<forall>i h. idHeaders i = Inr h \<longrightarrow> (\<exists>n. UnmarshalIdentifierHeader (wire E) h = Inr n \<and> ucast n = self))"

lemma signer_ok_self:
  assumes "key_verifies E (c_SelfID c)" "identifiers_faithful E (ucast (c_PartyID c))" "c_SelfID c = ucast (c_PartyID c)"
  shows "signer_ok E (identifier_header E c nonces) (c_SelfID c)"
proof -
  have "UnmarshalIdentifierHeader (wire E) h = Inr (ucast (c_PartyID c))" if "identifier_header E c nonces i = Inr h" for i h
    using that assms(2)
    by (auto simp: identifier_header_def NewIdentifierHeaderOrPanic_def identifiers_faithful_def wrap_err_def res_bind_Inr_iff split: sum.splits)
  moreover have "(ucast (ucast (c_PartyID c) :: u32) :: u64) = ucast (c_PartyID c)"
    by (intro bit_word_eqI) (auto simp: bit_simps dest: bit_imp_le_length)
  ultimately show ?thesis
    using assms(1,3) by (simp add: signer_ok_def)
qed

lemma verify_identifier_ok:
  "signer_ok E idHeaders self \<Longrightarrow> idHeaders i = Inr (msgIdentifierHeader m) \<Longrightarrow> verify_identifier E m self = Inr ()"
  unfolding signer_ok_def verify_identifier_def
  by (simp add: success_iff)

lemma sign_blocks_verify:
  assumes "sign_blocks E idHeaders (Suc i) lc blks = Inr rest" "signer_ok E idHeaders self"
    and "\<forall>b\<in>set (butlast blks). \<not> isConfigBlock E b"
    and "\<forall>m\<in>set (map snd rest). length m < 2 ^ 31" "length vs = Suc i" "length ms = Suc i"
  shows "verify_block_sigs E self (vs @ map fst rest) (ms @ map snd rest) lc i blks = Inr ()"
  using assms(1,3-)
proof (induction blks arbitrary: i rest vs ms)
  case (Cons ab blks)
  obtain lc' idh msg sig rest' where step: "config_num_of E ab lc = Inr lc'" "idHeaders (Suc i) = Inr idh"
    "block_message E idh ab lc' = Inr msg" "SignMsg E msg = Inr sig"
    "sign_blocks E idHeaders (Suc (Suc i)) lc' blks = Inr rest'" "rest = (sig, msg) # rest'"
    using Cons.prems(1) by (auto simp: success_iff)
  have lc: "lc' = lc \<or> blks = []"
    using Cons.prems(2) step(1) by (cases blks) (auto simp: config_num_of_def)
  have "verify_block_sigs E self ((vs @ [sig]) @ map fst rest') ((ms @ [msg]) @ map snd rest') lc (Suc i) blks = Inr ()"
  proof (cases "blks = []")
    case False
    then show ?thesis
      using lc step(5,6) Cons.prems(2-) by (intro Cons.IH) auto
  qed simp
  moreover obtain m where m: "msg = MessageToSign_asn1 m" "msgIdentifierHeader m = idh"
    using step(3) by (auto simp: block_message_def res_bind_Inr_iff)
  moreover have "MessageToSign_parse msg = Some m"
    using Cons.prems(3) step(6) m(1) by (intro MessageToSign_round_trip [of m, folded m(1)]) simp
  moreover have "verifyBlockMessageToSign E m msg self ab lc = Inr ()"
    using step(1-3) m(2) verify_identifier_ok [OF assms(2), of "Suc i" m]
    by (simp add: verifyBlockMessageToSign_def require_def)
  moreover have "VerifySignature E \<lparr>sigID = self, sigValue = sig, sigMsg = msg\<rparr> = Inr ()"
    using step(4) assms(2) by (simp add: VerifySignature_def signer_ok_def key_verifies_def)
  ultimately show ?case
    using Cons.prems(4,5) by (simp add: step(6) index_def nth_append of_asn1_def)
qed simp

text \<open>
  (C30) A signature that a node makes on a proposal is accepted by every node with the same number of the last config block
  and of the decision of that block. The messages over the proposal and over each of its blocks that both sides build
  are the same, down to the last config number. It is assumed that the key of the node verifies, that its id in the BFT
  library is its party id, as the configuration sets it, that identifier headers are read back, that no block of the
  proposal but the last is a config block, and that the two parts of the signature are shorter than two to the 31.
\<close>

theorem own_signature_accepted:
  assumes "SignProposal E c nonces p = Inr sig" "c_lastConfigBlockNum c' = c_lastConfigBlockNum c"
    and "c_decisionNumOfLastConfigBlock c' = c_decisionNumOfLastConfigBlock c"
    and "key_verifies E (c_SelfID c)" "identifiers_faithful E (ucast (c_PartyID c))" "c_SelfID c = ucast (c_PartyID c)"
    and "Header_Deserialize (wire E) (prHeader p) = Inr hdr"
    and "\<forall>b\<in>set (butlast (hAvailableCommonBlocks hdr)). \<not> isConfigBlock E b"
    and "length (sigValue sig) < 2 ^ 31" "length (sigMsg sig) < 2 ^ 31"
  shows "VerifyConsenterSig E c' sig p = Inr ()"
proof -
  let ?ids = "identifier_header E c nonces"
  note ok = signer_ok_self [OF assms(4-6), of nonces]
  let ?lc = "if hNum hdr = hDecisionNumOfLastConfigBlock hdr then hNum hdr else c_decisionNumOfLastConfigBlock c"
  obtain idh msg psig rest where s: "?ids 0 = Inr idh"
    "proposal_message E idh p (hNum hdr) ?lc (hPrevHash hdr) = Inr msg" "SignMsg E msg = Inr psig"
    "sign_blocks E ?ids (Suc 0) (c_lastConfigBlockNum c) (hAvailableCommonBlocks hdr) = Inr rest"
    "sig = \<lparr>sigID = c_SelfID c, sigValue = marshal_octets_list (psig # map fst rest),
       sigMsg = marshal_octets_list (msg # map snd rest)\<rparr>"
    using assms(1,7) by (auto simp: SignProposal_def success_iff Let_def)
  have u: "unmarshal_octets_list (sigValue sig) = Some (psig # map fst rest)"
    "unmarshal_octets_list (sigMsg sig) = Some (msg # map snd rest)"
    using assms(9,10) by (simp_all add: s(5) unmarshal_marshal_short)
  have short: "length x < 2 ^ 31" if "x \<in> set (msg # map snd rest)" for x
    using length_in_marshal [OF that] length_der(2) [of "concat (map der_octets (msg # map snd rest))"] assms(10)
    unfolding s(5) marshal_octets_list_def Signature.simps by linarith
  obtain m where m: "msg = MessageToSign_asn1 m" "msgIdentifierHeader m = idh"
    using s(2) by (auto simp: proposal_message_def res_bind_Inr_iff)
  have parse: "MessageToSign_parse msg = Some m"
    using short [of msg] unfolding m(1) by (intro MessageToSign_round_trip) simp
  have "verifyProposalMessageToSign E m msg (c_SelfID c) p (hNum hdr) ?lc (hPrevHash hdr) = Inr ()"
    using s(1,2) m(2) verify_identifier_ok [OF ok, of 0 m]
    by (simp add: verifyProposalMessageToSign_def require_def)
  moreover have "VerifySignature E \<lparr>sigID = c_SelfID c, sigValue = psig, sigMsg = msg\<rparr> = Inr ()"
    using s(3) assms(4) by (simp add: VerifySignature_def key_verifies_def)
  moreover have "verify_block_sigs E (c_SelfID c) (psig # map fst rest) (msg # map snd rest)
      (c_lastConfigBlockNum c) 0 (hAvailableCommonBlocks hdr) = Inr ()"
    using sign_blocks_verify [OF s(4) ok assms(8), of "[psig]" "[msg]"] short by simp
  moreover have "sigValue sig \<noteq> []" "sigMsg sig \<noteq> []"
    by (simp_all add: s(5) marshal_octets_list_def der_seq_def)
  ultimately show ?thesis
    using u parse assms(2,3,7)
    by (cases "hNum hdr = hDecisionNumOfLastConfigBlock hdr")
      (simp_all add: VerifyConsenterSig_def of_asn1_def require_def s(5) Let_def)
qed

text \<open>The ledger of a node: every block holds the hash of the header before it, the node that of the last.\<close>

fun hash_chained :: "(bytes \<Rightarrow> bytes) \<Rightarrow> Block list \<Rightarrow> bytes \<Rightarrow> bool" where
  "hash_chained sha [] prev = True"
| "hash_chained sha (b # bs) prev =
     (case blkHeader b of
        None \<Rightarrow> False
      | Some h \<Rightarrow> bhPreviousHash h = prev \<and> hash_chained sha bs (BlockHeaderHash sha h))"

definition last_hash :: "(bytes \<Rightarrow> bytes) \<Rightarrow> Block list \<Rightarrow> bytes \<Rightarrow> bytes" where
  "last_hash sha bs prev =
     (if bs = [] then prev else case blkHeader (last bs) of None \<Rightarrow> [] | Some h \<Rightarrow> BlockHeaderHash sha h)"

lemma hash_chained_snoc:
  "hash_chained sha (bs @ [b]) prev \<longleftrightarrow>
     hash_chained sha bs prev \<and> (\<exists>h. blkHeader b = Some h \<and> bhPreviousHash h = last_hash sha bs prev)"
  by (induction bs arbitrary: prev) (auto simp: last_hash_def split: option.splits)

lemma enter_decision_fields:
  assumes "enter_decision E hdr block dec c = Inr (c', rc, cb)"
  shows "c_State c' = hState hdr" "c_Storage c' = c_Storage c" "c_DB c' = c_DB c"
    and "\<exists>h. blkHeader block = Some h \<and> c_PrevHash c' = BlockHeaderHash (sha256 E) h"
  using assms
  by (auto simp: enter_decision_def updateMetricsOnDeliver_def res_bind_Inr_iff Let_def
      split: option.splits if_splits sum.splits)

lemma created_block_header:
  assumes "CreateBlockToAppendFromDecision sha W number p sigs prevHash lc = Inr block"
  shows "blkHeader block = Some \<lparr>bhNumber = number, bhPreviousHash = prevHash,
    bhDataHash = ComputeBlockDataHash sha [ProposalToBytes p]\<rparr>"
  using assms by (auto simp: CreateBlockToAppendFromDecision_def InitBlockMetadata_def res_bind_Inr_iff Let_def)

text \<open>
  (C29) Delivery extends the ledger by one block and keeps it a hash chain. The node takes over the state of
  the decision, appends a block numbered by it that holds the hash of the last one, and every digest of
  the data blocks of the decision is found in its database from then on, as are the earlier ones.
\<close>

theorem delivery_extends_ledger:
  assumes "Deliver E c p sigs = Inr (c', rc, cb)" "kv_store (kv E) contents"
    and "hash_chained (sha256 E) (c_Storage c) genesis" "c_PrevHash c = last_hash (sha256 E) (c_Storage c) genesis"
  shows "\<exists>hdr digests block. headerAndDigestsFromProposal E p = Inr (hdr, digests) \<and>
    c_State c' = hState hdr \<and> c_Storage c' = c_Storage c @ [block] \<and>
    map_option bhNumber (blkHeader block) = Some (hNum hdr) \<and>
    hash_chained (sha256 E) (c_Storage c') genesis \<and> c_PrevHash c' = last_hash (sha256 E) (c_Storage c') genesis \<and>
    indexed contents (c_DB c') = indexed contents (c_DB c) \<union> set digests"
proof -
  obtain hdr digests db block where d: "headerAndDigestsFromProposal E p = Inr (hdr, digests)"
    "Consenter_Index (BADB_Put (kv E)) (c_DB c) digests = Inr db"
    "CreateBlockToAppendFromDecision (sha256 E) (wire E) (hNum hdr) p sigs (c_PrevHash c)
       (hDecisionNumOfLastConfigBlock hdr) = Inr block"
    "enter_decision E hdr block (hNum hdr) (c\<lparr>c_DB := db, c_Storage := c_Storage c @ [block]\<rparr>) = Inr (c', rc, cb)"
    using assms(1) by (auto simp: Deliver_def res_bind_Inr_iff)
  note f = enter_decision_fields [OF d(4)]
  note h = created_block_header [OF d(3)]
  have "hash_chained (sha256 E) (c_Storage c') genesis"
    using assms(3,4) f(2) h by (simp add: hash_chained_snoc)
  moreover have "c_PrevHash c' = last_hash (sha256 E) (c_Storage c') genesis"
    using f(2,4) h by (auto simp: last_hash_def)
  moreover have "indexed contents (c_DB c') = indexed contents (c_DB c) \<union> set digests"
    using Index_closed_form [OF assms(2), of "c_DB c" digests] d(2) f(3) by simp
  ultimately show ?thesis
    using d(1) f(1,2) h by (intro exI [of _ hdr] exI [of _ digests] exI [of _ block]) simp
qed

section \<open>A concrete node\<close>

text \<open>
  A node with the state of the concrete round, whose pending fragment is completed by the request
  \<open>[3]\<close>, a fragment of party 3. The codecs know the messages that occur.
\<close>

definition ex_new_block :: Block where
  "ex_new_block = \<lparr>blkHeader = Some \<lparr>bhNumber = 11, bhPreviousHash = [7], bhDataHash = [5]\<rparr>, blkData = Some [],
     blkMetadata = Some [[], put64 6, [], put64 102, []]\<rparr>"

definition ex_new_state :: State where
  "ex_new_state = ex_state\<lparr>st_Pending := [], st_AppContext := [1]\<rparr>"

definition ex_new_header :: Header where
  "ex_new_header = \<lparr>hNum = 9, hPrevHash = [8], hAvailableCommonBlocks = [ex_new_block], hState = Some ex_new_state,
     hDecisionNumOfLastConfigBlock = 2\<rparr>"

definition ex_header_message :: "bytes list \<Rightarrow> pHeader" where
  "ex_header_message raws = \<lparr>phNum = 9, phDecisionNumOfLastConfigBlock = 2, phPrevHash = [8],
     phAvailableCommonBlocks = raws, phState = [4]\<rparr>"

definition ex_node_wire :: ledger_wire where
  "ex_node_wire =
     \<lparr>wMetadata = \<lparr>Marshal = \<lambda>m. Inr (mdValue m), Unmarshal = \<lambda>bs. Inr \<lparr>mdValue = bs, mdSignatures = []\<rparr>\<rparr>,
      wLastConfig = \<lparr>Marshal = \<lambda>n. Inr (put64 n), Unmarshal = \<lambda>bs. Inr (get64 bs)\<rparr>,
      wBlockHeader = \<lparr>Marshal = \<lambda>h. Inr [1],
        Unmarshal = \<lambda>bs. Inr \<lparr>bhNumber = 10, bhPreviousHash = [], bhDataHash = []\<rparr>\<rparr>,
      wBlock = one_message ex_new_block [20],
      wState = one_message (State_toProto ex_new_state) [4],
      wHeader = \<lparr>Marshal = \<lambda>h. Inr (if phAvailableCommonBlocks h = [[20]] then [77] else [78]),
        Unmarshal = \<lambda>bs. Inr (ex_header_message (if bs = [77] then [[20]] else [[20], [20]]))\<rparr>,
      wAssemblerBlockMetadata = \<lparr>Marshal = \<lambda>m. Inr (put64 (pmTransactionCount m)),
        Unmarshal = \<lambda>bs. Inr \<lparr>pmPrimary = 1, pmShard = 1, pmSequence = 4, pmDecisionNum = 9, pmBatchIndex = 0,
          pmBatchCount = 1, pmTransactionCount = get64 bs\<rparr>\<rparr>,
      UnmarshalIdentifierHeader = \<lambda>bs. Inr (ucast (hd bs))\<rparr>"

definition ex_env :: "(bytes \<times> bytes) list node_env" where
  "ex_env =
     \<lparr>sha256 = \<lambda>_. [7], fabric = ex_lib, wireEvents = ex_bafs_lib, wireConfigRequest = one_message \<lparr>pcrEnvelope = []\<rparr> [],
      wire = ex_node_wire, kv = alist_kv, isConfigBlock = \<lambda>_. False,
      UnmarshalViewMetadata = \<lambda>_. Inr 9, VerifySig = \<lambda>_ _ _. Inr (),
      ValidateConfigRequest = \<lambda>_. Inr (), ValidateNewConfig = \<lambda>_. Inr (), ValidateTransition = \<lambda>_. Inr (),
      partiesOf = \<lambda>_. Inr [], MarshalOrdererMetadata = \<lambda>lc md. Inr (put64 lc @ md),
      MarshalIdentifierHeader = \<lambda>identifier nonce. Inr [ucast identifier], SignMsg = \<lambda>_. Inr [6],
      ExtractSmartBFTConfig = \<lambda>_. Inr []\<rparr>"

definition ex_node :: "(bytes \<times> bytes) list Consensus" where
  "ex_node = \<lparr>c_State = Some ex_state, c_verificationSequence = 3, c_lastConfigBlockNum = 6,
     c_decisionNumOfLastConfigBlock = 2, c_txCount = 100, c_PrevHash = [8], c_Storage = [], c_DB = [],
     c_CurrentNodes = [1, 2, 3, 4], c_PartyID = 1, c_SelfID = 1, c_softStopped = False\<rparr>"

definition ex_round_proposal :: Proposal where
  "ex_round_proposal = \<lparr>prPayload = Some [0, 0, 0, 1, 3], prHeader = Some [77], prMetadata = Some [1],
     prVerificationSequence = 3\<rparr>"

lemma ex_env_simps [simp]:
  "sha256 ex_env = (\<lambda>_. [7])" "fabric ex_env = ex_lib" "wireEvents ex_env = ex_bafs_lib" "wire ex_env = ex_node_wire"
  "kv ex_env = alist_kv" "isConfigBlock ex_env = (\<lambda>_. False)" "UnmarshalViewMetadata ex_env = (\<lambda>_. Inr 9)"
  "VerifySig ex_env = (\<lambda>_ _ _. Inr ())" "MarshalOrdererMetadata ex_env = (\<lambda>lc md. Inr (put64 lc @ md))"
  "MarshalIdentifierHeader ex_env = (\<lambda>identifier nonce. Inr [ucast identifier])" "SignMsg ex_env = (\<lambda>_. Inr [6])"
  by (simp_all add: ex_env_def)

lemma ex_wire_simps [simp]:
  "Marshal (wMetadata ex_node_wire) m = Inr (mdValue m)"
  "Unmarshal (wMetadata ex_node_wire) bs = Inr \<lparr>mdValue = bs, mdSignatures = []\<rparr>"
  "Marshal (wLastConfig ex_node_wire) n = Inr (put64 n)" "Unmarshal (wLastConfig ex_node_wire) bs = Inr (get64 bs)"
  "Marshal (wBlockHeader ex_node_wire) h = Inr [1]"
  "Unmarshal (wBlockHeader ex_node_wire) bs = Inr \<lparr>bhNumber = 10, bhPreviousHash = [], bhDataHash = []\<rparr>"
  "Marshal (wBlock ex_node_wire) ex_new_block = Inr [20]" "Unmarshal (wBlock ex_node_wire) [20] = Inr ex_new_block"
  "Marshal (wState ex_node_wire) (State_toProto ex_new_state) = Inr [4]"
  "Unmarshal (wState ex_node_wire) [4] = Inr (State_toProto ex_new_state)"
  "Marshal (wHeader ex_node_wire) (ex_header_message [[20]]) = Inr [77]"
  "Unmarshal (wHeader ex_node_wire) [77] = Inr (ex_header_message [[20]])"
  "Unmarshal (wHeader ex_node_wire) [78] = Inr (ex_header_message [[20], [20]])"
  "Marshal (wAssemblerBlockMetadata ex_node_wire) md = Inr (put64 (pmTransactionCount md))"
  "Unmarshal (wAssemblerBlockMetadata ex_node_wire) bs = Inr \<lparr>pmPrimary = 1, pmShard = 1, pmSequence = 4, pmDecisionNum = 9,
     pmBatchIndex = 0, pmBatchCount = 1, pmTransactionCount = get64 bs\<rparr>"
  by (simp_all add: ex_node_wire_def one_message_def ex_header_message_def)

lemma ex_node_simps [simp]:
  "c_State ex_node = Some ex_state" "c_verificationSequence ex_node = 3" "c_lastConfigBlockNum ex_node = 6"
  "c_decisionNumOfLastConfigBlock ex_node = 2" "c_txCount ex_node = 100" "c_PrevHash ex_node = [8]"
  "c_Storage ex_node = []" "c_DB ex_node = []" "c_SelfID ex_node = 1" "c_PartyID ex_node = 1"
  by (simp_all add: ex_node_def)

lemma ex_simulated:
  "simulate ex_env ex_node ex_state [[3]] = Inr (ex_state\<lparr>st_Pending := []\<rparr>, [[ex_baf 2 [5], ex_baf 3 [5]]], [])"
proof -
  have "Process ex_lib 3 [BAFEvent (ex_baf 3 [5])] ex_state = Inr (ex_state\<lparr>st_Pending := []\<rparr>, [ex_baf 2 [5], ex_baf 3 [5]], [])"
    by code_simp
  moreover have "BADB_Exists alist_kv [] = (\<lambda>d. Inr False)"
    using kv_store.set_laws(1) [OF badb.kv_store_axioms] by (auto simp: indexed_def)
  moreover have "aggregateFragments [ex_baf 2 [5], ex_baf 3 [5]] = [[ex_baf 2 [5], ex_baf 3 [5]]]"
    by code_simp
  ultimately show ?thesis
    using ex_bafs_parse [of 3] by (simp add: simulate_def SimulateStateTransition_def)
qed

lemma ex_chain_start: "chain_start ex_env ex_node s = Inr \<lparr>ceNumber = 10, cePrevHash = [7], ceTXCount = 100\<rparr>"
  by (simp add: chain_start_def BlockHeaderHash_def)

lemma ex_context: "h \<noteq> [] \<Longrightarrow> set_app_context ex_env h (ex_state\<lparr>st_Pending := []\<rparr>) = Inr ex_new_state"
  by (simp add: set_app_context_def MarshalOrPanic_def ex_new_state_def)

lemma ex_block_created:
  "create_data_blocks ex_env 9 1 6 0 [[ex_baf 2 [5], ex_baf 3 [5]]] \<lparr>ceNumber = 10, cePrevHash = [7], ceTXCount = 100\<rparr> =
     Inr ([ex_new_block], \<lparr>ceNumber = 11, cePrevHash = [7], ceTXCount = 102\<rparr>)"
  by (simp add: CreateDataCommonBlock_def ex_new_block_def BlockHeaderHash_def index_def ex_baf_def Let_def
      AssemblerBlockMetadataToBytes_def common_block_simps LastConfigMetadata_def MarshalOrPanic_def 
      AssemblerBlockMetadata_toProto_def ordering_info_def)

lemma ex_header_proto: "Header_toProto ex_node_wire ex_new_header = Inr (ex_header_message [[20]])"
  by (simp add: Header_toProto_def ex_new_header_def State_Serialize_def ex_header_message_def)

lemma ex_payload: "put32 1 = [0, 0, 0, 1]" "BatchedRequests_Deserialize [0, 0, 0, 1, 3] = Inr [[3]]"
  by code_simp+

lemma ex_assembled:
  "assemble_header ex_env ex_node [1] [[3]] = Inr ex_new_header"
  by (simp add: assemble_header_def ex_simulated apply_config_def ex_chain_start ex_block_created create_config_block_def
     ex_new_header_def del: create_data_blocks.simps) (simp add: ex_new_block_def ex_context)

lemma ex_proposed: "AssembleProposal ex_env ex_node [1] [[3]] = Inr ex_round_proposal"
  by (simp add: AssembleProposal_def ex_assembled Header_Serialize_def ex_header_proto ex_round_proposal_def ex_payload)

lemma ex_headers_read:
  "Header_Deserialize ex_node_wire (Some [77]) = Inr ex_new_header"
  "Header_Deserialize ex_node_wire (Some [78]) = Inr (ex_new_header\<lparr>hAvailableCommonBlocks := [ex_new_block, ex_new_block]\<rparr>)"
proof -
  have "state_normal ex_new_state"
    by code_simp
  then show
  "Header_Deserialize ex_node_wire (Some [77]) = Inr ex_new_header"
  "Header_Deserialize ex_node_wire (Some [78]) = Inr (ex_new_header\<lparr>hAvailableCommonBlocks := [ex_new_block, ex_new_block]\<rparr>)"
    by (simp_all add: Header_Deserialize_def ex_header_message_def State_Deserialize_def State_from_to ex_new_header_def)
qed

lemma ex_request_parse: "ControlEvent_FromBytes ex_lib ex_bafs_lib [3] = Inr (BAFEvent (ex_baf 3 [5]))"
  using ex_bafs_parse [of 3] by (simp add: requestsToControlEvents_def split: sum.splits)

lemma ex_request_id: "RequestID ex_env [3] = Inr \<lparr>riID = ''07'', riClientID = ''3''\<rparr>"
proof -
  have "hex_EncodeToString [7] = ''07''" "ControlEvent_SignerID (BAFEvent (ex_baf 3 [5])) = ''3''"
    by code_simp+
  then show ?thesis
    by (simp add: RequestID_def ex_request_parse ControlEvent_ID_def)
qed

lemma ex_requests_verified:
  "verifyProposalRequests ex_env ex_node [[3]] 3 9 = Inr [\<lparr>riID = ''07'', riClientID = ''3''\<rparr>]"
proof -
  obtain x y where "BAF_ToBeSigned (ex_baf 3 [5]) = Inr x"
    "BAF_ToBeSigned (duplicateBAFSetSigner (ex_baf 3 [5]) 1) = Inr y"
    using signed_bytes_total(1) by blast
  then have "check_event ex_env ex_node (BAFEvent (ex_baf 3 [5])) 9 = Inr ()"
    by (simp add: check_event_def verify_baf_def verify_primary_signature_def toBeSignedBAF_def ex_baf_def
       require_def nil_bytes_def)
  then show ?thesis
    by (simp add: verifyProposalCE_def verifyControlEvent_def ex_request_parse ex_request_id getReqConfigSeq_def ex_baf_def)
qed

lemma ex_block_verified:
  "verify_data_blocks ex_env [ex_new_block] 9 1 6 0 [[ex_baf 2 [5], ex_baf 3 [5]]] \<lparr>ceNumber = 10, cePrevHash = [7], ceTXCount = 100\<rparr> =
     Inr ([\<lparr>bhNumber = 11, bhPreviousHash = [7], bhDataHash = [5]\<rparr>], \<lparr>ceNumber = 11, cePrevHash = [7], ceTXCount = 102\<rparr>)"
proof -
  have "last_config_faithful (wire ex_env) 6"
    by (simp add: last_config_faithful_def wire_faithful_def)
  from verify_created_data_blocks [of ex_env 9 1 6 "[]", OF _ this, where post = "[]"] ex_block_created
  show ?thesis
   by (fastforce simp: ex_new_block_def simp del: verify_data_blocks.simps create_data_blocks.simps)
qed

lemma ex_proposal_verified:
  "VerifyProposal ex_env ex_node ex_node ex_round_proposal = Inr [\<lparr>riID = ''07'', riClientID = ''3''\<rparr>]"
proof -
  have "verify_transition ex_env ex_node [[3]] ex_new_header ex_new_state 9 = Inr ()"
    by (simp add: verify_transition_def ex_simulated apply_config_def ex_chain_start ex_new_header_def require_def
     ex_block_verified verify_config_block_def ex_context del: verify_data_blocks.simps)
     (simp add: State_Serialize_def)
  then show ?thesis
    by (simp add: VerifyProposal_def ex_round_proposal_def ex_payload ex_headers_read ex_requests_verified  require_def
      ex_new_header_def  del: verifyProposalRequests.simps)
qed

lemma ex_header_faithful: "header_faithful (wire ex_env) ex_new_header"
proof -
  have "state_normal ex_new_state"
    by code_simp
  moreover have "Header_toProto ex_node_wire ex_new_header = Inr (ex_header_message [[20]])"
    by (rule ex_header_proto)
  ultimately show ?thesis
    by (simp add: header_faithful_def ex_new_header_def wire_faithful_def)
qed

lemma ex_last_config_faithful: "last_config_faithful (wire ex_env) n"
  by (simp add: last_config_faithful_def wire_faithful_def)

lemma ex_request_verified: "VerifyRequest ex_env ex_node [3] = Inr (\<lparr>riID = ''07'', riClientID = ''3''\<rparr>, None)"
proof -
  obtain x y where "BAF_ToBeSigned (ex_baf 3 [5]) = Inr x"
    "BAF_ToBeSigned (duplicateBAFSetSigner (ex_baf 3 [5]) 1) = Inr y"
    using signed_bytes_total(1) by blast
  then have "check_event ex_env ex_node (BAFEvent (ex_baf 3 [5])) 0 = Inr ()"
    by (simp add: check_event_def verify_baf_def verify_primary_signature_def toBeSignedBAF_def ex_baf_def
       require_def nil_bytes_def)
  then show ?thesis
    by (simp add: VerifyRequest_def verifyCE_def verifyControlEvent_def ex_request_parse ex_request_id)
qed

theorem honest_proposal_accepted_witness:
  "VerifyProposal ex_env ex_node ex_node ex_round_proposal = Inr [\<lparr>riID = ''07'', riClientID = ''3''\<rparr>]"
proof -
  have "\<exists>infos. map_res (RequestID ex_env) [[3]] = Inr infos \<and> VerifyProposal ex_env ex_node ex_node ex_round_proposal = Inr infos"
    using ex_assembled ex_proposed ex_header_faithful ex_last_config_faithful ex_request_verified
    by (intro honest_proposal_accepted [of ex_env ex_node "[1]" "[[3]]" ex_round_proposal ex_node ex_new_header])
      (simp_all add: agree_def ex_new_header_def)
  then show ?thesis
    by (simp add: ex_request_id)
qed

theorem accepted_blocks_chained_witness:
  "\<exists>hdr (start :: chain_end). Header_Deserialize (wire ex_env) (prHeader ex_round_proposal) = Inr hdr \<and>
    map blkHeader (take 1 (hAvailableCommonBlocks hdr)) = map Some (chain_headers (sha256 ex_env) (ceNumber start) (cePrevHash start) [[5]])"
proof -
  obtain hdr requests st s0 atts cfgs s1 and start :: chain_end where h: "Header_Deserialize (wire ex_env) (prHeader ex_round_proposal) = Inr hdr"
    "BatchedRequests_Deserialize (nil_bytes (prPayload ex_round_proposal)) = Inr requests"
    "c_State ex_node = Some st" "simulate ex_env ex_node st requests = Inr (s0, atts, cfgs)"
    "map blkHeader (take (length atts + (if cfgs = [] then 0 else 1)) (hAvailableCommonBlocks hdr)) =
       map Some (chain_headers (sha256 ex_env) (ceNumber start) (cePrevHash start)
         (map (\<lambda>ba. Digest (hd ba)) atts @ config_digests ex_env cfgs))"
    using accepted_blocks_chained [OF ex_proposal_verified] unfolding Let_def by blast
  have "requests = [[3]]" "st = ex_state"
    using h(2,3) by (simp_all add: ex_round_proposal_def nil_bytes_def ex_payload)
  then have "atts = [[ex_baf 2 [5], ex_baf 3 [5]]]" "cfgs = []"
    using h(4) by (simp_all add: ex_simulated)
  then show ?thesis
    using h(1,5) by (intro exI [of _ hdr] exI [of _ start]) (simp add: config_digests_def ex_baf_def)
qed

theorem extra_blocks_accepted_witness:
  "VerifyProposal ex_env ex_node ex_node (ex_round_proposal\<lparr>prHeader := Some [78]\<rparr>) =
     Inr [\<lparr>riID = ''07'', riClientID = ''3''\<rparr>]"
proof (rule extra_blocks_accepted [OF ex_proposal_verified])
  show "Header_Deserialize (wire ex_env) (prHeader ex_round_proposal) = Inr ex_new_header"
    by (simp add: ex_round_proposal_def ex_headers_read)
  show "Header_Deserialize (wire ex_env) (Some [78]) =
      Inr (ex_new_header\<lparr>hAvailableCommonBlocks := hAvailableCommonBlocks ex_new_header @ [ex_new_block]\<rparr>)"
    by (simp add: ex_headers_read ex_new_header_def)
qed

theorem ordered_fragments_verified_witness:
  "\<exists>requests s0 atts cfgs. BatchedRequests_Deserialize (nil_bytes (prPayload ex_round_proposal)) = Inr requests \<and>
    simulate ex_env ex_node ex_state requests = Inr (s0, atts, cfgs)"
proof -
  have "kv_store (kv ex_env) map_of" "c_State ex_node = Some ex_state"
    "wf_state (c_verificationSequence ex_node) ex_state"
    using badb.kv_store_axioms ex_wf(1) by (simp_all add: ex_env_def ex_node_def)
  from ordered_fragments_verified [OF ex_proposal_verified this] show ?thesis
    by blast
qed

definition ex_own_signature :: Signature where
  "ex_own_signature = \<lparr>sigID = 1, sigValue = [48, 6, 4, 1, 6, 4, 1, 6],
     sigMsg = [48, 69, 4, 29, 48, 27, 4, 1, 1, 4, 11, 48, 9, 2, 1, 9, 4, 1, 8, 4, 1, 7, 4, 9, 0, 0, 0, 0, 0, 0, 0,
       2, 1, 4, 36, 48, 34, 4, 1, 1, 4, 11, 48, 9, 2, 1, 11, 4, 1, 7, 4, 1, 5, 4, 16, 0, 0, 0, 0, 0, 0, 0, 6,
       0, 0, 0, 0, 0, 0, 0, 102]\<rparr>"

lemma ex_own_signed: "SignProposal ex_env ex_node (\<lambda>_. Inr []) ex_round_proposal = Inr ex_own_signature"
proof -
  have b: "BlockHeaderBytes \<lparr>bhNumber = 9, bhPreviousHash = [8], bhDataHash = [7]\<rparr> = [48, 9, 2, 1, 9, 4, 1, 8, 4, 1, 7]"
    "BlockHeaderBytes \<lparr>bhNumber = 11, bhPreviousHash = [7], bhDataHash = [5]\<rparr> = [48, 9, 2, 1, 11, 4, 1, 7, 4, 1, 5]"
    "put64 2 = [0, 0, 0, 0, 0, 0, 0, 2]" "put64 6 = [0, 0, 0, 0, 0, 0, 0, 6]" "put64 102 = [0, 0, 0, 0, 0, 0, 0, 102]"
    by code_simp+
  have v: "marshal_octets_list [[6], [6]] = [48, 6, 4, 1, 6, 4, 1, 6]"
    by code_simp
  show ?thesis
    by (simp add: SignProposal_def identifier_header_def NewIdentifierHeaderOrPanic_def ex_round_proposal_def ex_payload ex_headers_read ex_own_signature_def
     proposal_message_def block_message_def orderer_metadata_def ComputeBlockDataHash_def b v
     config_num_of_def ex_new_block_def metadata_slots index_def ex_new_header_def nil_bytes_def)
      (simp add: MessageToSign_asn1_def, code_simp)
qed

theorem own_signature_accepted_witness:
  "VerifyConsenterSig ex_env ex_node ex_own_signature ex_round_proposal = Inr ()"
proof (rule own_signature_accepted)
  show "SignProposal ex_env ex_node (\<lambda>_. Inr []) ex_round_proposal = Inr ex_own_signature"
    by (rule ex_own_signed)
  show "identifiers_faithful ex_env (ucast (c_PartyID ex_node))"
    by (simp add: identifiers_faithful_def ex_node_wire_def)
  show "Header_Deserialize (wire ex_env) (prHeader ex_round_proposal) = Inr ex_new_header"
    by (simp add: ex_round_proposal_def ex_headers_read)
qed (simp_all add: key_verifies_def ex_env_def ex_own_signature_def)

definition ex_delivered :: "(bytes \<times> bytes) list Consensus" where
  "ex_delivered = ex_node\<lparr>c_State := Some ex_new_state, c_txCount := 102, c_PrevHash := [7],
     c_Storage := [\<lparr>blkHeader = Some \<lparr>bhNumber = 9, bhPreviousHash = [8], bhDataHash = [7]\<rparr>,
       blkData = Some [[48, 16, 4, 5, 0, 0, 0, 1, 3, 4, 1, 77, 4, 1, 1, 2, 1, 3]],
       blkMetadata = Some [[48, 0], put64 2, [], [1], []]\<rparr>],
     c_DB := [([0, 5], put64 0), (1 # put64 0 @ [5], [0])]\<rparr>"
lemma ex_delivery:
  "Deliver ex_env ex_node ex_round_proposal [] =
      Inr (ex_delivered, \<lparr>rcCurrentNodes = [1, 2, 3, 4], rcInLatestDecision = False\<rparr>, None)"
proof -
  have p: "ProposalToBytes ex_round_proposal = [48, 16, 4, 5, 0, 0, 0, 1, 3, 4, 1, 77, 4, 1, 1, 2, 1, 3]"
    and d: "DecisionSignaturesToBytes [] = [48, 0]"
    by code_simp+
  have "headerAndDigestsFromProposal ex_env ex_round_proposal = Inr (ex_new_header, [[5]])"
    by (simp add: headerAndDigestsFromProposal_def ex_round_proposal_def ex_headers_read)
     (simp add: ex_new_header_def ex_new_block_def)
  moreover have "Consenter_Index (BADB_Put alist_kv) [] [[5]] = Inr [([0, 5], put64 0), (1 # put64 0 @ [5], [0])]"
    by code_simp
  moreover have "CreateBlockToAppendFromDecision (\<lambda>_. [7]) ex_node_wire 9 ex_round_proposal [] [8] 2 = 
     Inr \<lparr>blkHeader = Some \<lparr>bhNumber = 9, bhPreviousHash = [8], bhDataHash = [7]\<rparr>,
       blkData = Some [[48, 16, 4, 5, 0, 0, 0, 1, 3, 4, 1, 77, 4, 1, 1, 2, 1, 3]],
       blkMetadata = Some [[48, 0], put64 2, [], [1], []]\<rparr>"
     by (simp add: CreateBlockToAppendFromDecision_def MarshalOrPanic_def p d
        InitBlockMetadata_def metadata_slots Let_def eval_nat_numeral ComputeBlockDataHash_def) (simp add: ex_round_proposal_def nil_bytes_def)
  moreover have "getLastTxCountFromHeader ex_env ex_new_header = Inr 102"
    by (simp add: getLastTxCountFromHeader_def ex_new_header_def AssemblerBatchIdOrderingInfoAndTxCountFromBlock_def
        ex_new_block_def AssemblerBlockMetadataFromBytes_def metadata_slots MaxUint16_def Let_def GetMetadataFromBlock_def)
  ultimately show ?thesis
    by (simp add: Deliver_def enter_decision_def)
      (simp add: updateMetricsOnDeliver_def ex_new_header_def ex_delivered_def ex_node_def BlockHeaderHash_def)
qed

theorem delivery_extends_ledger_witness:
  "\<exists>hdr digests block. headerAndDigestsFromProposal ex_env ex_round_proposal = Inr (hdr, digests) \<and>
    c_State ex_delivered = hState hdr \<and> c_Storage ex_delivered = c_Storage ex_node @ [block] \<and>
    map_option bhNumber (blkHeader block) = Some (hNum hdr) \<and>
    hash_chained (sha256 ex_env) (c_Storage ex_delivered) [8] \<and>
    c_PrevHash ex_delivered = last_hash (sha256 ex_env) (c_Storage ex_delivered) [8] \<and>
    indexed map_of (c_DB ex_delivered) = indexed map_of (c_DB ex_node) \<union> set digests"
proof (rule delivery_extends_ledger)
  show "Deliver ex_env ex_node ex_round_proposal [] =
      Inr (ex_delivered, \<lparr>rcCurrentNodes = [1, 2, 3, 4], rcInLatestDecision = False\<rparr>, None)"
    by (rule ex_delivery)
  show "kv_store (kv ex_env) map_of"
    using badb.kv_store_axioms by (simp add: ex_env_def)
qed (simp_all add: ex_node_def last_hash_def)

end
