(* ===== verification/BatchIndex.thy ===== *)
theory BatchIndex
  imports Fabric "HOL-Library.AList" "HOL-Library.Multiset"
begin

text \<open>
  The containers in which an assembler keeps batches that it waits to order: the mapper from batch ids to
  values, the cache of batches with its size, and the heap that gives up the batch of the lowest sequence
  number first (\<^verbatim>\<open>src/node/assembler/batch_mapper.go\<close>, \<^verbatim>\<open>batch_cache.go\<close>, \<^verbatim>\<open>batch_heap.go\<close>). Each is for one partition, the
  batches of one primary in one shard; a batch of another partition is a panic.
\<close>

section \<open>The mapper\<close>

record ShardPrimary =
  spShard :: ShardID
  spPrimary :: PartyID

definition ShardPrimaryFromBatch :: "'a BatchID_scheme \<Rightarrow> ShardPrimary" where
  "ShardPrimaryFromBatch batchId = \<lparr>spShard = Shard batchId, spPrimary = Primary batchId\<rparr>"

text \<open>The values of the batches with one sequence number, with the id each was put under.\<close>

record 'v BatchMapper =
  seqToBatches :: "(BatchSequence \<times> (BatchID \<times> 'v) list) list"
  bmPartition :: ShardPrimary

definition NewBatchMapper :: "ShardPrimary \<Rightarrow> 'v BatchMapper" where
  "NewBatchMapper part = \<lparr>seqToBatches = [], bmPartition = part\<rparr>"

definition assertShardAndParty :: "'v BatchMapper \<Rightarrow> 'a BatchID_scheme \<Rightarrow> fault + unit" where
  "assertShardAndParty m batchId =
     (if spShard (bmPartition m) \<noteq> Shard batchId \<or> spPrimary (bmPartition m) \<noteq> Primary batchId
      then Inl (Panicked ''batch is not compatible with mapper'') else Inr ())"

text \<open>The entry with a digest, its replacement and its removal, as the loops of the code find the first one.\<close>

fun find_digest :: "bytes \<Rightarrow> (BatchID \<times> 'v) list \<Rightarrow> 'v option" where
  "find_digest digest [] = None"
| "find_digest digest ((batch, value) # bvs) =
     (if Digest batch = digest then Some value else find_digest digest bvs)"

fun set_digest :: "bytes \<Rightarrow> 'v \<Rightarrow> (BatchID \<times> 'v) list \<Rightarrow> (BatchID \<times> 'v) list" where
  "set_digest digest v [] = []"
| "set_digest digest v ((batch, value) # bvs) =
     (if Digest batch = digest then (batch, v) # bvs else (batch, value) # set_digest digest v bvs)"

fun drop_digest :: "bytes \<Rightarrow> (BatchID \<times> 'v) list \<Rightarrow> (BatchID \<times> 'v) list" where
  "drop_digest digest [] = []"
| "drop_digest digest ((batch, value) # bvs) =
     (if Digest batch = digest then bvs else (batch, value) # drop_digest digest bvs)"

definition mapper_insert :: "'a BatchID_scheme \<Rightarrow> 'v \<Rightarrow> bool \<Rightarrow> 'v BatchMapper \<Rightarrow> fault + 'v BatchMapper \<times> bool" where
  "mapper_insert batchId value overwrite m =
     res_bind (assertShardAndParty m batchId) (\<lambda>_.
       let itemToPut = (BatchID.truncate batchId, value) in
       case map_of (seqToBatches m) (Seq batchId) of
         None \<Rightarrow> Inr (m\<lparr>seqToBatches := AList.update (Seq batchId) [itemToPut] (seqToBatches m)\<rparr>, True)
       | Some bvs \<Rightarrow>
           if find_digest (Digest batchId) bvs \<noteq> None then
             (if \<not> overwrite then Inr (m, False)
              else Inr (m\<lparr>seqToBatches :=
                AList.update (Seq batchId) (set_digest (Digest batchId) value bvs) (seqToBatches m)\<rparr>, True))
           else Inr (m\<lparr>seqToBatches := AList.update (Seq batchId) (bvs @ [itemToPut]) (seqToBatches m)\<rparr>, True))"

definition mapper_Put :: "'a BatchID_scheme \<Rightarrow> 'v \<Rightarrow> 'v BatchMapper \<Rightarrow> fault + 'v BatchMapper" where
  "mapper_Put batchId value m = res_bind (mapper_insert batchId value True m) (\<lambda>(m', _). Inr m')"

definition mapper_Insert :: "'a BatchID_scheme \<Rightarrow> 'v \<Rightarrow> 'v BatchMapper \<Rightarrow> fault + 'v BatchMapper \<times> bool" where
  "mapper_Insert batchId value m = mapper_insert batchId value False m"

definition ErrBatchDoesNotExist :: error where
  "ErrBatchDoesNotExist = ErrNew ''batch does not exist''"

definition ErrBatchAlreadyExists :: error where
  "ErrBatchAlreadyExists = ErrNew ''batch already exists''"

definition ErrBatchTooLarge :: error where
  "ErrBatchTooLarge = ErrNew ''batch too large''"

definition mapper_Get :: "'a BatchID_scheme \<Rightarrow> 'v BatchMapper \<Rightarrow> failure + 'v" where
  "mapper_Get batchId m =
     res_bind (or_fault (assertShardAndParty m batchId)) (\<lambda>_.
       case map_of (seqToBatches m) (Seq batchId) of
         None \<Rightarrow> Inl (Err ErrBatchDoesNotExist)
       | Some bvs \<Rightarrow> (case find_digest (Digest batchId) bvs of None \<Rightarrow> Inl (Err ErrBatchDoesNotExist) | Some v \<Rightarrow> Inr v))"

definition mapper_Has :: "'a BatchID_scheme \<Rightarrow> 'v BatchMapper \<Rightarrow> fault + bool" where
  "mapper_Has batchId m =
     res_bind (assertShardAndParty m batchId) (\<lambda>_.
       case mapper_Get batchId m of Inl (Fault f) \<Rightarrow> Inl f | Inl (Err e) \<Rightarrow> Inr False | Inr v \<Rightarrow> Inr True)"

definition mapper_Remove :: "'a BatchID_scheme \<Rightarrow> 'v BatchMapper \<Rightarrow> failure + 'v BatchMapper \<times> 'v" where
  "mapper_Remove batchId m =
     res_bind (or_fault (assertShardAndParty m batchId)) (\<lambda>_.
       case map_of (seqToBatches m) (Seq batchId) of
         None \<Rightarrow> Inl (Err ErrBatchDoesNotExist)
       | Some bvs \<Rightarrow>
           (case find_digest (Digest batchId) bvs of
              None \<Rightarrow> Inl (Err ErrBatchDoesNotExist)
            | Some v \<Rightarrow>
                let withoutBatch = drop_digest (Digest batchId) bvs in
                Inr (m\<lparr>seqToBatches :=
                       (if withoutBatch = [] then AList.delete (Seq batchId) (seqToBatches m)
                        else AList.update (Seq batchId) withoutBatch (seqToBatches m))\<rparr>, v)))"

section \<open>The cache\<close>

definition batchSizeBytes :: "SimpleBatch \<Rightarrow> int" where
  "batchSizeBytes batch = (\<Sum>req\<leftarrow>Requests batch. int (length req))"

record BatchCache =
  shardBatchMapper :: "SimpleBatch BatchMapper"
  bcSizeBytes :: int

definition NewBatchCache :: "ShardPrimary \<Rightarrow> BatchCache" where
  "NewBatchCache part = \<lparr>shardBatchMapper = NewBatchMapper part, bcSizeBytes = 0\<rparr>"

definition cache_Pop :: "'a BatchID_scheme \<Rightarrow> BatchCache \<Rightarrow> failure + BatchCache \<times> SimpleBatch" where
  "cache_Pop batchId bc =
     res_bind (mapper_Remove batchId (shardBatchMapper bc)) (\<lambda>(m, batch).
       Inr (bc\<lparr>shardBatchMapper := m, bcSizeBytes := bcSizeBytes bc - batchSizeBytes batch\<rparr>, batch))"

definition cache_Put :: "SimpleBatch \<Rightarrow> BatchCache \<Rightarrow> failure + BatchCache" where
  "cache_Put batch bc =
     res_bind (or_fault (mapper_Insert batch batch (shardBatchMapper bc))) (\<lambda>(m, inserted).
       if \<not> inserted then Inl (Err ErrBatchAlreadyExists)
       else Inr (bc\<lparr>shardBatchMapper := m, bcSizeBytes := bcSizeBytes bc + batchSizeBytes batch\<rparr>))"

definition cache_Has :: "'a BatchID_scheme \<Rightarrow> BatchCache \<Rightarrow> fault + bool" where
  "cache_Has batchId bc = mapper_Has batchId (shardBatchMapper bc)"

definition cache_Get :: "'a BatchID_scheme \<Rightarrow> BatchCache \<Rightarrow> failure + SimpleBatch" where
  "cache_Get batchId bc = mapper_Get batchId (shardBatchMapper bc)"

section \<open>The heap\<close>

record 'v BatchHeapItem =
  hiBatch :: SimpleBatch
  hiValue :: 'v

record 'v batchHeap =
  hData :: "'v BatchHeapItem list"
  batchToIndex :: "nat BatchMapper"
  hLess :: "'v BatchHeapItem \<Rightarrow> 'v BatchHeapItem \<Rightarrow> bool"

definition newBatchHeap :: "ShardPrimary \<Rightarrow> ('v BatchHeapItem \<Rightarrow> 'v BatchHeapItem \<Rightarrow> bool) \<Rightarrow> 'v batchHeap" where
  "newBatchHeap part lt = \<lparr>hData = [], batchToIndex = NewBatchMapper part, hLess = lt\<rparr>"

definition heap_Less :: "nat \<Rightarrow> nat \<Rightarrow> 'v batchHeap \<Rightarrow> fault + bool" where
  "heap_Less i j h = res_bind (index (hData h) i) (\<lambda>a. res_bind (index (hData h) j) (\<lambda>b. Inr (hLess h a b)))"

definition heap_Swap :: "nat \<Rightarrow> nat \<Rightarrow> 'v batchHeap \<Rightarrow> fault + 'v batchHeap" where
  "heap_Swap i j h =
     res_bind (index (hData h) i) (\<lambda>a. res_bind (index (hData h) j) (\<lambda>b.
       let data' = (hData h)[i := b, j := a] in
       res_bind (mapper_Put (hiBatch (data' ! i)) i (batchToIndex h)) (\<lambda>m1.
       res_bind (mapper_Put (hiBatch (data' ! j)) j m1) (\<lambda>m2.
         Inr (h\<lparr>hData := data', batchToIndex := m2\<rparr>)))))"

definition heap_Push :: "'v BatchHeapItem \<Rightarrow> 'v batchHeap \<Rightarrow> fault + 'v batchHeap" where
  "heap_Push item h =
     res_bind (mapper_Put (hiBatch item) (length (hData h)) (batchToIndex h)) (\<lambda>m.
       Inr (h\<lparr>hData := hData h @ [item], batchToIndex := m\<rparr>))"

text \<open>The error of the mapper is dropped.\<close>

definition drop_index :: "'a BatchID_scheme \<Rightarrow> 'v batchHeap \<Rightarrow> fault + 'v batchHeap" where
  "drop_index batchId h =
     (case mapper_Remove batchId (batchToIndex h) of
        Inl (Fault f) \<Rightarrow> Inl f
      | Inl (Err e) \<Rightarrow> Inr h
      | Inr (m, _) \<Rightarrow> Inr (h\<lparr>batchToIndex := m\<rparr>))"

definition heap_Pop :: "'v batchHeap \<Rightarrow> fault + 'v batchHeap \<times> 'v BatchHeapItem" where
  "heap_Pop h =
     (if hData h = [] then Inl IndexOutOfRange
      else
        (let lastItem = last (hData h) in
         res_bind (drop_index (hiBatch lastItem) (h\<lparr>hData := butlast (hData h)\<rparr>)) (\<lambda>h'. Inr (h', lastItem))))"

text \<open>
  \<^verbatim>\<open>up\<close>, \<^verbatim>\<open>down\<close>, \<^verbatim>\<open>Push\<close>, \<^verbatim>\<open>Pop\<close> and \<^verbatim>\<open>Remove\<close> of the standard library's \<^verbatim>\<open>container/heap\<close>; \<^verbatim>\<open>down\<close> gives the
  place at which it stopped.
\<close>

function (sequential) go_up :: "nat \<Rightarrow> 'v batchHeap \<Rightarrow> fault + 'v batchHeap" where
  "go_up j h =
     (let i = (j - 1) div 2 in
      if i = j then Inr h
      else res_bind (heap_Less j i h) (\<lambda>lt. if \<not> lt then Inr h else res_bind (heap_Swap i j h) (go_up i)))"
  by pat_completeness auto
termination
  by (relation "measure fst") auto

function (sequential) go_down :: "nat \<Rightarrow> nat \<Rightarrow> 'v batchHeap \<Rightarrow> fault + 'v batchHeap \<times> nat" where
  "go_down i n h =
     (let j1 = 2 * i + 1 in
      if j1 \<ge> n then Inr (h, i)
      else
        res_bind (if j1 + 1 < n then heap_Less (j1 + 1) j1 h else Inr False) (\<lambda>right.
          let j = (if right then j1 + 1 else j1) in
          res_bind (heap_Less j i h) (\<lambda>lt. if \<not> lt then Inr (h, i) else res_bind (heap_Swap i j h) (go_down j n))))"
  by pat_completeness auto
termination
  by (relation "measure (\<lambda>(i, n, h). n - i)") (auto split: if_splits)

declare go_up.simps [simp del] go_down.simps [simp del]

definition go_Push :: "'v BatchHeapItem \<Rightarrow> 'v batchHeap \<Rightarrow> fault + 'v batchHeap" where
  "go_Push item h = res_bind (heap_Push item h) (\<lambda>h'. go_up (length (hData h') - 1) h')"

definition go_Pop :: "'v batchHeap \<Rightarrow> fault + 'v batchHeap \<times> 'v BatchHeapItem" where
  "go_Pop h =
     (let n = length (hData h) - 1 in
      res_bind (heap_Swap 0 n h) (\<lambda>h1. res_bind (go_down 0 n h1) (\<lambda>(h2, _). heap_Pop h2)))"

definition go_Remove :: "nat \<Rightarrow> 'v batchHeap \<Rightarrow> fault + 'v batchHeap \<times> 'v BatchHeapItem" where
  "go_Remove i h =
     (let n = length (hData h) - 1 in
      if n = i then heap_Pop h
      else
        res_bind (heap_Swap i n h) (\<lambda>h1. res_bind (go_down i n h1) (\<lambda>(h2, i').
          if i' > i then heap_Pop h2 else res_bind (go_up i h2) heap_Pop)))"

definition heap_Remove :: "'a BatchID_scheme \<Rightarrow> 'v batchHeap \<Rightarrow> fault + 'v batchHeap \<times> (error + 'v BatchHeapItem)" where
  "heap_Remove batchId h =
     (case mapper_Get batchId (batchToIndex h) of
        Inl (Fault f) \<Rightarrow> Inl f
      | Inl (Err e) \<Rightarrow> Inr (h, Inl ErrBatchDoesNotExist)
      | Inr idx \<Rightarrow>
          if idx \<ge> length (hData h) then res_bind (drop_index batchId h) (\<lambda>h'. Inr (h', Inl ErrBatchDoesNotExist))
          else res_bind (go_Remove idx h) (\<lambda>(h', item). Inr (h', Inr item)))"

definition BatchHeap_Push :: "'v BatchHeapItem \<Rightarrow> 'v batchHeap \<Rightarrow> failure + 'v batchHeap" where
  "BatchHeap_Push item h =
     res_bind (or_fault (mapper_Has (hiBatch item) (batchToIndex h))) (\<lambda>has.
       if has then Inl (Err ErrBatchAlreadyExists) else or_fault (go_Push item h))"

definition BatchHeap_Peek :: "'v batchHeap \<Rightarrow> 'v BatchHeapItem option" where
  "BatchHeap_Peek h = (case hData h of [] \<Rightarrow> None | item # _ \<Rightarrow> Some item)"

definition BatchHeap_Pop :: "'v batchHeap \<Rightarrow> fault + 'v batchHeap \<times> 'v BatchHeapItem option" where
  "BatchHeap_Pop h =
     (if hData h = [] then Inr (h, None) else res_bind (go_Pop h) (\<lambda>(h', item). Inr (h', Some item)))"

definition BatchHeap_Has :: "'a BatchID_scheme \<Rightarrow> 'v batchHeap \<Rightarrow> fault + bool" where
  "BatchHeap_Has batchId h = mapper_Has batchId (batchToIndex h)"

definition BatchHeap_Remove :: "'a BatchID_scheme \<Rightarrow> 'v batchHeap \<Rightarrow> fault + 'v batchHeap \<times> (error + 'v BatchHeapItem)" where
  "BatchHeap_Remove batchId h = heap_Remove batchId h"

section \<open>What a mapper promises\<close>

definition batch_key :: "'a BatchID_scheme \<Rightarrow> BatchSequence \<times> bytes" where
  "batch_key b = (Seq b, Digest b)"

definition in_partition :: "ShardPrimary \<Rightarrow> 'a BatchID_scheme \<Rightarrow> bool" where
  "in_partition p b \<longleftrightarrow> spShard p = Shard b \<and> spPrimary p = Primary b"

definition mapper_lookup :: "'v BatchMapper \<Rightarrow> BatchSequence \<times> bytes \<Rightarrow> 'v option" where
  "mapper_lookup m = (\<lambda>(s, d). case map_of (seqToBatches m) s of None \<Rightarrow> None | Some bvs \<Rightarrow> find_digest d bvs)"

definition mapper_inv :: "ShardPrimary \<Rightarrow> 'v BatchMapper \<Rightarrow> bool" where
  "mapper_inv p m \<longleftrightarrow>
     bmPartition m = p \<and> (\<forall>s bvs. map_of (seqToBatches m) s = Some bvs \<longrightarrow> distinct (map (Digest \<circ> fst) bvs))"

lemma find_digest_None: "find_digest d bvs = None \<longleftrightarrow> d \<notin> Digest ` fst ` set bvs"
  by (induction d bvs rule: find_digest.induct) auto

lemma set_digest_props:
  "map fst (set_digest d v bvs) = map fst bvs"
  "find_digest d' (set_digest d v bvs) = (if d' = d \<and> find_digest d bvs \<noteq> None then Some v else find_digest d' bvs)"
  by (induction d v bvs rule: set_digest.induct) auto

lemma find_digest_append: "find_digest d (bvs @ [(b, v)]) = (if find_digest d bvs \<noteq> None then find_digest d bvs else if Digest b = d then Some v else None)"
  by (induction d bvs rule: find_digest.induct) auto

lemma drop_digest_props:
  "set (drop_digest d bvs) \<subseteq> set bvs"
  "distinct (map (Digest \<circ> fst) bvs) \<Longrightarrow> distinct (map (Digest \<circ> fst) (drop_digest d bvs))"
  "distinct (map (Digest \<circ> fst) bvs) \<Longrightarrow> find_digest d' (drop_digest d bvs) = (if d' = d then None else find_digest d' bvs)"
proof -
  show sub: "set (drop_digest d bvs) \<subseteq> set bvs" for d and bvs :: "(BatchID \<times> 'a) list"
    by (induction d bvs rule: drop_digest.induct) auto
  show "distinct (map (Digest \<circ> fst) bvs) \<Longrightarrow> distinct (map (Digest \<circ> fst) (drop_digest d bvs))"
    using sub by (induction d bvs rule: drop_digest.induct) fastforce+
  show "distinct (map (Digest \<circ> fst) bvs) \<Longrightarrow> find_digest d' (drop_digest d bvs) = (if d' = d then None else find_digest d' bvs)"
  proof (induction d bvs rule: drop_digest.induct)
    case (2 d batch v bvs)
    then show ?case
      using find_digest_None [of d bvs] by (cases "Digest batch = d") auto
  qed simp
qed

lemma mapper_new: "mapper_inv p (NewBatchMapper p)" "mapper_lookup (NewBatchMapper p) k = None"
  by (simp_all add: mapper_inv_def NewBatchMapper_def mapper_lookup_def split: prod.split)

lemma assert_part: "mapper_inv p m \<Longrightarrow> in_partition p b \<Longrightarrow> assertShardAndParty m b = Inr ()"
  by (simp add: assertShardAndParty_def in_partition_def mapper_inv_def)

lemma mapper_update_lookup:
  "mapper_lookup (m\<lparr>seqToBatches := AList.update s bvs (seqToBatches m)\<rparr>) =
     (\<lambda>(s', d). if s' = s then find_digest d bvs else mapper_lookup m (s', d))"
  "mapper_inv p m \<Longrightarrow> distinct (map (Digest \<circ> fst) bvs) \<Longrightarrow> mapper_inv p (m\<lparr>seqToBatches := AList.update s bvs (seqToBatches m)\<rparr>)"
  by (auto simp: mapper_lookup_def mapper_inv_def update_conv' split: if_splits)

lemma mapper_insert_spec:
  assumes "mapper_inv p m" "in_partition p b"
  obtains m' where "mapper_insert b v overwrite m = Inr (m', overwrite \<or> mapper_lookup m (batch_key b) = None)" "mapper_inv p m'"
    "mapper_lookup m' = (if overwrite \<or> mapper_lookup m (batch_key b) = None then (mapper_lookup m)(batch_key b \<mapsto> v) else mapper_lookup m)"
proof (cases "map_of (seqToBatches m) (Seq b)")
  case None
  then have k: "mapper_lookup m (batch_key b) = None"
    by (simp add: mapper_lookup_def batch_key_def)
  let ?m = "m\<lparr>seqToBatches := AList.update (Seq b) [(BatchID.truncate b, v)] (seqToBatches m)\<rparr>"
  have "mapper_insert b v overwrite m = Inr (?m, True)"
    using assert_part [OF assms] None by (simp add: mapper_insert_def Let_def)
  moreover have "mapper_lookup ?m = (mapper_lookup m)(batch_key b \<mapsto> v)"
    unfolding mapper_update_lookup using None by (auto simp: fun_eq_iff batch_key_def mapper_lookup_def BatchID.truncate_def)
  ultimately show thesis
    using that [of ?m] mapper_update_lookup(2) [OF assms(1)] k by simp
next
  case (Some bvs)
  have d: "distinct (map (Digest \<circ> fst) bvs)"
    using assms(1) Some by (simp add: mapper_inv_def)
  have k: "mapper_lookup m (batch_key b) = find_digest (Digest b) bvs"
    using Some by (simp add: mapper_lookup_def batch_key_def)
  show thesis
  proof (cases "find_digest (Digest b) bvs")
    case None
    let ?m = "m\<lparr>seqToBatches := AList.update (Seq b) (bvs @ [(BatchID.truncate b, v)]) (seqToBatches m)\<rparr>"
    have "mapper_insert b v overwrite m = Inr (?m, True)"
      using assert_part [OF assms] Some None by (simp add: mapper_insert_def Let_def)
    moreover have "mapper_lookup ?m = (mapper_lookup m)(batch_key b \<mapsto> v)"
      unfolding mapper_update_lookup using Some None
      by (auto simp: fun_eq_iff batch_key_def mapper_lookup_def BatchID.truncate_def find_digest_append)
    moreover have "distinct (map (Digest \<circ> fst) (bvs @ [(BatchID.truncate b, v)]))"
      using d None by (auto simp: find_digest_None BatchID.truncate_def)
    ultimately show thesis
      using that [of ?m] mapper_update_lookup(2) [OF assms(1)] k None by simp
  next
    case s: (Some w)
    let ?m = "m\<lparr>seqToBatches := AList.update (Seq b) (set_digest (Digest b) v bvs) (seqToBatches m)\<rparr>"
    have "mapper_insert b v overwrite m = Inr (if overwrite then (?m, True) else (m, False))"
      using assert_part [OF assms] Some s by (simp add: mapper_insert_def Let_def)
    moreover have "mapper_lookup ?m = (mapper_lookup m)(batch_key b \<mapsto> v)"
      unfolding mapper_update_lookup using Some s
      by (auto simp: fun_eq_iff batch_key_def mapper_lookup_def set_digest_props)
    moreover have "mapper_inv p ?m"
      using mapper_update_lookup(2) [OF assms(1)] d set_digest_props(1) [of "Digest b" v bvs] by (metis map_map)
    ultimately show thesis
      using that [of "if overwrite then ?m else m"] assms(1) k s by auto
  qed
qed

lemma mapper_Get_spec:
  assumes "mapper_inv p m" "in_partition p b"
  shows "mapper_Get b m = (case mapper_lookup m (batch_key b) of None \<Rightarrow> Inl (Err ErrBatchDoesNotExist) | Some v \<Rightarrow> Inr v)"
  using assert_part [OF assms] by (simp add: mapper_Get_def mapper_lookup_def batch_key_def split: option.split)

lemma mapper_Has_spec:
  assumes "mapper_inv p m" "in_partition p b"
  shows "mapper_Has b m = Inr (mapper_lookup m (batch_key b) \<noteq> None)"
  using assert_part [OF assms] by (simp add: mapper_Has_def mapper_Get_spec [OF assms] split: option.split)

lemma mapper_Put_spec:
  assumes "mapper_inv p m" "in_partition p b"
  obtains m' where "mapper_Put b v m = Inr m'" "mapper_inv p m'" "mapper_lookup m' = (mapper_lookup m)(batch_key b \<mapsto> v)"
  using mapper_insert_spec [OF assms, of v True] by (metis (no_types, lifting) case_prod_conv mapper_Put_def res_bind_simps(2))

lemma mapper_Remove_spec:
  assumes "mapper_inv p m" "in_partition p b"
  shows "mapper_lookup m (batch_key b) = None \<Longrightarrow> mapper_Remove b m = Inl (Err ErrBatchDoesNotExist)"
    and "mapper_lookup m (batch_key b) = Some v \<Longrightarrow>
      \<exists>m'. mapper_Remove b m = Inr (m', v) \<and> mapper_inv p m' \<and> mapper_lookup m' = (mapper_lookup m)(batch_key b := None)"
proof -
  show "mapper_lookup m (batch_key b) = None \<Longrightarrow> mapper_Remove b m = Inl (Err ErrBatchDoesNotExist)"
    using assert_part [OF assms] by (simp add: mapper_Remove_def mapper_lookup_def batch_key_def split: option.splits)
  assume "mapper_lookup m (batch_key b) = Some v"
  then obtain bvs where bvs: "map_of (seqToBatches m) (Seq b) = Some bvs" "find_digest (Digest b) bvs = Some v"
    by (auto simp: mapper_lookup_def batch_key_def split: option.splits)
  have d: "distinct (map (Digest \<circ> fst) bvs)"
    using assms(1) bvs(1) by (simp add: mapper_inv_def)
  let ?ds = "drop_digest (Digest b) bvs"
  let ?m = "m\<lparr>seqToBatches := (if ?ds = [] then AList.delete (Seq b) (seqToBatches m) else AList.update (Seq b) ?ds (seqToBatches m))\<rparr>"
  have "mapper_Remove b m = Inr (?m, v)"
    using assert_part [OF assms] bvs by (simp add: mapper_Remove_def Let_def)
  moreover have "mapper_inv p ?m"
    using assms(1) drop_digest_props(2) [OF d] by (auto simp: mapper_inv_def update_conv' delete_conv' split: if_splits)
  moreover have "find_digest d' bvs = None" if "?ds = []" "d' \<noteq> Digest b" for d'
    using drop_digest_props(3) [OF d, of d' "Digest b"] that by simp
  then have "mapper_lookup ?m = (mapper_lookup m)(batch_key b := None)"
    using bvs drop_digest_props(3) [OF d] by (auto simp: fun_eq_iff mapper_lookup_def batch_key_def update_conv' delete_conv' split: if_splits)
  ultimately show "\<exists>m'. mapper_Remove b m = Inr (m', v) \<and> mapper_inv p m' \<and> mapper_lookup m' = (mapper_lookup m)(batch_key b := None)"
    by blast
qed

section \<open>What a cache promises\<close>

definition cache_lookup :: "BatchCache \<Rightarrow> BatchSequence \<times> bytes \<Rightarrow> SimpleBatch option" where
  "cache_lookup bc = mapper_lookup (shardBatchMapper bc)"

text \<open>Every batch is under its own id, and the size is that of all batches.\<close>

definition cache_inv :: "ShardPrimary \<Rightarrow> BatchCache \<Rightarrow> bool" where
  "cache_inv p bc \<longleftrightarrow>
     mapper_inv p (shardBatchMapper bc) \<and>
     (\<forall>k b. cache_lookup bc k = Some b \<longrightarrow> batch_key b = k \<and> in_partition p b) \<and>
     bcSizeBytes bc = (\<Sum>k \<in> dom (cache_lookup bc). batchSizeBytes (the (cache_lookup bc k)))"

lemma mapper_finite: "finite (dom (mapper_lookup m))"
proof (rule finite_subset)
  show "dom (mapper_lookup m) \<subseteq> (\<Union>(s, bvs) \<in> set (seqToBatches m). (\<lambda>(b, v). (s, Digest b)) ` set bvs)"
  proof
    fix k
    assume "k \<in> dom (mapper_lookup m)"
    then obtain s d bvs where k: "k = (s, d)" "map_of (seqToBatches m) s = Some bvs" "find_digest d bvs \<noteq> None"
      by (cases k) (auto simp: mapper_lookup_def split: option.splits)
    then obtain b v where "(b, v) \<in> set bvs" "d = Digest b"
      using find_digest_None [of d bvs] by auto
    then show "k \<in> (\<Union>(s, bvs) \<in> set (seqToBatches m). (\<lambda>(b, v). (s, Digest b)) ` set bvs)"
      using map_of_SomeD [OF k(2)] k(1) by force
  qed
qed auto

lemma cache_finite: "finite (dom (cache_lookup bc))"
  by (simp add: cache_lookup_def mapper_finite)

lemma batch_size_nonneg: "0 \<le> batchSizeBytes b"
  unfolding batchSizeBytes_def by (rule sum_list_nonneg) auto

lemma cache_new: "cache_inv p (NewBatchCache p)" "cache_lookup (NewBatchCache p) k = None" "bcSizeBytes (NewBatchCache p) = 0"
  by (simp_all add: cache_inv_def NewBatchCache_def cache_lookup_def mapper_new dom_def)

lemma cache_Put_spec:
  assumes "cache_inv p bc" "in_partition p b"
  shows "cache_lookup bc (batch_key b) \<noteq> None \<Longrightarrow> cache_Put b bc = Inl (Err ErrBatchAlreadyExists)"
    and "cache_lookup bc (batch_key b) = None \<Longrightarrow> \<exists>bc'. cache_Put b bc = Inr bc' \<and> cache_inv p bc' \<and>
      cache_lookup bc' = (cache_lookup bc)(batch_key b \<mapsto> b) \<and> bcSizeBytes bc' = bcSizeBytes bc + batchSizeBytes b"
proof -
  let ?m = "shardBatchMapper bc"
  have m: "mapper_inv p ?m"
    using assms(1) by (simp add: cache_inv_def)
  obtain m' where m': "mapper_insert b b False ?m = Inr (m', mapper_lookup ?m (batch_key b) = None)" "mapper_inv p m'"
      "mapper_lookup m' = (if mapper_lookup ?m (batch_key b) = None then (mapper_lookup ?m)(batch_key b \<mapsto> b) else mapper_lookup ?m)"
    by (rule mapper_insert_spec [OF m assms(2), of b False]) simp
  show "cache_lookup bc (batch_key b) \<noteq> None \<Longrightarrow> cache_Put b bc = Inl (Err ErrBatchAlreadyExists)"
    using m'(1) by (simp add: cache_Put_def mapper_Insert_def cache_lookup_def)
  assume new: "cache_lookup bc (batch_key b) = None"
  let ?bc = "bc\<lparr>shardBatchMapper := m', bcSizeBytes := bcSizeBytes bc + batchSizeBytes b\<rparr>"
  have look: "cache_lookup ?bc = (cache_lookup bc)(batch_key b \<mapsto> b)"
    using m'(3) new by (simp add: cache_lookup_def)
  have "batch_key b \<notin> dom (cache_lookup bc)"
    using new by auto
  then have "(\<Sum>k \<in> dom (cache_lookup ?bc). batchSizeBytes (the (cache_lookup ?bc k))) = bcSizeBytes ?bc"
    using assms(1) cache_finite [of bc] unfolding look
    by (auto simp: cache_inv_def intro!: sum.cong)
  then have "cache_inv p ?bc"
    using assms m'(2) look by (auto simp: cache_inv_def)
  moreover have "cache_Put b bc = Inr ?bc"
    using m'(1) new by (simp add: cache_Put_def mapper_Insert_def cache_lookup_def)
  ultimately show "\<exists>bc'. cache_Put b bc = Inr bc' \<and> cache_inv p bc' \<and>
      cache_lookup bc' = (cache_lookup bc)(batch_key b \<mapsto> b) \<and> bcSizeBytes bc' = bcSizeBytes bc + batchSizeBytes b"
    using look by auto
qed

lemma cache_Pop_spec:
  assumes "cache_inv p bc" "in_partition p i"
  shows "cache_lookup bc (batch_key i) = None \<Longrightarrow> cache_Pop i bc = Inl (Err ErrBatchDoesNotExist)"
    and "cache_lookup bc (batch_key i) = Some b \<Longrightarrow> \<exists>bc'. cache_Pop i bc = Inr (bc', b) \<and> cache_inv p bc' \<and>
      cache_lookup bc' = (cache_lookup bc)(batch_key i := None) \<and> bcSizeBytes bc' = bcSizeBytes bc - batchSizeBytes b"
proof -
  let ?m = "shardBatchMapper bc"
  have m: "mapper_inv p ?m"
    using assms(1) by (simp add: cache_inv_def)
  show "cache_lookup bc (batch_key i) = None \<Longrightarrow> cache_Pop i bc = Inl (Err ErrBatchDoesNotExist)"
    using mapper_Remove_spec(1) [OF m assms(2)] by (simp add: cache_Pop_def cache_lookup_def)
  assume b: "cache_lookup bc (batch_key i) = Some b"
  obtain m' where m': "mapper_Remove i ?m = Inr (m', b)" "mapper_inv p m'" "mapper_lookup m' = (mapper_lookup ?m)(batch_key i := None)"
    using mapper_Remove_spec(2) [OF m assms(2), of b] b by (auto simp: cache_lookup_def)
  let ?bc = "bc\<lparr>shardBatchMapper := m', bcSizeBytes := bcSizeBytes bc - batchSizeBytes b\<rparr>"
  have look: "cache_lookup ?bc = (cache_lookup bc)(batch_key i := None)"
    using m'(3) by (simp add: cache_lookup_def)
  have "batch_key i \<in> dom (cache_lookup bc)"
    using b by auto
  then have "(\<Sum>k \<in> dom (cache_lookup bc). batchSizeBytes (the (cache_lookup bc k))) =
      batchSizeBytes b + (\<Sum>k \<in> dom (cache_lookup bc) - {batch_key i}. batchSizeBytes (the (cache_lookup bc k)))"
    using cache_finite [of bc] b by (simp add: sum.remove)
  then have "(\<Sum>k \<in> dom (cache_lookup ?bc). batchSizeBytes (the (cache_lookup ?bc k))) = bcSizeBytes ?bc"
    using assms(1) unfolding look by (auto simp: cache_inv_def intro!: sum.cong)
  then have "cache_inv p ?bc"
    using assms(1) m'(2) look by (auto simp: cache_inv_def)
  moreover have "cache_Pop i bc = Inr (?bc, b)"
    using m'(1) by (simp add: cache_Pop_def)
  ultimately show "\<exists>bc'. cache_Pop i bc = Inr (bc', b) \<and> cache_inv p bc' \<and>
      cache_lookup bc' = (cache_lookup bc)(batch_key i := None) \<and> bcSizeBytes bc' = bcSizeBytes bc - batchSizeBytes b"
    using look by auto
qed

lemma cache_Has_spec: "cache_inv p bc \<Longrightarrow> in_partition p i \<Longrightarrow> cache_Has i bc = Inr (cache_lookup bc (batch_key i) \<noteq> None)"
  by (simp add: cache_Has_def mapper_Has_spec [of p] cache_inv_def cache_lookup_def)

lemma cache_empty: "cache_inv p bc \<Longrightarrow> dom (cache_lookup bc) = {} \<Longrightarrow> bcSizeBytes bc = 0"
  by (simp add: cache_inv_def)

section \<open>Binary heaps in lists\<close>

definition par :: "nat \<Rightarrow> nat" where
  "par x = (x - 1) div 2"

definition swap :: "'a list \<Rightarrow> nat \<Rightarrow> nat \<Rightarrow> 'a list" where
  "swap xs i j = xs[i := xs ! j, j := xs ! i]"

lemma par_less: "0 < x \<Longrightarrow> par x < x"
  by (simp add: par_def)

lemma par_child: "par x = i \<Longrightarrow> 0 < x \<Longrightarrow> x = 2 * i + 1 \<or> x = 2 * i + 2"
  by (auto simp: par_def)

lemma swap_simps [simp]: "length (swap xs i j) = length xs"
  by (simp add: swap_def)

lemma nth_swap:
  "i < length xs \<Longrightarrow> j < length xs \<Longrightarrow> swap xs i j ! x = (if x = i then xs ! j else if x = j then xs ! i else xs ! x)"
  by (auto simp: swap_def nth_list_update)

lemma mset_swap': "i < length xs \<Longrightarrow> j < length xs \<Longrightarrow> mset (swap xs i j) = mset xs"
  by (simp add: swap_def mset_swap)

lemma drop_swap: "i < n \<Longrightarrow> j < n \<Longrightarrow> drop n (swap xs i j) = drop n xs"
  by (simp add: swap_def)

text \<open>
  The first \<open>n\<close> elements are a heap for the priority \<open>f\<close>; they are one except that the element at \<open>i\<close> may
  be below its parent; or except that it may be out of order with its parent and its children.
\<close>

definition is_heap :: "('a \<Rightarrow> 'k::linorder) \<Rightarrow> 'a list \<Rightarrow> nat \<Rightarrow> bool" where
  "is_heap f xs n \<longleftrightarrow> (\<forall>x. 0 < x \<and> x < n \<longrightarrow> f (xs ! par x) \<le> f (xs ! x))"

definition heap_except_up :: "('a \<Rightarrow> 'k::linorder) \<Rightarrow> 'a list \<Rightarrow> nat \<Rightarrow> nat \<Rightarrow> bool" where
  "heap_except_up f xs n i \<longleftrightarrow>
     (\<forall>x. 0 < x \<and> x < n \<longrightarrow> (x \<noteq> i \<longrightarrow> f (xs ! par x) \<le> f (xs ! x)) \<and> (par x = i \<and> 0 < i \<longrightarrow> f (xs ! par i) \<le> f (xs ! x)))"

definition heap_except :: "('a \<Rightarrow> 'k::linorder) \<Rightarrow> 'a list \<Rightarrow> nat \<Rightarrow> nat \<Rightarrow> bool" where
  "heap_except f xs n i \<longleftrightarrow>
     (\<forall>x. 0 < x \<and> x < n \<longrightarrow>
        (x \<noteq> i \<and> par x \<noteq> i \<longrightarrow> f (xs ! par x) \<le> f (xs ! x)) \<and> (par x = i \<and> 0 < i \<longrightarrow> f (xs ! par i) \<le> f (xs ! x)))"

lemma heap_first: "is_heap f xs n \<Longrightarrow> x < n \<Longrightarrow> f (xs ! 0) \<le> f (xs ! x)"
proof (induction x rule: less_induct)
  case (less x)
  show ?case
  proof (cases "x = 0")
    case False
    then have "f (xs ! 0) \<le> f (xs ! par x)"
      using less par_less [of x] by simp
    also have "\<dots> \<le> f (xs ! x)"
      using less.prems False by (simp add: is_heap_def)
    finally show ?thesis .
  qed simp
qed

lemma except_up_root: "heap_except_up f xs n 0 \<longleftrightarrow> is_heap f xs n"
  by (auto simp: heap_except_up_def is_heap_def)

lemma except_up_heap:
  "heap_except_up f xs n i \<Longrightarrow> \<not> f (xs ! i) < f (xs ! par i) \<Longrightarrow> is_heap f xs n"
  by (auto simp: heap_except_up_def is_heap_def not_less)

lemma except_up_step:
  assumes "heap_except_up f xs n j" "j < n" "n \<le> length xs" "0 < j" "f (xs ! j) < f (xs ! par j)"
  shows "heap_except_up f (swap xs (par j) j) n (par j)"
proof -
  let ?i = "par j" and ?ys = "swap xs (par j) j"
  have i: "?i < j" "?i < length xs" "j < length xs"
    using par_less [OF assms(4)] assms(2,3) by simp_all
  have ok: "f (xs ! par x) \<le> f (xs ! x)" if "0 < x" "x < n" "x \<noteq> j" for x
    using assms(1) that by (simp add: heap_except_up_def)
  have gp: "f (xs ! ?i) \<le> f (xs ! x)" if "0 < x" "x < n" "par x = j" for x
    using assms(1,4) that by (simp add: heap_except_up_def)
  have "f (?ys ! par x) \<le> f (?ys ! x)" if "0 < x" "x < n" "x \<noteq> ?i" for x
    using ok [of x] gp [of x] assms(5) that i par_less [OF that(1)] by (auto simp: nth_swap)
  moreover have "f (?ys ! par ?i) \<le> f (?ys ! x)" if "0 < x" "x < n" "par x = ?i" "0 < ?i" for x
  proof -
    have "par ?i < ?i"
      using par_less that(4) by simp
    then have "f (?ys ! par ?i) = f (xs ! par ?i)"
      using i by (simp add: nth_swap)
    also have "\<dots> \<le> f (xs ! ?i)"
      using ok [of ?i] that(4) i assms(2) by simp
    also have "\<dots> \<le> f (?ys ! x)"
      using ok [of x] that i par_less [OF that(1)] by (auto simp: nth_swap)
    finally show ?thesis .
  qed
  ultimately show ?thesis
    by (simp add: heap_except_up_def)
qed

lemma except_up_done:
  assumes "heap_except f xs n i" "\<And>x. 0 < x \<Longrightarrow> x < n \<Longrightarrow> par x = i \<Longrightarrow> f (xs ! i) \<le> f (xs ! x)"
  shows "heap_except_up f xs n i"
  using assms by (auto simp: heap_except_def heap_except_up_def)

lemma except_down_step:
  assumes "heap_except f xs n i" "n \<le> length xs" "j < n" "par j = i" "0 < j" "f (xs ! j) < f (xs ! i)"
    and "\<And>x. 0 < x \<Longrightarrow> x < n \<Longrightarrow> par x = i \<Longrightarrow> f (xs ! j) \<le> f (xs ! x)"
  shows "heap_except f (swap xs i j) n j" "f (swap xs i j ! i) \<le> f (swap xs i j ! j)"
proof -
  let ?ys = "swap xs i j"
  have i: "i < j" "i < length xs" "j < length xs"
    using par_less [OF assms(5)] assms(2,3,4) by simp_all
  have ok: "f (xs ! par x) \<le> f (xs ! x)" if "0 < x" "x < n" "x \<noteq> i" "par x \<noteq> i" for x
    using assms(1) that by (simp add: heap_except_def)
  have gp: "f (xs ! par i) \<le> f (xs ! x)" if "0 < x" "x < n" "par x = i" "0 < i" for x
    using assms(1) that by (simp add: heap_except_def)
  have "f (?ys ! par x) \<le> f (?ys ! x)" if "0 < x" "x < n" "x \<noteq> j" "par x \<noteq> j" for x
  proof (cases "x = i")
    case True
    then show ?thesis
      using gp [of j] assms(3,4,5) that i par_less [OF that(1)] by (auto simp: nth_swap)
  next
    case False
    then show ?thesis
      using ok [of x] assms(7) [of x] that i by (auto simp: nth_swap)
  qed
  moreover have "f (?ys ! par j) \<le> f (?ys ! x)" if "0 < x" "x < n" "par x = j" for x
    using ok [of x] that i assms(4) par_less [OF that(1)] by (auto simp: nth_swap)
  ultimately show "heap_except f ?ys n j"
    by (simp add: heap_except_def)
  show "f (?ys ! i) \<le> f (?ys ! j)"
    using assms(6) i by (simp add: nth_swap)
qed

section \<open>The index of a heap\<close>

text \<open>
  The heap relies on its mapper to tell where a batch is in the list. What it needs of the mapper is
  that a put changes the lookup of the batch and nothing else.
\<close>

definition indexed :: "(BatchSequence \<times> bytes \<Rightarrow> nat option) \<Rightarrow> SimpleBatch list \<Rightarrow> bool" where
  "indexed look bs \<longleftrightarrow> (\<forall>k i. look k = Some i \<longleftrightarrow> i < length bs \<and> batch_key (bs ! i) = k)"

lemma indexed_distinct: "indexed look bs \<Longrightarrow> i < length bs \<Longrightarrow> j < length bs \<Longrightarrow> batch_key (bs ! i) = batch_key (bs ! j) \<Longrightarrow> i = j"
  unfolding indexed_def by (metis option.inject)

lemma indexed_swap:
  assumes "indexed look bs" "i < length bs" "j < length bs"
  shows "indexed (look(batch_key (bs ! j) \<mapsto> i, batch_key (bs ! i) \<mapsto> j)) (swap bs i j)"
  unfolding indexed_def
proof (intro allI)
  fix k x
  show "(look(batch_key (bs ! j) \<mapsto> i, batch_key (bs ! i) \<mapsto> j)) k = Some x \<longleftrightarrow>
      x < length (swap bs i j) \<and> batch_key (swap bs i j ! x) = k"
    using assms(1) [unfolded indexed_def, rule_format, of k x] assms(2,3) indexed_distinct [OF assms(1)]
    by (auto simp: nth_swap split: if_splits)
qed

lemma indexed_append:
  assumes "indexed look bs" "look (batch_key b) = None"
  shows "indexed (look(batch_key b \<mapsto> length bs)) (bs @ [b])"
  unfolding indexed_def
proof (intro allI)
  fix k x
  have "x < length bs \<Longrightarrow> batch_key (bs ! x) \<noteq> batch_key b"
    using assms(1) [unfolded indexed_def, rule_format, of "batch_key b" x] assms(2) by auto
  then show "(look(batch_key b \<mapsto> length bs)) k = Some x \<longleftrightarrow> x < length (bs @ [b]) \<and> batch_key ((bs @ [b]) ! x) = k"
    using assms(1) [unfolded indexed_def, rule_format, of k x] by (auto simp: nth_append less_Suc_eq)
qed

lemma indexed_butlast:
  assumes "indexed look bs" "bs \<noteq> []"
  shows "indexed (look(batch_key (last bs) := None)) (butlast bs)"
  unfolding indexed_def
proof (intro allI)
  fix k x
  show "(look(batch_key (last bs) := None)) k = Some x \<longleftrightarrow> x < length (butlast bs) \<and> batch_key (butlast bs ! x) = k"
    using assms(1) [unfolded indexed_def, rule_format, of k x] assms(2) indexed_distinct [OF assms(1), of x "length bs - 1"]
    by (cases "x = length bs - 1") (auto simp: nth_butlast last_conv_nth)
qed

locale index_map =
  fixes inv :: "'m \<Rightarrow> bool" and lookup :: "'m \<Rightarrow> BatchSequence \<times> bytes \<Rightarrow> nat option"
    and put :: "SimpleBatch \<Rightarrow> nat \<Rightarrow> 'm \<Rightarrow> fault + 'm" and good :: "SimpleBatch \<Rightarrow> bool"
  assumes put: "inv m \<Longrightarrow> good b \<Longrightarrow> \<exists>m'. put b i m = Inr m' \<and> inv m' \<and> lookup m' = (lookup m)(batch_key b \<mapsto> i)"
begin

lemma put_swapped:
  assumes "inv m" "indexed (lookup m) bs" "\<forall>b \<in> set bs. good b" "i < length bs" "j < length bs"
  shows "\<exists>m1 m2. put (bs ! j) i m = Inr m1 \<and> put (bs ! i) j m1 = Inr m2 \<and> inv m2 \<and> indexed (lookup m2) (swap bs i j)"
proof -
  have "good (bs ! i)" "good (bs ! j)"
    using assms(3-5) by simp_all
  then obtain m1 m2 where "put (bs ! j) i m = Inr m1" "lookup m1 = (lookup m)(batch_key (bs ! j) \<mapsto> i)"
      "put (bs ! i) j m1 = Inr m2" "inv m2" "lookup m2 = (lookup m1)(batch_key (bs ! i) \<mapsto> j)"
    using put [OF assms(1)] put by metis
  then show ?thesis
    using indexed_swap [OF assms(2,4,5)] by auto
qed

lemma put_appended:
  assumes "inv m" "indexed (lookup m) bs" "good b" "lookup m (batch_key b) = None"
  shows "\<exists>m'. put b (length bs) m = Inr m' \<and> inv m' \<and> indexed (lookup m') (bs @ [b])"
  using put [OF assms(1,3), of "length bs"] indexed_append [OF assms(2,4)] by auto

end

interpretation heap_index: index_map "mapper_inv p" mapper_lookup mapper_Put "in_partition p" for p
  by unfold_locales (rule mapper_Put_spec, assumption+, blast)

definition heap_indexed :: "ShardPrimary \<Rightarrow> 'v batchHeap \<Rightarrow> bool" where
  "heap_indexed p h \<longleftrightarrow>
     mapper_inv p (batchToIndex h) \<and> indexed (mapper_lookup (batchToIndex h)) (map hiBatch (hData h)) \<and>
     (\<forall>item \<in> set (hData h). in_partition p (hiBatch item))"

lemma heap_Swap_spec:
  assumes "heap_indexed p h" "i < length (hData h)" "j < length (hData h)"
  shows "\<exists>h'. heap_Swap i j h = Inr h' \<and> heap_indexed p h' \<and> hData h' = swap (hData h) i j \<and> hLess h' = hLess h"
proof -
  have h: "mapper_inv p (batchToIndex h)" "indexed (mapper_lookup (batchToIndex h)) (map hiBatch (hData h))"
      "\<forall>item \<in> set (hData h). in_partition p (hiBatch item)"
    using assms(1) by (simp_all add: heap_indexed_def)
  obtain m1 m2 where m: "mapper_Put (hiBatch (hData h ! j)) i (batchToIndex h) = Inr m1"
      "mapper_Put (hiBatch (hData h ! i)) j m1 = Inr m2" "mapper_inv p m2"
      "indexed (mapper_lookup m2) (swap (map hiBatch (hData h)) i j)"
    using heap_index.put_swapped [OF h(1,2), of i j] h(3) assms(2,3) by auto
  have "swap (map hiBatch (hData h)) i j = map hiBatch (swap (hData h) i j)"
    using assms(2,3) by (simp add: swap_def map_update)
  moreover have "set (swap (hData h) i j) = set (hData h)"
    using mset_swap' [OF assms(2,3)] by (rule mset_eq_setD)
  ultimately have "heap_indexed p (h\<lparr>hData := swap (hData h) i j, batchToIndex := m2\<rparr>)"
    using m(3,4) h(3) by (simp add: heap_indexed_def)
  moreover have "heap_Swap i j h = Inr (h\<lparr>hData := swap (hData h) i j, batchToIndex := m2\<rparr>)"
    using m(1,2) assms(2,3) nth_swap [OF assms(2,3)] unfolding heap_Swap_def swap_def [symmetric]
    by (simp add: index_def swap_def [symmetric])
  ultimately show ?thesis
    by simp
qed

lemma heap_Less_spec: "i < length (hData h) \<Longrightarrow> j < length (hData h) \<Longrightarrow> heap_Less i j h = Inr (hLess h (hData h ! i) (hData h ! j))"
  by (simp add: heap_Less_def index_def)

section \<open>The heap is a priority queue\<close>

lemma go_up_unfold:
  "go_up j h =
     (if par j = j then Inr h
      else res_bind (heap_Less j (par j) h) (\<lambda>lt. if \<not> lt then Inr h else res_bind (heap_Swap (par j) j h) (go_up (par j))))"
  unfolding par_def by (subst go_up.simps) (simp only: Let_def)

lemma go_up_spec:
  assumes "heap_indexed p h" "hLess h = (\<lambda>a b. f a < f b)" "heap_except_up f (hData h) n j" "j < n" "n \<le> length (hData h)"
  shows "\<exists>h'. go_up j h = Inr h' \<and> heap_indexed p h' \<and> hLess h' = hLess h \<and> is_heap f (hData h') n \<and>
    mset (hData h') = mset (hData h) \<and> drop n (hData h') = drop n (hData h)"
  using assms
proof (induction j arbitrary: h rule: less_induct)
  case (less j)
  have i: "par j < length (hData h)" "j < length (hData h)" "par j < n"
    using less.prems(4,5) by (auto simp: par_def)
  have lt: "heap_Less j (par j) h = Inr (f (hData h ! j) < f (hData h ! par j))"
    using heap_Less_spec [OF i(2,1)] less.prems(2) by simp
  show ?case
  proof (cases "par j = j \<or> \<not> f (hData h ! j) < f (hData h ! par j)")
    case True
    then have "go_up j h = Inr h"
      using lt by (subst go_up_unfold) auto
    moreover have "is_heap f (hData h) n"
      using True less.prems(3) except_up_heap [of f "hData h" n j] by auto
    ultimately show ?thesis
      using less.prems by auto
  next
    case False
    then have j: "0 < j"
      by (cases j) (simp_all add: par_def)
    obtain h1 where h1: "heap_Swap (par j) j h = Inr h1" "heap_indexed p h1" "hData h1 = swap (hData h) (par j) j" "hLess h1 = hLess h"
      using heap_Swap_spec [OF less.prems(1) i(1,2)] by blast
    have "heap_except_up f (hData h1) n (par j)"
      using except_up_step [OF less.prems(3,4,5) j] False h1(3) by simp
    then have "\<exists>h'. go_up (par j) h1 = Inr h' \<and> heap_indexed p h' \<and> hLess h' = hLess h1 \<and> is_heap f (hData h') n \<and>
        mset (hData h') = mset (hData h1) \<and> drop n (hData h') = drop n (hData h1)"
      using h1(2-4) less.prems(2,5) i(3) by (intro less.IH [OF par_less [OF j]]) simp_all
    moreover have "go_up j h = go_up (par j) h1"
      using lt h1(1) False by (subst go_up_unfold) simp
    ultimately show ?thesis
      using h1(3,4) mset_swap' [OF i(1,2)] drop_swap [OF i(3) less.prems(4), of "hData h"] by simp
  qed
qed

text \<open>The child that \<^verbatim>\<open>down\<close> compares with, none of whose siblings comes before it.\<close>

definition min_child :: "('a \<Rightarrow> 'k::linorder) \<Rightarrow> 'a list \<Rightarrow> nat \<Rightarrow> nat \<Rightarrow> nat" where
  "min_child f xs n i = (if 2 * i + 2 < n \<and> f (xs ! (2 * i + 2)) < f (xs ! (2 * i + 1)) then 2 * i + 2 else 2 * i + 1)"

lemma min_child_props:
  assumes "2 * i + 1 < n"
  shows "min_child f xs n i < n" "par (min_child f xs n i) = i" "0 < min_child f xs n i"
    and "0 < x \<Longrightarrow> x < n \<Longrightarrow> par x = i \<Longrightarrow> f (xs ! min_child f xs n i) \<le> f (xs ! x)"
  using assms par_child [of x i] by (auto simp: min_child_def par_def not_less)

lemma go_down_unfold:
  assumes "hLess h = (\<lambda>a b. f a < f b)" "n \<le> length (hData h)"
  shows "go_down i n h =
    (if n \<le> 2 * i + 1 then Inr (h, i)
     else let j = min_child f (hData h) n i in
       if \<not> f (hData h ! j) < f (hData h ! i) then Inr (h, i) else res_bind (heap_Swap i j h) (go_down j n))"
  using assms by (subst go_down.simps) (auto simp: Let_def heap_Less_spec min_child_def)

lemma go_down_spec:
  assumes "heap_indexed p h" "hLess h = (\<lambda>a b. f a < f b)" "heap_except f (hData h) n i" "i < n" "n \<le> length (hData h)"
  shows "\<exists>h' i'. go_down i n h = Inr (h', i') \<and> heap_indexed p h' \<and> hLess h' = hLess h \<and> i \<le> i' \<and>
    mset (hData h') = mset (hData h) \<and> drop n (hData h') = drop n (hData h) \<and>
    (if i' = i then h' = h \<and> heap_except_up f (hData h) n i else is_heap f (hData h') n)"
  using assms
proof (induction "n - i" arbitrary: i h rule: less_induct)
  case less
  define j where "j = min_child f (hData h) n i"
  note unfold = go_down_unfold [OF less.prems(2,5), of i, folded j_def]
  show ?case
  proof (cases "n \<le> 2 * i + 1 \<or> \<not> f (hData h ! j) < f (hData h ! i)")
    case True
    have "f (hData h ! i) \<le> f (hData h ! x)" if x: "0 < x" "x < n" "par x = i" for x
    proof -
      have "2 * i + 1 < n"
        using par_child [OF x(3,1)] x(2) by auto
      then have "f (hData h ! i) \<le> f (hData h ! j)" "f (hData h ! j) \<le> f (hData h ! x)"
        using True min_child_props(4) [OF _ x, of f "hData h", folded j_def] by auto
      then show ?thesis
        by (rule order_trans)
    qed
    then have "heap_except_up f (hData h) n i"
      by (rule except_up_done [OF less.prems(3)])
    moreover have "go_down i n h = Inr (h, i)"
      using True unfold by (auto simp: Let_def)
    ultimately show ?thesis
      using less.prems by auto
  next
    case False
    then have n: "2 * i + 1 < n"
      by simp
    note j = min_child_props(1-3) [OF n, of f "hData h", folded j_def]
    have len: "i < length (hData h)" "j < length (hData h)" "i < j"
      using j less.prems(4,5) par_less [OF j(3)] by simp_all
    obtain h1 where h1: "heap_Swap i j h = Inr h1" "heap_indexed p h1" "hData h1 = swap (hData h) i j" "hLess h1 = hLess h"
      using heap_Swap_spec [OF less.prems(1) len(1,2)] by blast
    have lt: "f (hData h ! j) < f (hData h ! i)"
      using False by simp
    have step: "heap_except f (swap (hData h) i j) n j" "f (swap (hData h) i j ! i) \<le> f (swap (hData h) i j ! j)"
      by (rule except_down_step [of f "hData h" n i j]; use less.prems(3,5) j lt min_child_props(4) [OF n, of _ f "hData h", folded j_def] in simp)+
    have ex: "heap_except f (hData h1) n j"
      using step(1) h1(3) by simp
    obtain h' i' where ih: "go_down j n h1 = Inr (h', i')" "heap_indexed p h'" "hLess h' = hLess h1" "j \<le> i'"
        "mset (hData h') = mset (hData h1)" "drop n (hData h') = drop n (hData h1)"
        "if i' = j then h' = h1 \<and> heap_except_up f (hData h1) n j else is_heap f (hData h') n"
      using less.hyps [of j h1, OF diff_less_mono2 [OF len(3) j(1) [THEN order_less_trans [OF len(3)]]] h1(2) _ ex j(1)]
        h1(3,4) less.prems(2,5) by simp metis
    have "is_heap f (hData h') n"
      using ih(7) except_up_heap [of f "hData h1" n j] step(2) h1(3) j(2) by (auto split: if_splits)
    moreover have "go_down i n h = Inr (h', i')"
      using False unfold h1(1) ih(1) by (simp add: Let_def)
    ultimately show ?thesis
      using ih h1(3,4) len mset_swap' [OF len(1,2)] drop_swap [OF less.prems(4) j(1), of "hData h"] by auto
  qed
qed

definition heap_inv :: "ShardPrimary \<Rightarrow> ('v BatchHeapItem \<Rightarrow> 'k::linorder) \<Rightarrow> 'v batchHeap \<Rightarrow> bool" where
  "heap_inv p f h \<longleftrightarrow> heap_indexed p h \<and> hLess h = (\<lambda>a b. f a < f b) \<and> is_heap f (hData h) (length (hData h))"

lemma heap_new: "heap_inv p f (newBatchHeap p (\<lambda>a b. f a < f b))"
  by (simp add: heap_inv_def newBatchHeap_def heap_indexed_def mapper_new indexed_def is_heap_def)

lemma heap_Pop_spec:
  assumes "heap_indexed p h" "hData h \<noteq> []"
  shows "\<exists>h'. heap_Pop h = Inr (h', last (hData h)) \<and> heap_indexed p h' \<and> hData h' = butlast (hData h) \<and> hLess h' = hLess h"
proof -
  let ?b = "hiBatch (last (hData h))"
  have h: "mapper_inv p (batchToIndex h)" "indexed (mapper_lookup (batchToIndex h)) (map hiBatch (hData h))" "in_partition p ?b"
      "\<forall>item \<in> set (butlast (hData h)). in_partition p (hiBatch item)"
    using assms last_in_set [OF assms(2)] by (auto simp: heap_indexed_def dest: in_set_butlastD)
  have "mapper_lookup (batchToIndex h) (batch_key ?b) = Some (length (hData h) - 1)"
    using h(2) [unfolded indexed_def, rule_format, of "batch_key ?b" "length (hData h) - 1"] assms(2) by (simp add: last_conv_nth)
  then obtain m where m: "mapper_Remove ?b (batchToIndex h) = Inr (m, length (hData h) - 1)" "mapper_inv p m"
      "mapper_lookup m = (mapper_lookup (batchToIndex h))(batch_key ?b := None)"
    using mapper_Remove_spec(2) [OF h(1,3)] by blast
  have "indexed (mapper_lookup m) (butlast (map hiBatch (hData h)))"
    using indexed_butlast [OF h(2)] assms(2) m(3) by (simp add: last_map)
  then have "heap_indexed p (h\<lparr>hData := butlast (hData h), batchToIndex := m\<rparr>)"
    using m(2) h(4) by (simp add: heap_indexed_def map_butlast)
  moreover have "heap_Pop h = Inr (h\<lparr>hData := butlast (hData h), batchToIndex := m\<rparr>, last (hData h))"
    using m(1) assms(2) by (simp add: heap_Pop_def drop_index_def Let_def)
  ultimately show ?thesis
    by auto
qed

text \<open>After the last element is in its place, all the others are a heap.\<close>

lemma heap_popped:
  assumes "heap_indexed p h" "hLess h = (\<lambda>a b. f a < f b)" "is_heap f (hData h) n" "length (hData h) = Suc n"
  shows "\<exists>h'. heap_Pop h = Inr (h', hData h ! n) \<and> heap_inv p f h' \<and> mset (hData h') = mset (hData h) - {#hData h ! n#}"
proof -
  have d: "hData h \<noteq> []"
    using assms(4) by auto
  have last: "last (hData h) = hData h ! n"
    using last_conv_nth [OF d] assms(4) by simp
  obtain h' where h': "heap_Pop h = Inr (h', last (hData h))" "heap_indexed p h'" "hData h' = butlast (hData h)" "hLess h' = hLess h"
    using heap_Pop_spec [OF assms(1) d] by blast
  have "is_heap f (butlast (hData h)) n"
    using assms(3,4) by (auto simp: is_heap_def nth_butlast less_trans [OF par_less])
  moreover have "mset (hData h) = add_mset (hData h ! n) (mset (butlast (hData h)))"
    using arg_cong [OF append_butlast_last_id [OF d], of mset] last by simp
  ultimately show ?thesis
    using h' assms(2,4) last by (simp add: heap_inv_def)
qed

lemma heap_swapped:
  assumes "is_heap f xs (length xs)" "length xs = Suc n" "i < n"
  shows "heap_except f (swap xs i n) n i"
proof -
  have nth: "swap xs i n ! x = xs ! x" if "x < n" "x \<noteq> i" for x
    using nth_swap [of i xs n x] assms(2,3) that by simp
  have ok: "f (xs ! par x) \<le> f (xs ! x)" if "0 < x" "x < n" for x
    using assms(1,2) that by (simp add: is_heap_def)
  have "f (swap xs i n ! par x) \<le> f (swap xs i n ! x)" if "0 < x" "x < n" "x \<noteq> i" "par x \<noteq> i" for x
    using ok [OF that(1,2)] nth that par_less [OF that(1)] by simp
  moreover have "f (swap xs i n ! par i) \<le> f (swap xs i n ! x)" if "0 < x" "x < n" "par x = i" "0 < i" for x
    using order_trans [OF ok [OF that(4) assms(3)], of "f (xs ! x)"] ok [OF that(1,2)] nth [of "par i"] nth [of x] that
      par_less [OF that(1)] par_less [OF that(4)] by simp
  ultimately show ?thesis
    by (simp add: heap_except_def)
qed

lemma heap_nth_drop: "drop n xs = drop n ys \<Longrightarrow> length xs = length ys \<Longrightarrow> n < length xs \<Longrightarrow> xs ! n = ys ! n"
  by (metis hd_drop_conv_nth)

lemma go_Pop_spec:
  assumes "heap_inv p f h" "hData h \<noteq> []"
  shows "\<exists>h'. go_Pop h = Inr (h', hData h ! 0) \<and> heap_inv p f h' \<and> mset (hData h') = mset (hData h) - {#hData h ! 0#}"
proof -
  let ?n = "length (hData h) - 1"
  have inv: "heap_indexed p h" "hLess h = (\<lambda>a b. f a < f b)" "is_heap f (hData h) (length (hData h))"
    using assms(1) by (simp_all add: heap_inv_def)
  have n: "0 < length (hData h)" "?n < length (hData h)" "length (hData h) = Suc ?n"
    using assms(2) by simp_all
  obtain h1 where h1: "heap_Swap 0 ?n h = Inr h1" "heap_indexed p h1" "hData h1 = swap (hData h) 0 ?n" "hLess h1 = hLess h"
    using heap_Swap_spec [OF inv(1) n(1,2)] by blast
  have last: "hData h1 ! ?n = hData h ! 0" "mset (hData h1) = mset (hData h)" "length (hData h1) = length (hData h)"
    using nth_swap [OF n(1,2), of ?n] mset_swap' [OF n(1,2)] h1(3) by auto
  have "\<exists>h2 i'. go_down 0 ?n h1 = Inr (h2, i') \<and> heap_indexed p h2 \<and> hLess h2 = hLess h1 \<and> is_heap f (hData h2) ?n \<and>
      mset (hData h2) = mset (hData h1) \<and> drop ?n (hData h2) = drop ?n (hData h1)"
  proof (cases "?n = 0")
    case True
    then have "go_down 0 ?n h1 = Inr (h1, 0)"
      by (subst go_down.simps) simp
    then show ?thesis
      using h1(2) True by (auto simp: is_heap_def)
  next
    case False
    then have ex: "heap_except f (hData h1) ?n 0"
      using heap_swapped [OF inv(3) n(3), of 0] h1(3) by simp
    obtain h2 i' where "go_down 0 ?n h1 = Inr (h2, i')" "heap_indexed p h2" "hLess h2 = hLess h1"
        "mset (hData h2) = mset (hData h1)" "drop ?n (hData h2) = drop ?n (hData h1)"
        "if i' = 0 then h2 = h1 \<and> heap_except_up f (hData h1) ?n 0 else is_heap f (hData h2) ?n"
      using go_down_spec [OF h1(2) _ ex] h1(4) inv(2) last(3) False by auto
    then show ?thesis
      by (auto simp: except_up_root split: if_splits)
  qed
  then obtain h2 i' where h2: "go_down 0 ?n h1 = Inr (h2, i')" "heap_indexed p h2" "hLess h2 = hLess h1" "is_heap f (hData h2) ?n"
      "mset (hData h2) = mset (hData h1)" "drop ?n (hData h2) = drop ?n (hData h1)"
    by blast
  have len: "length (hData h2) = Suc ?n"
    using mset_eq_length [OF h2(5)] last(3) n(3) by simp
  have nth: "hData h2 ! ?n = hData h ! 0"
    using heap_nth_drop [OF h2(6)] mset_eq_length [OF h2(5)] last(1,3) n(2) by simp
  obtain h' where "heap_Pop h2 = Inr (h', hData h2 ! ?n)" "heap_inv p f h'" "mset (hData h') = mset (hData h2) - {#hData h2 ! ?n#}"
    using heap_popped [OF h2(2) _ h2(4) len] h2(3) h1(4) inv(2) by auto
  then show ?thesis
    using h1(1) h2(1,5) last(2) nth by (simp add: go_Pop_def Let_def)
qed

lemma go_Remove_spec:
  assumes "heap_inv p f h" "i < length (hData h)"
  shows "\<exists>h'. go_Remove i h = Inr (h', hData h ! i) \<and> heap_inv p f h' \<and> mset (hData h') = mset (hData h) - {#hData h ! i#}"
proof -
  define n where "n = length (hData h) - 1"
  have inv: "heap_indexed p h" "hLess h = (\<lambda>a b. f a < f b)" "is_heap f (hData h) (length (hData h))"
    using assms(1) by (simp_all add: heap_inv_def)
  have n: "n < length (hData h)" "length (hData h) = Suc n"
    using assms(2) by (simp_all add: n_def)
  show ?thesis
  proof (cases "n = i")
    case True
    moreover have "is_heap f (hData h) n"
      using inv(3) n by (simp add: is_heap_def)
    ultimately show ?thesis
      using heap_popped [OF inv(1,2) _ n(2)] by (simp add: go_Remove_def n(2))
  next
    case False
    then have i: "i < n"
      using assms(2) n by simp
    obtain h1 where h1: "heap_Swap i n h = Inr h1" "heap_indexed p h1" "hData h1 = swap (hData h) i n" "hLess h1 = hLess h"
      using heap_Swap_spec [OF inv(1) assms(2) n(1)] by blast
    have last: "hData h1 ! n = hData h ! i" "mset (hData h1) = mset (hData h)" "length (hData h1) = Suc n"
      using nth_swap [OF assms(2) n(1), of n] mset_swap' [OF assms(2) n(1)] h1(3) n(2) by auto
    have ex: "heap_except f (hData h1) n i"
      using heap_swapped [OF inv(3) n(2) i] h1(3) by simp
    obtain h2 i' where h2: "go_down i n h1 = Inr (h2, i')" "heap_indexed p h2" "hLess h2 = hLess h1" "i \<le> i'"
        "mset (hData h2) = mset (hData h1)" "drop n (hData h2) = drop n (hData h1)"
        "if i' = i then h2 = h1 \<and> heap_except_up f (hData h1) n i else is_heap f (hData h2) n"
      using go_down_spec [OF h1(2) _ ex i] h1(4) inv(2) last(3) by auto
    obtain h3 where h3: "(if i' > i then Inr h2 else go_up i h2) = Inr h3" "heap_indexed p h3" "hLess h3 = hLess h1"
        "mset (hData h3) = mset (hData h1)" "drop n (hData h3) = drop n (hData h1)" "is_heap f (hData h3) n"
    proof (cases "i' = i")
      case True
      then show ?thesis
        using go_up_spec [OF h1(2) _ _ i, of f] h2(7) h1(4) inv(2) last(3) that by auto
    next
      case False
      then show ?thesis
        using h2 that by auto
    qed
    have len: "length (hData h3) = Suc n"
      using mset_eq_length [OF h3(4)] last(3) by simp
    have nth: "hData h3 ! n = hData h ! i"
      using heap_nth_drop [OF h3(5)] len last(1,3) by simp
    obtain h' where "heap_Pop h3 = Inr (h', hData h3 ! n)" "heap_inv p f h'" "mset (hData h') = mset (hData h3) - {#hData h3 ! n#}"
      using heap_popped [OF h3(2) _ h3(6) len] h3(3) h1(4) inv(2) by auto
    moreover have "go_Remove i h = res_bind (if i' > i then Inr h2 else go_up i h2) heap_Pop"
      using False h1(1) h2(1) by (simp add: go_Remove_def n(2) Let_def if_distrib [of "\<lambda>r. res_bind r heap_Pop"])
    ultimately show ?thesis
      using h3(1,4) last(2) nth by simp
  qed
qed

lemma go_Push_spec:
  assumes "heap_inv p f h" "in_partition p (hiBatch item)" "mapper_lookup (batchToIndex h) (batch_key (hiBatch item)) = None"
  shows "\<exists>h'. go_Push item h = Inr h' \<and> heap_inv p f h' \<and> mset (hData h') = add_mset item (mset (hData h))"
proof -
  let ?n = "length (hData h)"
  have inv: "heap_indexed p h" "hLess h = (\<lambda>a b. f a < f b)" "is_heap f (hData h) ?n"
    using assms(1) by (simp_all add: heap_inv_def)
  obtain m where m: "mapper_Put (hiBatch item) ?n (batchToIndex h) = Inr m" "mapper_inv p m"
      "indexed (mapper_lookup m) (map hiBatch (hData h) @ [hiBatch item])"
    using heap_index.put_appended [of p "batchToIndex h" "map hiBatch (hData h)" "hiBatch item"] inv(1) assms(2,3)
    by (auto simp: heap_indexed_def)
  let ?h = "h\<lparr>hData := hData h @ [item], batchToIndex := m\<rparr>"
  have h: "heap_indexed p ?h" "hLess ?h = (\<lambda>a b. f a < f b)"
    using m inv assms(2) by (simp_all add: heap_indexed_def)
  have "f ((hData h @ [item]) ! par x) \<le> f ((hData h @ [item]) ! x)" if "0 < x" "x < ?n" for x
    using inv(3) that par_less [OF that(1)] by (simp add: is_heap_def nth_append)
  then have "heap_except_up f (hData ?h) (Suc ?n) ?n"
    using par_less by (auto simp: heap_except_up_def less_Suc_eq) (metis less_asym)+
  then obtain h' where "go_up ?n ?h = Inr h'" "heap_indexed p h'" "hLess h' = hLess ?h" "is_heap f (hData h') (Suc ?n)"
      "mset (hData h') = mset (hData ?h)"
    using go_up_spec [OF h, of "Suc ?n" ?n] by auto
  then show ?thesis
    using m(1) mset_eq_length [of "hData h'" "hData ?h"] inv(2) by (simp add: go_Push_def heap_Push_def heap_inv_def)
qed

lemma heap_lookup:
  assumes "heap_inv p f h"
  shows "mapper_lookup (batchToIndex h) k = Some i \<longleftrightarrow> i < length (hData h) \<and> batch_key (hiBatch (hData h ! i)) = k"
  using assms unfolding heap_inv_def heap_indexed_def indexed_def by (metis length_map nth_map)

lemma heap_keys:
  assumes "heap_inv p f h"
  shows "mapper_lookup (batchToIndex h) k = None \<longleftrightarrow> k \<notin> batch_key ` hiBatch ` set (hData h)"
proof -
  have "k \<in> batch_key ` hiBatch ` set (hData h) \<longleftrightarrow> (\<exists>i < length (hData h). batch_key (hiBatch (hData h ! i)) = k)"
    unfolding set_conv_nth by blast
  then show ?thesis
    using heap_lookup [OF assms, of k] by (metis not_None_eq)
qed

lemma BatchHeap_Pop_spec:
  assumes "heap_inv p f h"
  shows "\<exists>h' r. BatchHeap_Pop h = Inr (h', r) \<and> heap_inv p f h' \<and>
    (case r of None \<Rightarrow> hData h = [] \<and> h' = h
     | Some item \<Rightarrow> item \<in># mset (hData h) \<and> (\<forall>other \<in># mset (hData h). f item \<le> f other) \<and>
         mset (hData h') = mset (hData h) - {#item#})"
proof (cases "hData h = []")
  case False
  have first: "f (hData h ! 0) \<le> f x" if "x \<in> set (hData h)" for x
    using that assms heap_first [of f "hData h"] by (auto simp: heap_inv_def in_set_conv_nth)
  show ?thesis
    using go_Pop_spec [OF assms False] False first nth_mem [of 0 "hData h"]
    by (auto simp: BatchHeap_Pop_def intro!: exI [of _ "Some (hData h ! 0)"])
qed (use assms in \<open>simp add: BatchHeap_Pop_def\<close>)

lemma BatchHeap_Push_spec:
  assumes "heap_inv p f h" "in_partition p (hiBatch item)"
  shows "if batch_key (hiBatch item) \<in> batch_key ` hiBatch ` set (hData h)
    then BatchHeap_Push item h = Inl (Err ErrBatchAlreadyExists)
    else \<exists>h'. BatchHeap_Push item h = Inr h' \<and> heap_inv p f h' \<and> mset (hData h') = add_mset item (mset (hData h))"
proof -
  have m: "mapper_inv p (batchToIndex h)"
    using assms(1) by (simp add: heap_inv_def heap_indexed_def)
  show ?thesis
    using mapper_Has_spec [OF m assms(2)] heap_keys [OF assms(1), of "batch_key (hiBatch item)"] go_Push_spec [OF assms]
    by (auto simp: BatchHeap_Push_def)
qed

lemma BatchHeap_Remove_spec:
  assumes "heap_inv p f h" "in_partition p b"
  shows "\<exists>h' r. BatchHeap_Remove b h = Inr (h', r) \<and> heap_inv p f h' \<and>
    (case r of
       Inl e \<Rightarrow> e = ErrBatchDoesNotExist \<and> h' = h \<and> batch_key b \<notin> batch_key ` hiBatch ` set (hData h)
     | Inr item \<Rightarrow> batch_key (hiBatch item) = batch_key b \<and> item \<in># mset (hData h) \<and> mset (hData h') = mset (hData h) - {#item#})"
proof -
  have m: "mapper_inv p (batchToIndex h)"
    using assms(1) by (simp add: heap_inv_def heap_indexed_def)
  show ?thesis
  proof (cases "mapper_lookup (batchToIndex h) (batch_key b)")
    case None
    then show ?thesis
      using mapper_Get_spec [OF m assms(2)] heap_keys [OF assms(1), of "batch_key b"] assms(1)
      by (auto simp: BatchHeap_Remove_def heap_Remove_def intro!: exI [of _ "Inl ErrBatchDoesNotExist"])
  next
    case (Some i)
    then have i: "i < length (hData h)" "batch_key (hiBatch (hData h ! i)) = batch_key b"
      using heap_lookup [OF assms(1)] by auto
    show ?thesis
      using mapper_Get_spec [OF m assms(2)] Some i go_Remove_spec [OF assms(1) i(1)]
      by (auto simp: BatchHeap_Remove_def heap_Remove_def intro!: exI [of _ "Inr (hData h ! i)"])
  qed
qed

text \<open>
  (C37) The heap of batches is a priority queue with removal. Its state stands for the multiset of its
  items. The operations keep the invariant, under which the list is a binary heap and the mapper tells
  the place of every batch. \<^verbatim>\<open>Pop\<close> takes out an item of the lowest priority, or nothing when there
  is none; \<^verbatim>\<open>Push\<close> adds an item, or fails exactly when one with the same id is there; \<^verbatim>\<open>Remove\<close> takes out the
  item with an id, or fails exactly when there is none. None of them panics on a batch of the partition.
\<close>

theorem batch_heap_refines_queue:
  assumes "heap_inv p f h" "in_partition p (hiBatch item)" "in_partition p b"
  shows "(\<exists>h' r. BatchHeap_Pop h = Inr (h', r) \<and> heap_inv p f h' \<and>
      (case r of None \<Rightarrow> hData h = [] \<and> h' = h
       | Some item \<Rightarrow> item \<in># mset (hData h) \<and> (\<forall>other \<in># mset (hData h). f item \<le> f other) \<and>
           mset (hData h') = mset (hData h) - {#item#})) \<and>
    (if batch_key (hiBatch item) \<in> batch_key ` hiBatch ` set (hData h)
     then BatchHeap_Push item h = Inl (Err ErrBatchAlreadyExists)
     else \<exists>h'. BatchHeap_Push item h = Inr h' \<and> heap_inv p f h' \<and> mset (hData h') = add_mset item (mset (hData h))) \<and>
    (\<exists>h' r. BatchHeap_Remove b h = Inr (h', r) \<and> heap_inv p f h' \<and>
      (case r of
         Inl e \<Rightarrow> e = ErrBatchDoesNotExist \<and> h' = h \<and> batch_key b \<notin> batch_key ` hiBatch ` set (hData h)
       | Inr item \<Rightarrow> batch_key (hiBatch item) = batch_key b \<and> item \<in># mset (hData h) \<and> mset (hData h') = mset (hData h) - {#item#}))"
  using BatchHeap_Pop_spec [OF assms(1)] BatchHeap_Push_spec [OF assms(1,2)] BatchHeap_Remove_spec [OF assms(1,3)]
  by blast

definition ex_partition :: ShardPrimary where
  "ex_partition = \<lparr>spShard = 1, spPrimary = 2\<rparr>"

definition ex_batch :: "BatchSequence \<Rightarrow> bytes list \<Rightarrow> SimpleBatch" where
  "ex_batch seq requests =
     \<lparr>Shard = 1, Primary = 2, Seq = seq, Digest = [ucast seq], Requests = requests, BatchConfigSequence = 0, BatchPrimarySignature = []\<rparr>"

definition ex_heap :: "nat batchHeap" where
  "ex_heap = newBatchHeap ex_partition (\<lambda>a b. Seq (hiBatch a) < Seq (hiBatch b))"

theorem batch_heap_refines_queue_witness:
  "\<exists>h1. BatchHeap_Push \<lparr>hiBatch = ex_batch 7 [[1]], hiValue = 0\<rparr> ex_heap = Inr h1 \<and>
     heap_inv ex_partition (\<lambda>item. Seq (hiBatch item)) h1 \<and> mset (hData h1) = {#\<lparr>hiBatch = ex_batch 7 [[1]], hiValue = 0\<rparr>#}"
proof -
  have h: "heap_inv ex_partition (\<lambda>item. Seq (hiBatch item)) ex_heap" "hData ex_heap = []"
    unfolding ex_heap_def by (rule heap_new) (simp add: newBatchHeap_def)
  have b: "in_partition ex_partition (ex_batch seq reqs)" for seq reqs
    by (simp add: in_partition_def ex_partition_def ex_batch_def)
  show ?thesis
    using batch_heap_refines_queue [OF h(1), of "\<lparr>hiBatch = ex_batch 7 [[1]], hiValue = 0\<rparr>" "ex_batch 3 []"] h(2) b by simp
qed

end
