(* ===== verification/Prefetch.thy ===== *)
theory Prefetch
  imports BatchIndex
begin

text \<open>
  The prefetch index of an assembler (\<^verbatim>\<open>src/node/assembler/partition_prefetch_index.go\<close>, \<^verbatim>\<open>prefetch_index.go\<close>). For each
  partition, one caller asks for the batches that consensus ordered, another puts in the batches that
  it streams from a batcher, in order, and a third one puts in single batches that were asked for. The index pairs
  them. It keeps the streamed batches within a size, and each of them under a timer.

  The operations hold one lock, which a caller that waits gives up: an operation is split at its waits.
\<close>

section \<open>The index of a partition\<close>

text \<open>
  A timer of the factory is a number; \<open>running\<close> has the timers that may still fire, with the batches they expire.
  The condition variable is the number of its broadcasts: a caller that waits is woken by those that come after.
\<close>

record PartitionPrefetchIndex =
  piPartition :: ShardPrimary
  lastPutSeqRequest :: BatchSequence
  lastPutSeq :: BatchSequence
  maxPoppedCallSeq :: BatchSequence
  piCache :: BatchCache
  forcedPutCache :: BatchCache
  sequenceHeap :: "nat batchHeap"
  stateCond :: nat
  maxSizeBytes :: int
  cancelled :: bool
  nextTimer :: nat
  running :: "(nat \<times> SimpleBatch) list"

definition NewPartitionPrefetchIndex :: "ShardPrimary \<Rightarrow> int \<Rightarrow> PartitionPrefetchIndex" where
  "NewPartitionPrefetchIndex part maxSize =
     \<lparr>piPartition = part, lastPutSeqRequest = 0, lastPutSeq = 0, maxPoppedCallSeq = 0,
      piCache = NewBatchCache part, forcedPutCache = NewBatchCache part,
      sequenceHeap = newBatchHeap part (\<lambda>item1 item2. Seq (hiBatch item1) < Seq (hiBatch item2)),
      stateCond = 0, maxSizeBytes = maxSize, cancelled = False, nextTimer = 0, running = []\<rparr>"

definition assertBatchPartition :: "'a BatchID_scheme \<Rightarrow> PartitionPrefetchIndex \<Rightarrow> fault + unit" where
  "assertBatchPartition batchId pi =
     (if ShardPrimaryFromBatch batchId \<noteq> piPartition pi
      then Inl (Panicked ''batch partition does not match the partition of the store'') else Inr ())"

definition stop_timer :: "nat \<Rightarrow> PartitionPrefetchIndex \<Rightarrow> PartitionPrefetchIndex" where
  "stop_timer t pi = pi\<lparr>running := filter (\<lambda>(t', _). t' \<noteq> t) (running pi)\<rparr>"

definition broadcast :: "PartitionPrefetchIndex \<Rightarrow> PartitionPrefetchIndex" where
  "broadcast pi = pi\<lparr>stateCond := stateCond pi + 1\<rparr>"

definition ErrOperationCancelled :: error where
  "ErrOperationCancelled = ErrNew ''operation cancelled''"

text \<open>An error can come after a change of the index, so the result has both.\<close>

definition removeUnsafe ::
  "'a BatchID_scheme \<Rightarrow> PartitionPrefetchIndex \<Rightarrow> fault + PartitionPrefetchIndex \<times> (error + SimpleBatch)" where
  "removeUnsafe batchId pi =
     (case cache_Pop batchId (piCache pi) of
        Inl (Fault f) \<Rightarrow> Inl f
      | Inl (Err e) \<Rightarrow>
          if errors_Is e ErrBatchDoesNotExist then
            (case cache_Pop batchId (forcedPutCache pi) of
               Inl (Fault f) \<Rightarrow> Inl f
             | Inl (Err e') \<Rightarrow> Inr (pi, Inl (ErrWrap e' ''failed to remove batch from cache''))
             | Inr (c, batch) \<Rightarrow> Inr (broadcast (pi\<lparr>forcedPutCache := c\<rparr>), Inr batch))
          else Inr (pi, Inl (ErrWrap e ''failed to remove batch from cache''))
      | Inr (c, batch) \<Rightarrow>
          res_bind (BatchHeap_Remove batchId (sequenceHeap pi)) (\<lambda>(h, r).
            let pi1 = pi\<lparr>piCache := c, sequenceHeap := h\<rparr> in
            case r of
              Inl e \<Rightarrow> Inr (pi1, Inl (ErrWrap e ''failed to remove batch from heap''))
            | Inr batchAndTimer \<Rightarrow> Inr (broadcast (stop_timer (hiValue batchAndTimer) pi1), Inr batch)))"

section \<open>Asking for a batch\<close>

definition PopOrWait_enter :: "BatchID \<Rightarrow> PartitionPrefetchIndex \<Rightarrow> fault + PartitionPrefetchIndex" where
  "PopOrWait_enter batchId pi =
     res_bind (assertBatchPartition batchId pi) (\<lambda>_.
       Inr (if maxPoppedCallSeq pi < Seq batchId then broadcast (pi\<lparr>maxPoppedCallSeq := Seq batchId\<rparr>) else pi))"

text \<open>
  One turn of the loop, given whether the batch was requested before. Before a wait, the turn may request
  the batch; if it still is not requested, a monitor is started that will.
\<close>

datatype pop_turn = PopReturns "error + SimpleBatch" | PopWaits bool bool

definition PopOrWait_turn ::
  "BatchID \<Rightarrow> bool \<Rightarrow> PartitionPrefetchIndex \<Rightarrow> fault + PartitionPrefetchIndex \<times> pop_turn" where
  "PopOrWait_turn batchId wasBatchRequested pi =
     (if cancelled pi then Inr (pi, PopReturns (Inl ErrOperationCancelled))
      else
        res_bind (removeUnsafe batchId pi) (\<lambda>(pi1, r).
          case r of
            Inr batch \<Rightarrow> Inr (pi1, PopReturns (Inr batch))
          | Inl err \<Rightarrow>
              if \<not> errors_Is err ErrBatchDoesNotExist
              then Inl (Panicked ''unexpected error occured while poping batch'')
              else
                (let doubleDigest = (Seq batchId < lastPutSeqRequest pi1 \<or> Seq batchId = lastPutSeq pi1);
                     request = (\<not> wasBatchRequested \<and> doubleDigest)
                 in Inr (pi1, PopWaits request (wasBatchRequested \<or> request)))))"

section \<open>Putting in a batch\<close>

definition saveOrdinaryBatch :: "SimpleBatch \<Rightarrow> PartitionPrefetchIndex \<Rightarrow> fault + PartitionPrefetchIndex \<times> error option" where
  "saveOrdinaryBatch batch pi =
     (case cache_Put batch (piCache pi) of
        Inl (Fault f) \<Rightarrow> Inl f
      | Inl (Err e) \<Rightarrow> Inr (pi, Some e)
      | Inr c \<Rightarrow>
          let timer = nextTimer pi;
              pi1 = pi\<lparr>piCache := c, nextTimer := nextTimer pi + 1, running := (timer, batch) # running pi\<rparr>
          in (case BatchHeap_Push \<lparr>hiBatch = batch, hiValue = timer\<rparr> (sequenceHeap pi1) of
                Inl (Fault f) \<Rightarrow> Inl f
              | Inl (Err e) \<Rightarrow>
                  (let pi2 = stop_timer timer pi1; err = Some (ErrWrap e ''failed to push batch to the sequence heap'') in
                   case cache_Pop batch (piCache pi2) of
                     Inl (Fault f) \<Rightarrow> Inl f
                   | Inl (Err e') \<Rightarrow> Inr (pi2, err)
                   | Inr (c', _) \<Rightarrow> Inr (pi2\<lparr>piCache := c'\<rparr>, err))
              | Inr h \<Rightarrow> Inr (broadcast (pi1\<lparr>sequenceHeap := h, lastPutSeq := Seq batch\<rparr>), None)))"

definition evictOldestBatch :: "PartitionPrefetchIndex \<Rightarrow> fault + PartitionPrefetchIndex \<times> error option" where
  "evictOldestBatch pi =
     res_bind (BatchHeap_Pop (sequenceHeap pi)) (\<lambda>(h, r).
       case r of
         None \<Rightarrow> Inr (pi\<lparr>sequenceHeap := h\<rparr>, Some (ErrNew ''there is nothing to evict, the sequence heap is empty''))
       | Some batchAndTimer \<Rightarrow>
           let pi1 = stop_timer (hiValue batchAndTimer) (pi\<lparr>sequenceHeap := h\<rparr>) in
           (case cache_Pop (hiBatch batchAndTimer) (piCache pi1) of
              Inl (Fault f) \<Rightarrow> Inl f
            | Inl (Err e) \<Rightarrow> Inr (pi1, Some e)
            | Inr (c, _) \<Rightarrow> Inr (broadcast (pi1\<lparr>piCache := c\<rparr>), None)))"

datatype put_turn = PutReturns "error option" | PutWaits

lemma heap_Swap_length: "heap_Swap i j h = Inr h' \<Longrightarrow> length (hData h') = length (hData h)"
  by (auto simp: heap_Swap_def Let_def res_bind_Inr_iff)

lemma go_down_length: "go_down i n h = Inr (h', i') \<Longrightarrow> length (hData h') = length (hData h)"
proof (induction i n h arbitrary: h' i' rule: go_down.induct)
  case (1 i n h)
  show ?case
    using "1.prems" unfolding go_down.simps [of i n h]
    by (auto simp: Let_def res_bind_Inr_iff heap_Swap_length split: if_splits dest!: "1.IH" [rotated -1])
qed

lemma BatchHeap_Pop_length: "BatchHeap_Pop h = Inr (h', Some item) \<Longrightarrow> length (hData h') < length (hData h)"
  by (auto simp: BatchHeap_Pop_def go_Pop_def heap_Pop_def drop_index_def Let_def res_bind_Inr_iff
      dest!: heap_Swap_length go_down_length split: if_splits sum.splits failure.splits)

lemma evict_length:
  assumes "evictOldestBatch pi = Inr (pi', None)"
  shows "length (hData (sequenceHeap pi')) < length (hData (sequenceHeap pi))"
proof -
  obtain h r where r: "BatchHeap_Pop (sequenceHeap pi) = Inr (h, r)"
    using assms by (cases "BatchHeap_Pop (sequenceHeap pi)") (auto simp: evictOldestBatch_def)
  show ?thesis
  proof (cases r)
    case (Some item)
    then have "sequenceHeap pi' = h"
      using assms r by (auto simp: evictOldestBatch_def Let_def stop_timer_def broadcast_def split: sum.splits failure.splits)
    then show ?thesis
      using r Some BatchHeap_Pop_length by blast
  qed (use assms r in \<open>simp add: evictOldestBatch_def\<close>)
qed

function (sequential) Put_loop :: "SimpleBatch \<Rightarrow> PartitionPrefetchIndex \<Rightarrow> fault + PartitionPrefetchIndex \<times> put_turn" where
  "Put_loop batch pi =
     (if bcSizeBytes (piCache pi) + batchSizeBytes batch > maxSizeBytes pi then
        if cancelled pi then Inr (pi, PutReturns (Some ErrOperationCancelled))
        else if maxPoppedCallSeq pi < Seq batch then Inr (pi, PutWaits)
        else
          (case evictOldestBatch pi of
             Inl f \<Rightarrow> Inl f
           | Inr (pi1, Some e) \<Rightarrow> Inr (pi1, PutReturns (Some (ErrWrap e ''failed to evict batch'')))
           | Inr (pi1, None) \<Rightarrow> Put_loop batch pi1)
      else res_bind (saveOrdinaryBatch batch pi) (\<lambda>(pi1, err). Inr (pi1, PutReturns err)))"
  by pat_completeness auto
termination
  by (relation "measure (\<lambda>(b, pi). length (hData (sequenceHeap pi)))") (auto simp: evict_length)

declare Put_loop.simps [simp del]

definition Put :: "SimpleBatch \<Rightarrow> PartitionPrefetchIndex \<Rightarrow> fault + PartitionPrefetchIndex \<times> put_turn" where
  "Put batch pi =
     res_bind (assertBatchPartition batch pi) (\<lambda>_.
       if batchSizeBytes batch > maxSizeBytes pi then Inr (pi, PutReturns (Some ErrBatchTooLarge))
       else
         res_bind (cache_Has batch (piCache pi)) (\<lambda>has.
           if has then Inr (pi, PutReturns (Some ErrBatchAlreadyExists))
           else Put_loop batch (pi\<lparr>lastPutSeqRequest := Seq batch\<rparr>)))"

definition PutForce :: "SimpleBatch \<Rightarrow> PartitionPrefetchIndex \<Rightarrow> fault + PartitionPrefetchIndex \<times> error option" where
  "PutForce batch pi =
     res_bind (assertBatchPartition batch pi) (\<lambda>_.
       if batchSizeBytes batch > maxSizeBytes pi then Inr (pi, Some ErrBatchTooLarge)
       else
         (case cache_Put batch (forcedPutCache pi) of
            Inl (Fault f) \<Rightarrow> Inl f
          | Inl (Err e) \<Rightarrow> Inr (pi, Some e)
          | Inr c \<Rightarrow> Inr (broadcast (pi\<lparr>forcedPutCache := c\<rparr>), None)))"

section \<open>Expiry and stop\<close>

text \<open>A timer that has fired no longer runs; its handler logs an error.\<close>

definition ttl_handler :: "nat \<times> SimpleBatch \<Rightarrow> PartitionPrefetchIndex \<Rightarrow> fault + PartitionPrefetchIndex" where
  "ttl_handler tb pi = res_bind (removeUnsafe (snd tb) (stop_timer (fst tb) pi)) (\<lambda>(pi1, _). Inr pi1)"

function (sequential) stop_timers :: "PartitionPrefetchIndex \<Rightarrow> fault + PartitionPrefetchIndex" where
  "stop_timers pi =
     (case BatchHeap_Pop (sequenceHeap pi) of
        Inl f \<Rightarrow> Inl f
      | Inr (h, None) \<Rightarrow> Inr (pi\<lparr>sequenceHeap := h\<rparr>)
      | Inr (h, Some batchAndTimer) \<Rightarrow> stop_timers (stop_timer (hiValue batchAndTimer) (pi\<lparr>sequenceHeap := h\<rparr>)))"
  by pat_completeness auto
termination
  by (relation "measure (\<lambda>pi. length (hData (sequenceHeap pi)))") (auto simp: stop_timer_def BatchHeap_Pop_length)

declare stop_timers.simps [simp del]

text \<open>The context is cancelled before \<open>Stop\<close> takes the lock, so the cancellation and the rest are two steps.\<close>

definition Stop_cancel :: "PartitionPrefetchIndex \<Rightarrow> PartitionPrefetchIndex" where
  "Stop_cancel pi = pi\<lparr>cancelled := True\<rparr>"

definition Stop_locked :: "PartitionPrefetchIndex \<Rightarrow> fault + PartitionPrefetchIndex" where
  "Stop_locked pi = stop_timers (broadcast pi)"

section \<open>The invariant of an index\<close>

text \<open>
  The heap has the streamed batches that are cached, all of them until the index is stopped, each with its
  running timer; they fit the size of the index.
\<close>

abbreviation heap_items :: "PartitionPrefetchIndex \<Rightarrow> nat BatchHeapItem multiset" where
  "heap_items pi \<equiv> mset (hData (sequenceHeap pi))"

abbreviation by_seq :: "nat BatchHeapItem \<Rightarrow> BatchSequence" where
  "by_seq item \<equiv> Seq (hiBatch item)"

definition timers_of :: "nat BatchHeapItem multiset \<Rightarrow> (nat \<times> SimpleBatch) multiset" where
  "timers_of items = image_mset (\<lambda>item. (hiValue item, hiBatch item)) items"

definition index_inv :: "ShardPrimary \<Rightarrow> PartitionPrefetchIndex \<Rightarrow> bool" where
  "index_inv p pi \<longleftrightarrow>
     piPartition pi = p \<and> cache_inv p (piCache pi) \<and> cache_inv p (forcedPutCache pi) \<and>
     heap_inv p by_seq (sequenceHeap pi) \<and>
     (\<forall>item \<in># heap_items pi. cache_lookup (piCache pi) (batch_key (hiBatch item)) = Some (hiBatch item)) \<and>
     (\<not> cancelled pi \<longrightarrow> dom (cache_lookup (piCache pi)) \<subseteq> (batch_key \<circ> hiBatch) ` set_mset (heap_items pi)) \<and>
     bcSizeBytes (piCache pi) \<le> maxSizeBytes pi \<and>
     mset (running pi) = timers_of (heap_items pi) \<and> distinct (map fst (running pi)) \<and> (\<forall>t \<in> fst ` set (running pi). t < nextTimer pi)"

definition stored :: "PartitionPrefetchIndex \<Rightarrow> SimpleBatch set" where
  "stored pi = ran (cache_lookup (piCache pi)) \<union> ran (cache_lookup (forcedPutCache pi))"

text \<open>What a removal or an eviction leaves alone.\<close>

definition index_frame :: "PartitionPrefetchIndex \<Rightarrow> PartitionPrefetchIndex \<Rightarrow> bool" where
  "index_frame pi pi' \<longleftrightarrow>
     lastPutSeqRequest pi' = lastPutSeqRequest pi \<and> lastPutSeq pi' = lastPutSeq pi \<and>
     maxPoppedCallSeq pi' = maxPoppedCallSeq pi \<and> maxSizeBytes pi' = maxSizeBytes pi \<and> cancelled pi' = cancelled pi \<and>
     stored pi' \<subseteq> stored pi"

lemma broadcast_simps [simp]:
  "index_inv p (broadcast pi) = index_inv p pi" "stored (broadcast pi) = stored pi" "running (broadcast pi) = running pi"
  "nextTimer (broadcast pi) = nextTimer pi" "stateCond (broadcast pi) = Suc (stateCond pi)" "cancelled (broadcast pi) = cancelled pi"
  "piCache (broadcast pi) = piCache pi" "forcedPutCache (broadcast pi) = forcedPutCache pi" "sequenceHeap (broadcast pi) = sequenceHeap pi"
  "maxPoppedCallSeq (broadcast pi) = maxPoppedCallSeq pi" "maxSizeBytes (broadcast pi) = maxSizeBytes pi"
  "lastPutSeq (broadcast pi) = lastPutSeq pi" "lastPutSeqRequest (broadcast pi) = lastPutSeqRequest pi"
  by (simp_all add: broadcast_def index_inv_def stored_def)

lemma broadcast_frame [simp]: "index_frame pi (broadcast pi') = index_frame pi pi'" "index_frame (broadcast pi) pi' = index_frame pi pi'"
  by (simp_all add: index_frame_def)

lemma index_new: "0 \<le> maxSize \<Longrightarrow> index_inv p (NewPartitionPrefetchIndex p maxSize)" "stored (NewPartitionPrefetchIndex p maxSize) = {}"
  by (simp_all add: index_inv_def NewPartitionPrefetchIndex_def cache_new heap_new timers_of_def stored_def ran_def dom_def)
    (simp add: newBatchHeap_def)

lemma heap_distinct:
  assumes "heap_inv p f h"
  shows "distinct (map (batch_key \<circ> hiBatch) (hData h))"
  unfolding distinct_conv_nth
proof (intro allI impI)
  fix i j
  assume ij: "i < length (map (batch_key \<circ> hiBatch) (hData h))" "j < length (map (batch_key \<circ> hiBatch) (hData h))" "i \<noteq> j"
  have "indexed (mapper_lookup (batchToIndex h)) (map hiBatch (hData h))"
    using assms by (simp add: heap_inv_def heap_indexed_def)
  from indexed_distinct [OF this, of i j] ij
  show "map (batch_key \<circ> hiBatch) (hData h) ! i \<noteq> map (batch_key \<circ> hiBatch) (hData h) ! j"
    by auto
qed

lemma heap_item_unique:
  assumes "heap_inv p f h" "item \<in># mset (hData h)"
  shows "batch_key (hiBatch item) \<notin> (batch_key \<circ> hiBatch) ` set_mset (mset (hData h) - {#item#})"
proof -
  obtain xs ys where d: "hData h = xs @ item # ys"
    using assms(2) by (auto simp: in_set_conv_decomp)
  show ?thesis
    using heap_distinct [OF assms(1)] by (auto simp: d)
qed

lemma stop_timer_running:
  assumes "distinct (map fst ts)" "(t, b) \<in> set ts"
  shows "mset (filter (\<lambda>(t', _). t' \<noteq> t) ts) = mset ts - {#(t, b)#}"
  using assms
proof (induction ts)
  case (Cons x ts)
  show ?case
  proof (cases "x = (t, b)")
    case True
    then have "filter (\<lambda>(t', _). t' \<noteq> t) ts = ts"
      using Cons.prems(1) by (intro filter_True) force
    then show ?thesis
      using True by simp
  next
    case False
    moreover from this have "(t, b) \<in> set ts"
      using Cons.prems(2) by simp
    moreover have "fst x \<noteq> t"
      using Cons.prems(1) imageI [OF calculation(2), of fst] by auto
    ultimately show ?thesis
      using Cons.IH Cons.prems(1) by (auto simp: case_prod_unfold)
  qed
qed simp

text \<open>Taking an item out of the heap, its batch out of the cache, and stopping its timer, in whatever order.\<close>

lemma index_remove:
  assumes inv: "index_inv p pi" and item: "item \<in># heap_items pi"
    and h: "heap_inv p by_seq h" "mset (hData h) = heap_items pi - {#item#}"
    and c: "cache_inv p c" "cache_lookup c = (cache_lookup (piCache pi))(batch_key (hiBatch item) := None)"
      "bcSizeBytes c = bcSizeBytes (piCache pi) - batchSizeBytes (hiBatch item)"
  shows "index_inv p (stop_timer (hiValue item) (pi\<lparr>piCache := c, sequenceHeap := h\<rparr>))" (is "index_inv p ?pi")
    and "index_frame pi (stop_timer (hiValue item) (pi\<lparr>piCache := c, sequenceHeap := h\<rparr>))"
proof -
  note old = inv [unfolded index_inv_def]
  have uniq: "batch_key (hiBatch item) \<notin> (batch_key \<circ> hiBatch) ` set_mset (mset (hData h))"
    using heap_item_unique [of p by_seq "sequenceHeap pi" item] old item h(2) by simp
  have sub: "item' \<in># heap_items pi \<longleftrightarrow> item' = item \<or> item' \<in># mset (hData h)" for item'
    using item h(2) by (metis add_mset_add_single insert_DiffM union_iff add_mset_remove_trivial_eq set_mset_add_mset_insert insert_iff)
  have run: "(hiValue item, hiBatch item) \<in> set (running pi)"
    using old item by (metis (no_types, lifting) image_mset_add_mset insert_DiffM set_mset_mset timers_of_def union_single_eq_member)
  have "mset (running ?pi) = timers_of (heap_items ?pi)"
    using stop_timer_running [OF _ run] old item h(2) by (simp add: stop_timer_def timers_of_def image_mset_Diff)
  moreover have "distinct (map fst (running ?pi))"
    using old by (auto simp: stop_timer_def distinct_map_filter)
  moreover have "\<forall>item' \<in># heap_items ?pi. cache_lookup (piCache ?pi) (batch_key (hiBatch item')) = Some (hiBatch item')"
    using old sub uniq c(2) by (auto simp: stop_timer_def image_iff)
  moreover have "\<not> cancelled ?pi \<longrightarrow> dom (cache_lookup (piCache ?pi)) \<subseteq> (batch_key \<circ> hiBatch) ` set_mset (heap_items ?pi)"
  proof -
    have "set_mset (heap_items pi) = insert item (set_mset (mset (hData h)))"
      using sub by blast
    then show ?thesis
      using old c(2) by (auto simp: stop_timer_def)
  qed
  ultimately show "index_inv p ?pi"
    using old h(1) c batch_size_nonneg [of "hiBatch item"] by (auto simp: index_inv_def stop_timer_def)
  show "index_frame pi ?pi"
    using c(2) by (auto simp: index_frame_def stored_def stop_timer_def ran_def)
qed

subsection \<open>Removal, eviction and expiry\<close>

lemma errors_Is_wrap: "errors_Is (ErrWrap e m) e" "errors_Is e e"
  by (cases e; simp)+

definition found :: "PartitionPrefetchIndex \<Rightarrow> BatchSequence \<times> bytes \<Rightarrow> SimpleBatch option" where
  "found pi k = (case cache_lookup (piCache pi) k of None \<Rightarrow> cache_lookup (forcedPutCache pi) k | Some b \<Rightarrow> Some b)"

lemma cache_lookup_key: "cache_inv p c \<Longrightarrow> cache_lookup c k = Some b \<Longrightarrow> batch_key b = k \<and> in_partition p b"
  unfolding cache_inv_def by blast

lemma running_items: "index_inv p pi \<Longrightarrow> set (running pi) = (\<lambda>item. (hiValue item, hiBatch item)) ` set (hData (sequenceHeap pi))"
  by (metis (no_types, lifting) index_inv_def set_image_mset set_mset_mset timers_of_def)

lemma index_drop:
  assumes inv: "index_inv p pi" and k: "k \<notin> batch_key ` hiBatch ` set (hData (sequenceHeap pi))" "cache_lookup (piCache pi) k \<noteq> None"
    and c: "cache_inv p c" "cache_lookup c = (cache_lookup (piCache pi))(k := None)" "bcSizeBytes c \<le> bcSizeBytes (piCache pi)"
  shows "cancelled pi" "index_inv p (pi\<lparr>piCache := c\<rparr>)" "index_frame pi (pi\<lparr>piCache := c\<rparr>)"
proof -
  have "k \<in> dom (cache_lookup (piCache pi))"
    using k(2) by blast
  moreover have "\<not> cancelled pi \<longrightarrow> dom (cache_lookup (piCache pi)) \<subseteq> (batch_key \<circ> hiBatch) ` set_mset (heap_items pi)"
    using inv by (simp add: index_inv_def)
  ultimately show *: "cancelled pi"
    using k(1) by (auto simp: image_image)
  have "cache_lookup c (batch_key (hiBatch item)) = Some (hiBatch item)" if "item \<in># heap_items pi" for item
  proof -
    have "cache_lookup (piCache pi) (batch_key (hiBatch item)) = Some (hiBatch item)"
      using inv that by (simp add: index_inv_def)
    then show ?thesis
      using that k(1) c(2) by auto
  qed
  then show "index_inv p (pi\<lparr>piCache := c\<rparr>)"
    using inv * c(1,3) by (simp add: index_inv_def)
  show "index_frame pi (pi\<lparr>piCache := c\<rparr>)"
    using c(2) by (auto simp: index_frame_def stored_def ran_def)
qed

lemma index_item: "index_inv p pi \<Longrightarrow> item \<in># heap_items pi \<Longrightarrow> cache_lookup (piCache pi) (batch_key (hiBatch item)) = Some (hiBatch item)"
  by (simp add: index_inv_def)

lemma index_parts:
  assumes "index_inv p pi"
  shows "cache_inv p (piCache pi)" "cache_inv p (forcedPutCache pi)" "heap_inv p by_seq (sequenceHeap pi)"
  using assms by (simp_all add: index_inv_def)

text \<open>Without a broadcast, nothing that a caller may wait for has changed, unless the index is cancelled.\<close>

definition settled :: "PartitionPrefetchIndex \<Rightarrow> PartitionPrefetchIndex \<Rightarrow> bool" where
  "settled pi pi' \<longleftrightarrow>
     stateCond pi \<le> stateCond pi' \<and> maxSizeBytes pi' = maxSizeBytes pi \<and> cancelled pi' = cancelled pi \<and>
     (stateCond pi' = stateCond pi \<and> \<not> cancelled pi \<longrightarrow>
        piCache pi' = piCache pi \<and> forcedPutCache pi' = forcedPutCache pi \<and> maxPoppedCallSeq pi' = maxPoppedCallSeq pi)"

lemma settled_refl: "settled pi pi"
  by (simp add: settled_def)

lemma settled_trans: "settled pi pi' \<Longrightarrow> settled pi' pi'' \<Longrightarrow> settled pi pi''"
  by (auto simp: settled_def)

definition removal :: "ShardPrimary \<Rightarrow> 'a BatchID_scheme \<Rightarrow> PartitionPrefetchIndex \<Rightarrow> PartitionPrefetchIndex \<times> (error + SimpleBatch) \<Rightarrow> bool" where
  "removal p i pi = (\<lambda>(pi', r).
     index_inv p pi' \<and> index_frame pi pi' \<and> settled pi pi' \<and> set (running pi') \<subseteq> set (running pi) \<and> nextTimer pi' = nextTimer pi \<and>
     (case r of
        Inr b \<Rightarrow> found pi (batch_key i) = Some b \<and> stateCond pi < stateCond pi'
      | Inl e \<Rightarrow> errors_Is e ErrBatchDoesNotExist \<and> (\<not> cancelled pi \<longrightarrow> pi' = pi \<and> found pi (batch_key i) = None)) \<and>
     (cache_lookup (piCache pi) (batch_key i) \<noteq> None \<longrightarrow> batch_key i \<notin> batch_key ` snd ` set (running pi')))"

lemma removeUnsafe_forced:
  assumes inv: "index_inv p pi" and part: "in_partition p i" and none: "cache_lookup (piCache pi) (batch_key i) = None"
  shows "\<exists>out. removeUnsafe i pi = Inr out \<and> removal p i pi out"
proof -
  note c = index_parts [OF inv]
  note pop = cache_Pop_spec(1) [OF c(1) part none]
  show ?thesis
  proof (cases "cache_lookup (forcedPutCache pi) (batch_key i)")
    case None
    then show ?thesis
      using pop cache_Pop_spec(1) [OF c(2) part] none inv
      by (simp add: removeUnsafe_def removal_def found_def index_frame_def settled_def errors_Is_wrap)
  next
    case (Some b)
    then obtain c' where c': "cache_Pop i (forcedPutCache pi) = Inr (c', b)" "cache_inv p c'"
        "cache_lookup c' = (cache_lookup (forcedPutCache pi))(batch_key i := None)"
      using cache_Pop_spec(2) [OF c(2) part] by blast
    have "index_inv p (pi\<lparr>forcedPutCache := c'\<rparr>)"
      using inv c'(2) by (simp add: index_inv_def)
    moreover have "index_frame pi (pi\<lparr>forcedPutCache := c'\<rparr>)"
      using c'(3) by (auto simp: index_frame_def stored_def ran_def)
    ultimately show ?thesis
      using pop c'(1) none Some by (simp add: removeUnsafe_def removal_def found_def settled_def errors_Is_wrap)
  qed
qed

lemma removeUnsafe_cached:
  assumes inv: "index_inv p pi" and part: "in_partition p i" and some: "cache_lookup (piCache pi) (batch_key i) = Some b"
  shows "\<exists>out. removeUnsafe i pi = Inr out \<and> removal p i pi out"
proof -
  note c = index_parts(1,3) [OF inv]
  obtain c' where c': "cache_Pop i (piCache pi) = Inr (c', b)" "cache_inv p c'"
      "cache_lookup c' = (cache_lookup (piCache pi))(batch_key i := None)" "bcSizeBytes c' = bcSizeBytes (piCache pi) - batchSizeBytes b"
    using cache_Pop_spec(2) [OF c(1) part some] by blast
  obtain h r where h: "BatchHeap_Remove i (sequenceHeap pi) = Inr (h, r)" "heap_inv p by_seq h"
      "case r of
         Inl e \<Rightarrow> e = ErrBatchDoesNotExist \<and> h = sequenceHeap pi \<and> batch_key i \<notin> batch_key ` hiBatch ` set (hData (sequenceHeap pi))
       | Inr item \<Rightarrow> batch_key (hiBatch item) = batch_key i \<and> item \<in># heap_items pi \<and> mset (hData h) = heap_items pi - {#item#}"
    using BatchHeap_Remove_spec [OF c(2) part] by blast
  show ?thesis
  proof (cases r)
    case (Inl e)
    let ?pi = "pi\<lparr>piCache := c'\<rparr>"
    have e: "e = ErrBatchDoesNotExist" "h = sequenceHeap pi" "batch_key i \<notin> batch_key ` hiBatch ` set (hData (sequenceHeap pi))"
      using h(3) Inl by simp_all
    have "bcSizeBytes c' \<le> bcSizeBytes (piCache pi)"
      using c'(4) batch_size_nonneg [of b] by simp
    note drop = index_drop [OF inv e(3) _ c'(2,3) this]
    have "removeUnsafe i pi = Inr (?pi, Inl (ErrWrap e ''failed to remove batch from heap''))"
      using c'(1) h(1) e(2) Inl by (simp add: removeUnsafe_def)
    then show ?thesis
      using drop some e running_items [OF drop(2)] by (auto simp: removal_def settled_def errors_Is_wrap image_image)
  next
    case (Inr item)
    let ?pi = "stop_timer (hiValue item) (pi\<lparr>piCache := c', sequenceHeap := h\<rparr>)"
    have item: "batch_key (hiBatch item) = batch_key i" "item \<in># heap_items pi" "mset (hData h) = heap_items pi - {#item#}"
      using h(3) Inr by simp_all
    have "hiBatch item = b"
      using index_item [OF inv item(2)] item(1) some by simp
    note rm = index_remove [OF inv item(2) h(2) item(3) c'(2) c'(3) [folded item(1)], unfolded this, OF c'(4)]
    have "batch_key i \<notin> (batch_key \<circ> hiBatch) ` set_mset (mset (hData h))"
      using heap_item_unique [OF c(2) item(2)] item(1,3) by simp
    then have "batch_key i \<notin> batch_key ` snd ` set (running ?pi)"
      unfolding running_items [OF rm(1)] by (simp add: stop_timer_def image_image comp_def)
    moreover have "removeUnsafe i pi = Inr (broadcast ?pi, Inr b)"
      using c'(1) h(1) Inr by (simp add: removeUnsafe_def)
    ultimately show ?thesis
      using rm some by (auto simp: removal_def found_def settled_def stop_timer_def)
  qed
qed

lemma removeUnsafe_spec:
  assumes "index_inv p pi" "in_partition p i"
  obtains pi' r where "removeUnsafe i pi = Inr (pi', r)" "removal p i pi (pi', r)"
  using removeUnsafe_forced [OF assms] removeUnsafe_cached [OF assms] by (cases "cache_lookup (piCache pi) (batch_key i)") auto

lemma stop_timer_simps [simp]:
  "piCache (stop_timer t pi) = piCache pi" "forcedPutCache (stop_timer t pi) = forcedPutCache pi"
  "sequenceHeap (stop_timer t pi) = sequenceHeap pi"
  "(stop_timer t pi)\<lparr>piCache := c\<rparr> = stop_timer t (pi\<lparr>piCache := c\<rparr>)"
  "(stop_timer t pi)\<lparr>forcedPutCache := c\<rparr> = stop_timer t (pi\<lparr>forcedPutCache := c\<rparr>)"
  "(stop_timer t pi)\<lparr>sequenceHeap := h\<rparr> = stop_timer t (pi\<lparr>sequenceHeap := h\<rparr>)"
  by (simp_all add: stop_timer_def)

lemma stop_timer_broadcast: "stop_timer t (broadcast pi) = broadcast (stop_timer t pi)"
  by (simp add: stop_timer_def broadcast_def)

lemma stop_timer_commute: "stop_timer t (stop_timer t' pi) = stop_timer t' (stop_timer t pi)"
  by (simp add: stop_timer_def filter_filter conj_commute case_prod_unfold)

lemma removeUnsafe_stop:
  "removeUnsafe i (stop_timer t pi) = map_sum id (\<lambda>(pi', r). (stop_timer t pi', r)) (removeUnsafe i pi)"
proof (cases "cache_Pop i (piCache pi)")
  case (Inl e)
  then show ?thesis
    by (cases e; cases "cache_Pop i (forcedPutCache pi)") (auto simp: removeUnsafe_def stop_timer_broadcast split: failure.split)
next
  case (Inr out)
  then show ?thesis
    by (cases out; cases "BatchHeap_Remove i (sequenceHeap pi)")
      (auto simp: removeUnsafe_def Let_def stop_timer_commute stop_timer_broadcast split: sum.split)
qed

lemma ttl_handler_spec:
  assumes inv: "index_inv p pi" and part: "in_partition p b" and t: "t \<in> fst ` set (running pi) \<Longrightarrow> (t, b) \<in> set (running pi)"
  obtains pi' where "ttl_handler (t, b) pi = Inr pi'" "index_inv p pi'" "index_frame pi pi'" "settled pi pi'"
    "set (running pi') \<subseteq> set (running pi)" "nextTimer pi' = nextTimer pi"
proof -
  obtain pi' r where r: "removeUnsafe b pi = Inr (pi', r)" "removal p b pi (pi', r)"
    using removeUnsafe_spec [OF inv part] .
  have "t \<notin> fst ` set (running pi')"
  proof
    assume *: "t \<in> fst ` set (running pi')"
    then have tb: "(t, b) \<in> set (running pi)" "set (running pi') \<subseteq> set (running pi)"
      using t r(2) by (auto simp: removal_def)
    then obtain item where "item \<in># heap_items pi" "hiBatch item = b"
      using running_items [OF inv] by auto
    then have "cache_lookup (piCache pi) (batch_key b) \<noteq> None"
      using index_item [OF inv] by blast
    then have "batch_key b \<notin> batch_key ` snd ` set (running pi')"
      using r(2) by (simp add: removal_def)
    moreover obtain b' where b': "(t, b') \<in> set (running pi')"
      using * by auto
    moreover have "distinct (map fst (running pi))"
      using inv by (simp add: index_inv_def)
    then have "b' = b"
      using eq_key_imp_eq_value tb(1) subsetD [OF tb(2) b'] by metis
    ultimately show False
      by force
  qed
  then have "filter (\<lambda>(t', _). t' \<noteq> t) (running pi') = running pi'"
    by (intro filter_True) force
  then have "stop_timer t pi' = pi'"
    by (simp add: stop_timer_def)
  then have "ttl_handler (t, b) pi = Inr pi'"
    using r(1) by (simp add: ttl_handler_def removeUnsafe_stop)
  then show thesis
    using that r(2) by (simp add: removal_def)
qed

lemma evict_empty:
  "index_inv p pi \<Longrightarrow> hData (sequenceHeap pi) = [] \<Longrightarrow>
   evictOldestBatch pi = Inr (pi, Some (ErrNew ''there is nothing to evict, the sequence heap is empty''))"
  by (simp add: evictOldestBatch_def BatchHeap_Pop_def)

lemma evict_spec:
  assumes inv: "index_inv p pi" and ne: "hData (sequenceHeap pi) \<noteq> []"
  obtains pi' item where "evictOldestBatch pi = Inr (pi', None)" "item \<in># heap_items pi" "\<forall>other \<in># heap_items pi. by_seq item \<le> by_seq other"
    "index_inv p pi'" "index_frame pi pi'" "stateCond pi < stateCond pi'" "nextTimer pi' = nextTimer pi"
    "set (running pi') \<subseteq> set (running pi)" "cache_lookup (piCache pi') = (cache_lookup (piCache pi))(batch_key (hiBatch item) := None)"
    "heap_items pi' = heap_items pi - {#item#}"
proof -
  note c = index_parts [OF inv]
  obtain h r where "BatchHeap_Pop (sequenceHeap pi) = Inr (h, r)" and h: "heap_inv p by_seq h" and
      "case r of None \<Rightarrow> hData (sequenceHeap pi) = [] \<and> h = sequenceHeap pi
       | Some item \<Rightarrow> item \<in># heap_items pi \<and> (\<forall>other \<in># heap_items pi. by_seq item \<le> by_seq other) \<and> mset (hData h) = heap_items pi - {#item#}"
    using BatchHeap_Pop_spec [OF c(3)] by blast
  with ne obtain item where item: "BatchHeap_Pop (sequenceHeap pi) = Inr (h, Some item)" "item \<in># heap_items pi"
      "\<forall>other \<in># heap_items pi. by_seq item \<le> by_seq other" "mset (hData h) = heap_items pi - {#item#}"
    by (cases r) auto
  let ?b = "hiBatch item"
  have b: "cache_lookup (piCache pi) (batch_key ?b) = Some ?b"
    by (rule index_item [OF inv item(2)])
  obtain c' where c': "cache_Pop ?b (piCache pi) = Inr (c', ?b)" "cache_inv p c'"
      "cache_lookup c' = (cache_lookup (piCache pi))(batch_key ?b := None)" "bcSizeBytes c' = bcSizeBytes (piCache pi) - batchSizeBytes ?b"
    using cache_Pop_spec(2) [OF c(1) _ b] cache_lookup_key [OF c(1) b] by blast
  let ?pi = "stop_timer (hiValue item) (pi\<lparr>piCache := c', sequenceHeap := h\<rparr>)"
  note rm = index_remove [OF inv item(2) h item(4) c'(2-4)]
  have "evictOldestBatch pi = Inr (broadcast ?pi, None)"
    using item(1) c'(1) by (simp add: evictOldestBatch_def stop_timer_def broadcast_def)
  then show thesis
    by (rule that [of "broadcast ?pi" item]) (use item rm c'(3) in \<open>auto simp: stop_timer_def\<close>)
qed

lemma save_exists:
  assumes "index_inv p pi" "in_partition p b" "cache_lookup (piCache pi) (batch_key b) \<noteq> None"
  shows "saveOrdinaryBatch b pi = Inr (pi, Some ErrBatchAlreadyExists)"
  using cache_Put_spec(1) [OF index_parts(1) [OF assms(1)] assms(2,3)] by (simp add: saveOrdinaryBatch_def)

lemma save_spec:
  assumes inv: "index_inv p pi" and part: "in_partition p b" and new: "cache_lookup (piCache pi) (batch_key b) = None"
    and fits: "bcSizeBytes (piCache pi) + batchSizeBytes b \<le> maxSizeBytes pi"
  obtains c h where "saveOrdinaryBatch b pi = Inr (broadcast (pi\<lparr>piCache := c, sequenceHeap := h, nextTimer := Suc (nextTimer pi),
      running := (nextTimer pi, b) # running pi, lastPutSeq := Seq b\<rparr>), None)"
    "index_inv p (pi\<lparr>piCache := c, sequenceHeap := h, nextTimer := Suc (nextTimer pi), running := (nextTimer pi, b) # running pi, lastPutSeq := Seq b\<rparr>)"
    "cache_lookup c = (cache_lookup (piCache pi))(batch_key b \<mapsto> b)"
proof -
  note c = index_parts [OF inv]
  obtain c' where c': "cache_Put b (piCache pi) = Inr c'" "cache_inv p c'"
      "cache_lookup c' = (cache_lookup (piCache pi))(batch_key b \<mapsto> b)" "bcSizeBytes c' = bcSizeBytes (piCache pi) + batchSizeBytes b"
    using cache_Put_spec(2) [OF c(1) part new] by blast
  let ?item = "\<lparr>hiBatch = b, hiValue = nextTimer pi\<rparr>"
  have fresh: "batch_key b \<notin> batch_key ` hiBatch ` set (hData (sequenceHeap pi))"
    using index_item [OF inv] new by fastforce
  obtain h where h: "BatchHeap_Push ?item (sequenceHeap pi) = Inr h" "heap_inv p by_seq h" "mset (hData h) = add_mset ?item (heap_items pi)"
    using BatchHeap_Push_spec [OF c(3), of ?item] part fresh by auto
  show thesis
  proof (rule that [where c = c' and h = h])
    show "saveOrdinaryBatch b pi = Inr (broadcast (pi\<lparr>piCache := c', sequenceHeap := h, nextTimer := Suc (nextTimer pi),
        running := (nextTimer pi, b) # running pi, lastPutSeq := Seq b\<rparr>), None)"
      using c'(1) h(1) by (simp add: saveOrdinaryBatch_def broadcast_def Let_def)
    have set_h: "set (hData h) = insert ?item (set (hData (sequenceHeap pi)))"
      using h(3) by (metis set_mset_add_mset_insert set_mset_mset)
    show "index_inv p (pi\<lparr>piCache := c', sequenceHeap := h, nextTimer := Suc (nextTimer pi),
        running := (nextTimer pi, b) # running pi, lastPutSeq := Seq b\<rparr>)"
      using inv c'(2-4) h(2,3) fits fresh unfolding index_inv_def
      by (auto simp: timers_of_def set_h image_iff)
  qed (rule c'(3))
qed

subsection \<open>Putting in a batch\<close>

abbreviation streamed :: "PartitionPrefetchIndex \<Rightarrow> (BatchSequence \<times> bytes) set" where
  "streamed pi \<equiv> dom (cache_lookup (piCache pi))"

text \<open>The streamed batches that left the index for the batch \<open>b\<close> are not after those that stayed.\<close>

definition oldest_left :: "SimpleBatch \<Rightarrow> PartitionPrefetchIndex \<Rightarrow> PartitionPrefetchIndex \<Rightarrow> bool" where
  "oldest_left b pi pi' \<longleftrightarrow>
     streamed pi' \<subseteq> insert (batch_key b) (streamed pi) \<and>
     (\<forall>k1 \<in> streamed pi - streamed pi'. \<forall>k2 \<in> streamed pi' - {batch_key b}. fst k1 \<le> fst k2)"

definition put_frame :: "ShardPrimary \<Rightarrow> SimpleBatch \<Rightarrow> PartitionPrefetchIndex \<Rightarrow> PartitionPrefetchIndex \<Rightarrow> bool" where
  "put_frame p b pi pi' \<longleftrightarrow>
     index_inv p pi' \<and> settled pi pi' \<and> oldest_left b pi pi' \<and> stored pi' \<subseteq> insert b (stored pi) \<and>
     set (running pi') \<subseteq> insert (nextTimer pi, b) (set (running pi)) \<and> nextTimer pi \<le> nextTimer pi' \<and>
     maxPoppedCallSeq pi' = maxPoppedCallSeq pi \<and> lastPutSeqRequest pi' = lastPutSeqRequest pi"

definition put_result :: "SimpleBatch \<Rightarrow> PartitionPrefetchIndex \<Rightarrow> PartitionPrefetchIndex \<Rightarrow> put_turn \<Rightarrow> bool" where
  "put_result b pi pi' r =
     (case r of
        PutWaits \<Rightarrow> pi' = pi \<and> \<not> cancelled pi \<and> maxPoppedCallSeq pi < Seq b \<and> maxSizeBytes pi < bcSizeBytes (piCache pi) + batchSizeBytes b
      | PutReturns None \<Rightarrow> cache_lookup (piCache pi') (batch_key b) = Some b \<and> lastPutSeq pi' = Seq b \<and> stateCond pi < stateCond pi'
      | PutReturns (Some e) \<Rightarrow>
          e = ErrOperationCancelled \<and> cancelled pi \<or> e = ErrBatchAlreadyExists \<and> batch_key b \<in> streamed pi)"

lemma heap_nonempty:
  assumes inv: "index_inv p pi" and "\<not> cancelled pi" "0 < bcSizeBytes (piCache pi)"
  shows "hData (sequenceHeap pi) \<noteq> []"
proof
  assume "hData (sequenceHeap pi) = []"
  then have "dom (cache_lookup (piCache pi)) = {}"
    using inv assms(2) by (simp add: index_inv_def)
  then show False
    using cache_empty [OF index_parts(1) [OF inv]] assms(3) by simp
qed

lemma save_frame:
  assumes inv: "index_inv p pi" and part: "in_partition p b" and fits: "bcSizeBytes (piCache pi) + batchSizeBytes b \<le> maxSizeBytes pi"
  obtains pi' e where "saveOrdinaryBatch b pi = Inr (pi', e)" "put_frame p b pi pi'" "put_result b pi pi' (PutReturns e)"
proof (cases "cache_lookup (piCache pi) (batch_key b)")
  case None
  show thesis
    by (rule save_spec [OF inv part None fits], rule that, assumption)
      (auto simp: put_frame_def put_result_def settled_def oldest_left_def stored_def ran_def split: if_splits)
next
  case (Some b')
  then show thesis
    using that [OF save_exists [OF inv part]] inv
    by (auto simp: put_frame_def put_result_def settled_def oldest_left_def)
qed

lemma evict_oldest:
  assumes inv: "index_inv p pi" and live: "\<not> cancelled pi" and item: "item \<in># heap_items pi" "\<forall>other \<in># heap_items pi. by_seq item \<le> by_seq other"
    and pi': "cache_lookup (piCache pi') = (cache_lookup (piCache pi))(batch_key (hiBatch item) := None)" and rest: "oldest_left b pi' pi''"
  shows "oldest_left b pi pi''"
proof -
  have old: "fst (batch_key (hiBatch item)) \<le> fst k" if "k \<in> streamed pi" for k
  proof -
    have "streamed pi \<subseteq> (batch_key \<circ> hiBatch) ` set_mset (heap_items pi)"
      using inv live by (simp add: index_inv_def)
    from subsetD [OF this that] obtain other where "other \<in># heap_items pi" "k = batch_key (hiBatch other)"
      by auto
    then show ?thesis
      using item(2) by (auto simp: batch_key_def)
  qed
  have sub: "streamed pi' = streamed pi - {batch_key (hiBatch item)}"
    using pi' by auto
  show ?thesis
    unfolding oldest_left_def
  proof (intro conjI ballI)
    show new: "streamed pi'' \<subseteq> insert (batch_key b) (streamed pi)"
      using rest sub by (auto simp: oldest_left_def)
    fix k1 k2
    assume k: "k1 \<in> streamed pi - streamed pi''" "k2 \<in> streamed pi'' - {batch_key b}"
    then show "fst k1 \<le> fst k2"
      using old [of k2] new rest sub by (cases "k1 = batch_key (hiBatch item)") (auto simp: oldest_left_def)
  qed
qed

lemma Put_loop_spec:
  assumes "index_inv p pi" "in_partition p b" "batchSizeBytes b \<le> maxSizeBytes pi"
  shows "\<exists>pi' r. Put_loop b pi = Inr (pi', r) \<and> put_frame p b pi pi' \<and> put_result b pi pi' r"
  using assms
proof (induction b pi rule: Put_loop.induct)
  case (1 b pi)
  let ?full = "bcSizeBytes (piCache pi) + batchSizeBytes b > maxSizeBytes pi"
  consider "\<not> ?full" | "?full" "cancelled pi" | "?full" "\<not> cancelled pi" "maxPoppedCallSeq pi < Seq b"
    | "?full" "\<not> cancelled pi" "\<not> maxPoppedCallSeq pi < Seq b"
    by blast
  then show ?case
  proof cases
    case a: 1
    then obtain pi' e where "saveOrdinaryBatch b pi = Inr (pi', e)" "put_frame p b pi pi'" "put_result b pi pi' (PutReturns e)"
      using save_frame [OF "1.prems"(1,2)] by auto
    then show ?thesis
      using a by (simp add: Put_loop.simps [of b pi])
  next
    case b: 4
    then have "hData (sequenceHeap pi) \<noteq> []"
      using heap_nonempty [OF "1.prems"(1)] "1.prems"(3) by simp
    then obtain pi1 item where e: "evictOldestBatch pi = Inr (pi1, None)" "item \<in># heap_items pi" "\<forall>other \<in># heap_items pi. by_seq item \<le> by_seq other"
      "index_inv p pi1" "index_frame pi pi1" "stateCond pi < stateCond pi1" "nextTimer pi1 = nextTimer pi"
      "set (running pi1) \<subseteq> set (running pi)" "cache_lookup (piCache pi1) = (cache_lookup (piCache pi))(batch_key (hiBatch item) := None)"
      by (rule evict_spec [OF "1.prems"(1)])
    then obtain pi' r where r: "Put_loop b pi1 = Inr (pi', r)" "put_frame p b pi1 pi'" "put_result b pi1 pi' r"
      using "1.IH" [OF b(1-3) e(1) refl refl e(4) "1.prems"(2)] "1.prems"(3) by (auto simp: index_frame_def)
    have "put_frame p b pi pi'"
      using r(2) e(5-8) evict_oldest [OF "1.prems"(1) b(2) e(2,3,9)] by (auto simp: put_frame_def settled_def index_frame_def)
    moreover have "put_result b pi pi' r"
      using r(3) e(5,6,9) b by (auto simp: put_result_def index_frame_def split: put_turn.splits option.splits if_splits)
    ultimately show ?thesis
      using r(1) e(1) b by (simp add: Put_loop.simps [of b pi])
  qed (use "1.prems" in \<open>auto simp: Put_loop.simps [of b pi] put_frame_def put_result_def settled_def oldest_left_def\<close>)
qed

lemma partition_ok: "index_inv p pi \<Longrightarrow> in_partition p i \<Longrightarrow> assertBatchPartition i pi = Inr ()"
  by (cases p) (simp add: index_inv_def in_partition_def assertBatchPartition_def ShardPrimaryFromBatch_def)

lemma Put_spec:
  assumes inv: "index_inv p pi" and part: "in_partition p b"
  obtains pi' r where "Put b pi = Inr (pi', r)" "index_inv p pi'" "settled pi pi'" "stored pi' \<subseteq> insert b (stored pi)"
    "set (running pi') \<subseteq> insert (nextTimer pi, b) (set (running pi))" "nextTimer pi \<le> nextTimer pi'"
    "r = PutWaits \<longrightarrow> batchSizeBytes b \<le> maxSizeBytes pi \<and> put_result b pi' pi' PutWaits"
proof (cases "batchSizeBytes b > maxSizeBytes pi \<or> cache_lookup (piCache pi) (batch_key b) \<noteq> None")
  case True
  then have "Put b pi = Inr (pi, PutReturns (Some (if batchSizeBytes b > maxSizeBytes pi then ErrBatchTooLarge else ErrBatchAlreadyExists)))"
    using partition_ok [OF assms] cache_Has_spec [OF index_parts(1) [OF inv] part] by (auto simp: Put_def)
  then show thesis
    by (rule that) (auto simp: inv settled_refl)
next
  case False
  let ?pi = "pi\<lparr>lastPutSeqRequest := Seq b\<rparr>"
  have "index_inv p ?pi" "stored ?pi = stored pi" "settled pi ?pi"
    using inv by (simp_all add: index_inv_def stored_def settled_def)
  moreover from this obtain pi' r where r: "Put_loop b ?pi = Inr (pi', r)" "put_frame p b ?pi pi'" "put_result b ?pi pi' r"
    using Put_loop_spec [of p ?pi b] part False by auto
  moreover have "Put b pi = Inr (pi', r)"
    using r(1) False partition_ok [OF assms] cache_Has_spec [OF index_parts(1) [OF inv] part] by (simp add: Put_def)
  moreover have "put_result b pi' pi' PutWaits" if "r = PutWaits"
    using r(3) that by (simp add: put_result_def)
  ultimately show thesis
    using False settled_trans [of pi ?pi pi'] by (intro that [of pi' r]) (auto simp: put_frame_def)
qed

lemma PutForce_spec:
  assumes inv: "index_inv p pi" and part: "in_partition p b"
  obtains pi' e where "PutForce b pi = Inr (pi', e)" "index_inv p pi'" "settled pi pi'" "stored pi' \<subseteq> insert b (stored pi)"
    "running pi' = running pi" "nextTimer pi' = nextTimer pi"
    "e = None \<Longrightarrow> cache_lookup (forcedPutCache pi') (batch_key b) = Some b"
proof (cases "batchSizeBytes b > maxSizeBytes pi \<or> cache_lookup (forcedPutCache pi) (batch_key b) \<noteq> None")
  case True
  then have "PutForce b pi = Inr (pi, Some (if batchSizeBytes b > maxSizeBytes pi then ErrBatchTooLarge else ErrBatchAlreadyExists))"
    using partition_ok [OF assms] cache_Put_spec(1) [OF index_parts(2) [OF inv] part] by (auto simp: PutForce_def)
  then show thesis
    by (rule that) (auto simp: inv settled_refl)
next
  case False
  then obtain c where c: "cache_Put b (forcedPutCache pi) = Inr c" "cache_inv p c" "cache_lookup c = (cache_lookup (forcedPutCache pi))(batch_key b \<mapsto> b)"
    using cache_Put_spec(2) [OF index_parts(2) [OF inv] part] by blast
  have "index_inv p (pi\<lparr>forcedPutCache := c\<rparr>)"
    using inv c(2) by (simp add: index_inv_def)
  moreover have "PutForce b pi = Inr (broadcast (pi\<lparr>forcedPutCache := c\<rparr>), None)"
    using False c(1) partition_ok [OF assms] by (simp add: PutForce_def)
  ultimately show thesis
    by (intro that [of "broadcast (pi\<lparr>forcedPutCache := c\<rparr>)" None]) (auto simp: c(3) settled_def stored_def ran_def)
qed

subsection \<open>Stopping\<close>

lemma index_release:
  assumes inv: "index_inv p pi" and item: "item \<in># heap_items pi" and "cancelled pi"
    and h: "heap_inv p by_seq h" "mset (hData h) = heap_items pi - {#item#}"
  shows "index_inv p (stop_timer (hiValue item) (pi\<lparr>sequenceHeap := h\<rparr>))" (is "index_inv p ?pi")
proof -
  have run: "mset (running pi) = timers_of (heap_items pi)" "distinct (map fst (running pi))"
    using inv by (simp_all add: index_inv_def)
  have "(hiValue item, hiBatch item) \<in> set (running pi)"
    using running_items [OF inv] item by auto
  from stop_timer_running [OF run(2) this] have "mset (running ?pi) = timers_of (heap_items ?pi)"
    using run(1) item h(2) by (simp add: stop_timer_def timers_of_def image_mset_Diff)
  moreover have "distinct (map fst (running ?pi))"
    using run(2) by (auto simp: stop_timer_def distinct_map_filter)
  moreover have "cache_lookup (piCache pi) (batch_key (hiBatch item')) = Some (hiBatch item')" if "item' \<in># mset (hData h)" for item'
    using index_item [OF inv] that h(2) by (metis in_diffD)
  ultimately show ?thesis
    using inv assms(3) h(1) by (auto simp: index_inv_def stop_timer_def)
qed

lemma stop_timers_spec:
  assumes "index_inv p pi" "cancelled pi"
  shows "\<exists>h. stop_timers pi = Inr (pi\<lparr>sequenceHeap := h, running := []\<rparr>) \<and> index_inv p (pi\<lparr>sequenceHeap := h, running := []\<rparr>)"
  using assms
proof (induction pi rule: stop_timers.induct)
  case (1 pi)
  obtain h r where h: "BatchHeap_Pop (sequenceHeap pi) = Inr (h, r)" "heap_inv p by_seq h"
      "case r of None \<Rightarrow> hData (sequenceHeap pi) = [] \<and> h = sequenceHeap pi
       | Some item \<Rightarrow> item \<in># heap_items pi \<and> (\<forall>other \<in># heap_items pi. by_seq item \<le> by_seq other) \<and> mset (hData h) = heap_items pi - {#item#}"
    using BatchHeap_Pop_spec [OF index_parts(3) [OF "1.prems"(1)]] by blast
  show ?case
  proof (cases r)
    case None
    then have "running pi = []"
      using running_items [OF "1.prems"(1)] h(3) by simp
    then have "pi\<lparr>sequenceHeap := h, running := []\<rparr> = pi"
      using None h(3) by simp
    then show ?thesis
      using None h "1.prems"(1) by (auto simp: stop_timers.simps [of pi] intro!: exI [of _ h])
  next
    case (Some item)
    let ?pi = "stop_timer (hiValue item) (pi\<lparr>sequenceHeap := h\<rparr>)"
    have "index_inv p ?pi"
      using index_release [OF "1.prems"(1) _ "1.prems"(2) h(2)] h(3) Some by simp
    then obtain h' where "stop_timers ?pi = Inr (?pi\<lparr>sequenceHeap := h', running := []\<rparr>)" "index_inv p (?pi\<lparr>sequenceHeap := h', running := []\<rparr>)"
      using "1.IH" [OF h(1) _ Some] "1.prems"(2) by (auto simp: stop_timer_def)
    then show ?thesis
      using h(1) Some by (auto simp: stop_timers.simps [of pi] stop_timer_def)
  qed
qed

subsection \<open>Asking for a batch\<close>

lemma found_stored:
  assumes inv: "index_inv p pi" and found: "found pi k = Some b"
  shows "b \<in> stored pi" "batch_key b = k" "in_partition p b"
proof -
  note c = index_parts [OF inv]
  have "cache_lookup (piCache pi) k = Some b \<or> cache_lookup (forcedPutCache pi) k = Some b"
    using found by (auto simp: found_def split: option.splits)
  then show "b \<in> stored pi" "batch_key b = k" "in_partition p b"
    using cache_lookup_key [OF c(1), of k b] cache_lookup_key [OF c(2), of k b] by (auto simp: stored_def intro: ranI)
qed

lemma PopOrWait_enter_spec:
  assumes "index_inv p pi" "in_partition p i"
  obtains pi' where "PopOrWait_enter i pi = Inr pi'" "index_inv p pi'" "settled pi pi'" "stored pi' = stored pi"
    "running pi' = running pi" "nextTimer pi' = nextTimer pi"
proof -
  have "index_inv p (pi\<lparr>maxPoppedCallSeq := Seq i\<rparr>)" "stored (pi\<lparr>maxPoppedCallSeq := Seq i\<rparr>) = stored pi"
    using assms(1) by (simp_all add: index_inv_def stored_def)
  then show thesis
    using partition_ok [OF assms] assms(1)
    by (intro that [of "if maxPoppedCallSeq pi < Seq i then broadcast (pi\<lparr>maxPoppedCallSeq := Seq i\<rparr>) else pi"])
      (auto simp: PopOrWait_enter_def settled_def)
qed

definition pop_result :: "BatchID \<Rightarrow> bool \<Rightarrow> PartitionPrefetchIndex \<Rightarrow> PartitionPrefetchIndex \<Rightarrow> pop_turn \<Rightarrow> bool" where
  "pop_result i was pi pi' t =
     (case t of
        PopReturns (Inr b) \<Rightarrow> found pi (batch_key i) = Some b
      | PopReturns (Inl e) \<Rightarrow> e = ErrOperationCancelled \<and> cancelled pi
      | PopWaits request requested \<Rightarrow>
          pi' = pi \<and> \<not> cancelled pi \<and> found pi (batch_key i) = None \<and> requested = (was \<or> request))"

lemma PopOrWait_turn_spec:
  assumes inv: "index_inv p pi" and part: "in_partition p i"
  obtains pi' t where "PopOrWait_turn i was pi = Inr (pi', t)" "index_inv p pi'" "settled pi pi'" "stored pi' \<subseteq> stored pi"
    "set (running pi') \<subseteq> set (running pi)" "nextTimer pi' = nextTimer pi" "pop_result i was pi pi' t"
proof (cases "cancelled pi")
  case True
  then show thesis
    by (intro that [of pi "PopReturns (Inl ErrOperationCancelled)"]) (auto simp: PopOrWait_turn_def pop_result_def inv settled_refl)
next
  case False
  obtain pi' r where r: "removeUnsafe i pi = Inr (pi', r)" "removal p i pi (pi', r)"
    using removeUnsafe_spec [OF inv part] .
  show thesis
  proof (cases r)
    case (Inl e)
    then have "pi' = pi" "errors_Is e ErrBatchDoesNotExist" "found pi (batch_key i) = None"
      using r(2) False by (auto simp: removal_def)
    then show thesis
      using r(1) Inl False inv
      by (intro that [of pi "PopWaits (\<not> was \<and> (Seq i < lastPutSeqRequest pi \<or> Seq i = lastPutSeq pi))
            (was \<or> Seq i < lastPutSeqRequest pi \<or> Seq i = lastPutSeq pi)"])
        (auto simp: PopOrWait_turn_def pop_result_def settled_refl Let_def)
  next
    case (Inr b)
    then show thesis
      using r False by (intro that [of pi' "PopReturns (Inr b)"]) (auto simp: PopOrWait_turn_def pop_result_def removal_def index_frame_def)
  qed
qed

section \<open>Callers, timers and the lock\<close>

text \<open>
  An index with its callers: the calls that wait, with the number of broadcasts at the time they began to, the timers that have
  fired and whose handlers have not taken the lock, and whether the context is cancelled by a \<open>Stop\<close> that has not taken the
  lock either. The last four fields record what the callers asked for, put in, requested and were given.
\<close>

record popper =
  popId :: BatchID
  popTicket :: nat
  popRequested :: bool
  popMonitors :: nat

record PrefetchState =
  pfIndex :: PartitionPrefetchIndex
  poppers :: "popper list"
  putters :: "(SimpleBatch \<times> nat) list"
  firedTimers :: "(nat \<times> SimpleBatch) list"
  stopping :: bool
  asked :: "BatchID list"
  puts :: "SimpleBatch list"
  requested :: "BatchID list"
  delivered :: "(BatchID \<times> SimpleBatch) list"

definition prefetch_start :: "ShardPrimary \<Rightarrow> int \<Rightarrow> PrefetchState" where
  "prefetch_start p maxSize =
     \<lparr>pfIndex = NewPartitionPrefetchIndex p maxSize, poppers = [], putters = [], firedTimers = [], stopping = False,
      asked = [], puts = [], requested = [], delivered = []\<rparr>"

text \<open>What a turn of a call does to the state; a call that waits unrequested has started one more monitor.\<close>

definition after_pop :: "BatchID \<Rightarrow> nat \<Rightarrow> PartitionPrefetchIndex \<times> pop_turn \<Rightarrow> PrefetchState \<Rightarrow> PrefetchState" where
  "after_pop i monitors = (\<lambda>(pi, turn) s.
     case turn of
       PopReturns (Inr b) \<Rightarrow> s\<lparr>pfIndex := pi, delivered := (i, b) # delivered s\<rparr>
     | PopReturns (Inl e) \<Rightarrow> s\<lparr>pfIndex := pi\<rparr>
     | PopWaits request req \<Rightarrow>
         s\<lparr>pfIndex := pi, requested := (if request then i # requested s else requested s),
           poppers := \<lparr>popId = i, popTicket = stateCond pi, popRequested = req,
             popMonitors = (if req then monitors else monitors + 1)\<rparr> # poppers s\<rparr>)"

definition after_put :: "SimpleBatch \<Rightarrow> PartitionPrefetchIndex \<times> put_turn \<Rightarrow> PrefetchState \<Rightarrow> PrefetchState" where
  "after_put b = (\<lambda>(pi, turn) s.
     case turn of
       PutReturns e \<Rightarrow> s\<lparr>pfIndex := pi\<rparr>
     | PutWaits \<Rightarrow> s\<lparr>pfIndex := pi, putters := (b, stateCond pi) # putters s\<rparr>)"

inductive prefetch_step :: "ShardPrimary \<Rightarrow> PrefetchState \<Rightarrow> PrefetchState \<Rightarrow> bool" for p where
  pop_call: "in_partition p i \<Longrightarrow> PopOrWait_enter i (pfIndex s) = Inr pi \<Longrightarrow> PopOrWait_turn i False pi = Inr out \<Longrightarrow>
    prefetch_step p s (after_pop i 0 out (s\<lparr>asked := i # asked s\<rparr>))"
| pop_wake: "w \<in> set (poppers s) \<Longrightarrow> popTicket w < stateCond (pfIndex s) \<Longrightarrow>
    PopOrWait_turn (popId w) (popRequested w) (pfIndex s) = Inr out \<Longrightarrow>
    prefetch_step p s (after_pop (popId w) (popMonitors w) out (s\<lparr>poppers := remove1 w (poppers s)\<rparr>))"
| monitor: "w \<in> set (poppers s) \<Longrightarrow> 0 < popMonitors w \<Longrightarrow>
    prefetch_step p s (s\<lparr>pfIndex := broadcast (pfIndex s), requested := popId w # requested s,
      poppers := w\<lparr>popRequested := True, popMonitors := popMonitors w - 1\<rparr> # remove1 w (poppers s)\<rparr>)"
| late_monitor: "i \<in> set (asked s) \<Longrightarrow>
    prefetch_step p s (s\<lparr>pfIndex := broadcast (pfIndex s), requested := i # requested s\<rparr>)"
| put_call: "in_partition p b \<Longrightarrow> Put b (pfIndex s) = Inr out \<Longrightarrow> prefetch_step p s (after_put b out (s\<lparr>puts := b # puts s\<rparr>))"
| put_wake: "(b, ticket) \<in> set (putters s) \<Longrightarrow> ticket < stateCond (pfIndex s) \<Longrightarrow> Put_loop b (pfIndex s) = Inr out \<Longrightarrow>
    prefetch_step p s (after_put b out (s\<lparr>putters := remove1 (b, ticket) (putters s)\<rparr>))"
| put_force: "in_partition p b \<Longrightarrow> PutForce b (pfIndex s) = Inr (pi, e) \<Longrightarrow> prefetch_step p s (s\<lparr>pfIndex := pi, puts := b # puts s\<rparr>)"
| fire: "tb \<in> set (running (pfIndex s)) \<Longrightarrow> prefetch_step p s (s\<lparr>firedTimers := tb # firedTimers s\<rparr>)"
| expire: "tb \<in> set (firedTimers s) \<Longrightarrow> ttl_handler tb (pfIndex s) = Inr pi \<Longrightarrow>
    prefetch_step p s (s\<lparr>pfIndex := pi, firedTimers := remove1 tb (firedTimers s)\<rparr>)"
| cancel: "prefetch_step p s (s\<lparr>pfIndex := Stop_cancel (pfIndex s), stopping := True\<rparr>)"
| stop: "stopping s \<Longrightarrow> Stop_locked (pfIndex s) = Inr pi \<Longrightarrow> prefetch_step p s (s\<lparr>pfIndex := pi, stopping := False\<rparr>)"

abbreviation prefetch_reachable :: "ShardPrimary \<Rightarrow> int \<Rightarrow> PrefetchState \<Rightarrow> bool" where
  "prefetch_reachable p maxSize \<equiv> (prefetch_step p)\<^sup>*\<^sup>* (prefetch_start p maxSize)"

subsection \<open>Its invariant\<close>

text \<open>
  A caller that waits and that no broadcast has reached since, has nothing to wake for, unless \<open>Stop\<close> is on its way.
\<close>

definition popper_ok :: "ShardPrimary \<Rightarrow> PrefetchState \<Rightarrow> popper \<Rightarrow> bool" where
  "popper_ok p s w \<longleftrightarrow>
     in_partition p (popId w) \<and> popId w \<in> set (asked s) \<and>
     (popRequested w \<and> popId w \<in> set (requested s) \<or> \<not> popRequested w \<and> 0 < popMonitors w) \<and>
     popTicket w \<le> stateCond (pfIndex s) \<and>
     (popTicket w = stateCond (pfIndex s) \<longrightarrow>
        (if cancelled (pfIndex s) then stopping s else found (pfIndex s) (batch_key (popId w)) = None))"

definition putter_ok :: "ShardPrimary \<Rightarrow> PrefetchState \<Rightarrow> SimpleBatch \<times> nat \<Rightarrow> bool" where
  "putter_ok p s bt \<longleftrightarrow>
     in_partition p (fst bt) \<and> fst bt \<in> set (puts s) \<and> batchSizeBytes (fst bt) \<le> maxSizeBytes (pfIndex s) \<and>
     snd bt \<le> stateCond (pfIndex s) \<and>
     (snd bt = stateCond (pfIndex s) \<longrightarrow>
        (if cancelled (pfIndex s) then stopping s else put_result (fst bt) (pfIndex s) (pfIndex s) PutWaits))"

definition fired_ok :: "ShardPrimary \<Rightarrow> PrefetchState \<Rightarrow> nat \<times> SimpleBatch \<Rightarrow> bool" where
  "fired_ok p s tb \<longleftrightarrow>
     in_partition p (snd tb) \<and> fst tb < nextTimer (pfIndex s) \<and>
     (fst tb \<in> fst ` set (running (pfIndex s)) \<longrightarrow> tb \<in> set (running (pfIndex s)))"

definition prefetch_inv :: "ShardPrimary \<Rightarrow> int \<Rightarrow> PrefetchState \<Rightarrow> bool" where
  "prefetch_inv p maxSize s \<longleftrightarrow>
     index_inv p (pfIndex s) \<and> maxSizeBytes (pfIndex s) = maxSize \<and> stored (pfIndex s) \<subseteq> set (puts s) \<and>
     (stopping s \<longrightarrow> cancelled (pfIndex s)) \<and>
     (\<forall>(i, b) \<in> set (delivered s). in_partition p i \<and> in_partition p b \<and> batch_key b = batch_key i \<and> b \<in> set (puts s)) \<and>
     set (requested s) \<subseteq> set (asked s) \<and> (\<forall>i \<in> set (asked s). in_partition p i) \<and>
     (\<forall>w \<in> set (poppers s). popper_ok p s w) \<and> (\<forall>bt \<in> set (putters s). putter_ok p s bt) \<and>
     (\<forall>tb \<in> set (firedTimers s). fired_ok p s tb)"

lemma prefetch_start_inv: "0 \<le> maxSize \<Longrightarrow> prefetch_inv p maxSize (prefetch_start p maxSize)"
  using index_new(1) [of maxSize p] index_new(2) [of p maxSize] by (simp add: prefetch_inv_def prefetch_start_def) (simp add: NewPartitionPrefetchIndex_def)

lemma popper_advance:
  assumes "popper_ok p s w" "settled (pfIndex s) pi"
  shows "popper_ok p (s\<lparr>pfIndex := pi, puts := ps\<rparr>) w"
  using assms by (auto simp: popper_ok_def settled_def found_def cong: option.case_cong)

lemma putter_advance:
  assumes "putter_ok p s bt" "settled (pfIndex s) pi" "set (puts s) \<subseteq> set ps"
  shows "putter_ok p (s\<lparr>pfIndex := pi, puts := ps\<rparr>) bt"
  using assms by (auto simp: putter_ok_def settled_def put_result_def)

lemma fired_advance:
  assumes inv: "index_inv p (pfIndex s)" and ok: "fired_ok p s tb"
    and run: "set (running pi) \<subseteq> insert (nextTimer (pfIndex s), b) (set (running (pfIndex s)))" "nextTimer (pfIndex s) \<le> nextTimer pi"
  shows "fired_ok p (s\<lparr>pfIndex := pi, puts := ps\<rparr>) tb"
proof -
  have "tb \<in> set (running pi)" if t: "fst tb \<in> fst ` set (running pi)"
  proof -
    obtain b' where b': "(fst tb, b') \<in> set (running pi)"
      using t by auto
    then have old: "(fst tb, b') \<in> set (running (pfIndex s))"
      using run(1) ok by (auto simp: fired_ok_def)
    have "fst tb \<in> fst ` set (running (pfIndex s))"
      using imageI [OF old, of fst] by simp
    then have "tb \<in> set (running (pfIndex s))"
      using ok by (simp add: fired_ok_def)
    moreover have "distinct (map fst (running (pfIndex s)))"
      using inv by (simp add: index_inv_def)
    ultimately have "tb = (fst tb, b')"
      using old by (metis eq_key_imp_eq_value prod.collapse)
    then show ?thesis
      using b' by simp
  qed
  then show ?thesis
    using ok run(2) by (auto simp: fired_ok_def)
qed

lemma prefetch_advance:
  assumes inv: "prefetch_inv p maxSize s" and pi: "index_inv p pi" "settled (pfIndex s) pi" "stored pi \<subseteq> set ps" "set (puts s) \<subseteq> set ps"
    and run: "set (running pi) \<subseteq> insert (nextTimer (pfIndex s), b) (set (running (pfIndex s)))" "nextTimer (pfIndex s) \<le> nextTimer pi"
  shows "prefetch_inv p maxSize (s\<lparr>pfIndex := pi, puts := ps\<rparr>)"
proof -
  have idx: "index_inv p (pfIndex s)"
    using inv by (simp add: prefetch_inv_def)
  show ?thesis
    using inv pi popper_advance [OF _ pi(2)] putter_advance [OF _ pi(2,4)] fired_advance [OF idx _ run]
    unfolding prefetch_inv_def by (auto simp: settled_def)
qed

lemmas prefetch_advance_index = prefetch_advance [where ps = "puts s" and s = s for s, simplified]

lemma waiter_simps [simp]:
  "popper_ok p (s\<lparr>poppers := ws\<rparr>) w = popper_ok p s w" "popper_ok p (s\<lparr>putters := bts\<rparr>) w = popper_ok p s w"
  "popper_ok p (s\<lparr>firedTimers := tbs\<rparr>) w = popper_ok p s w" "popper_ok p (s\<lparr>delivered := ds\<rparr>) w = popper_ok p s w"
  "putter_ok p (s\<lparr>poppers := ws\<rparr>) bt = putter_ok p s bt" "putter_ok p (s\<lparr>putters := bts\<rparr>) bt = putter_ok p s bt"
  "putter_ok p (s\<lparr>firedTimers := tbs\<rparr>) bt = putter_ok p s bt" "putter_ok p (s\<lparr>delivered := ds\<rparr>) bt = putter_ok p s bt"
  "putter_ok p (s\<lparr>asked := is\<rparr>) bt = putter_ok p s bt" "putter_ok p (s\<lparr>requested := rs\<rparr>) bt = putter_ok p s bt"
  "fired_ok p (s\<lparr>poppers := ws\<rparr>) tb = fired_ok p s tb" "fired_ok p (s\<lparr>putters := bts\<rparr>) tb = fired_ok p s tb"
  "fired_ok p (s\<lparr>firedTimers := tbs\<rparr>) tb = fired_ok p s tb" "fired_ok p (s\<lparr>delivered := ds\<rparr>) tb = fired_ok p s tb"
  "fired_ok p (s\<lparr>asked := is\<rparr>) tb = fired_ok p s tb" "fired_ok p (s\<lparr>requested := rs\<rparr>) tb = fired_ok p s tb"
  by (simp_all add: popper_ok_def putter_ok_def fired_ok_def)

lemma popper_more: "popper_ok p s w \<Longrightarrow> popper_ok p (s\<lparr>requested := i # requested s\<rparr>) w" "popper_ok p s w \<Longrightarrow> popper_ok p (s\<lparr>asked := i # asked s\<rparr>) w"
  by (auto simp: popper_ok_def)

lemma prefetch_fields:
  assumes "prefetch_inv p maxSize s"
  shows "set ws \<subseteq> set (poppers s) \<Longrightarrow> prefetch_inv p maxSize (s\<lparr>poppers := ws\<rparr>)"
    and "set bts \<subseteq> set (putters s) \<Longrightarrow> prefetch_inv p maxSize (s\<lparr>putters := bts\<rparr>)"
    and "set tbs \<subseteq> set (firedTimers s) \<Longrightarrow> prefetch_inv p maxSize (s\<lparr>firedTimers := tbs\<rparr>)"
    and "popper_ok p s w \<Longrightarrow> prefetch_inv p maxSize (s\<lparr>poppers := w # poppers s\<rparr>)"
    and "putter_ok p s bt \<Longrightarrow> prefetch_inv p maxSize (s\<lparr>putters := bt # putters s\<rparr>)"
    and "fired_ok p s tb \<Longrightarrow> prefetch_inv p maxSize (s\<lparr>firedTimers := tb # firedTimers s\<rparr>)"
    and "in_partition p i \<Longrightarrow> prefetch_inv p maxSize (s\<lparr>asked := i # asked s\<rparr>)"
    and "i \<in> set (asked s) \<Longrightarrow> prefetch_inv p maxSize (s\<lparr>requested := i # requested s\<rparr>)"
    and "in_partition p i \<Longrightarrow> in_partition p b \<Longrightarrow> batch_key b = batch_key i \<Longrightarrow> b \<in> set (puts s) \<Longrightarrow>
      prefetch_inv p maxSize (s\<lparr>delivered := (i, b) # delivered s\<rparr>)"
  using assms popper_more [of p s] unfolding prefetch_inv_def by auto

subsection \<open>Every step keeps it\<close>

lemma after_pop_index: "after_pop i m out (s\<lparr>pfIndex := pi\<rparr>) = after_pop i m out s"
  by (simp add: after_pop_def split: prod.split pop_turn.split sum.split)

lemma after_pop_inv:
  assumes inv: "prefetch_inv p maxSize s" and i: "in_partition p i" "i \<in> set (asked s)" "was \<longrightarrow> i \<in> set (requested s)"
    and out: "PopOrWait_turn i was (pfIndex s) = Inr out"
  shows "prefetch_inv p maxSize (after_pop i m out s)"
proof -
  have idx: "index_inv p (pfIndex s)" "stored (pfIndex s) \<subseteq> set (puts s)"
    using inv by (simp_all add: prefetch_inv_def)
  obtain pi t where turn: "PopOrWait_turn i was (pfIndex s) = Inr (pi, t)" and t: "index_inv p pi" "settled (pfIndex s) pi" "stored pi \<subseteq> stored (pfIndex s)"
      "set (running pi) \<subseteq> set (running (pfIndex s))" "nextTimer pi = nextTimer (pfIndex s)" "pop_result i was (pfIndex s) pi t"
    by (rule PopOrWait_turn_spec [OF idx(1) i(1)])
  have out: "out = (pi, t)"
    using turn out by simp
  have next_inv: "prefetch_inv p maxSize (s\<lparr>pfIndex := pi\<rparr>)"
    using t idx(2) by (intro prefetch_advance_index [OF inv]) auto
  show ?thesis
  proof (cases t)
    case (PopReturns r)
    show ?thesis
    proof (cases r)
      case (Inl e)
      then show ?thesis
        using next_inv out PopReturns by (simp add: after_pop_def)
    next
      case (Inr b)
      then have "found (pfIndex s) (batch_key i) = Some b"
        using t(6) PopReturns by (simp add: pop_result_def)
      from found_stored [OF idx(1) this] have "b \<in> set (puts s)" "batch_key b = batch_key i" "in_partition p b"
        using idx(2) by auto
      then show ?thesis
        using prefetch_fields(9) [OF next_inv i(1), of b] out PopReturns Inr by (simp add: after_pop_def)
    qed
  next
    case (PopWaits request req)
    let ?s = "s\<lparr>requested := (if request then i # requested s else requested s)\<rparr>"
    let ?w = "\<lparr>popId = i, popTicket = stateCond pi, popRequested = req, popMonitors = (if req then m else m + 1)\<rparr>"
    have "pi = pfIndex s" "\<not> cancelled pi" "found pi (batch_key i) = None" "req = (was \<or> request)"
      using t(6) PopWaits by (auto simp: pop_result_def)
    then have "popper_ok p ?s ?w" "after_pop i m out s = ?s\<lparr>poppers := ?w # poppers ?s\<rparr>"
      using out PopWaits i by (auto simp: popper_ok_def after_pop_def)
    moreover have "prefetch_inv p maxSize ?s"
      using inv prefetch_fields(8) [OF inv i(2)] by simp
    ultimately show ?thesis
      using prefetch_fields(4) by metis
  qed
qed

lemma after_put_inv:
  assumes inv: "prefetch_inv p maxSize s" and b: "in_partition p b" "b \<in> set (puts s)"
    and pi: "index_inv p pi" "settled (pfIndex s) pi" "stored pi \<subseteq> insert b (stored (pfIndex s))"
      "set (running pi) \<subseteq> insert (nextTimer (pfIndex s), b) (set (running (pfIndex s)))" "nextTimer (pfIndex s) \<le> nextTimer pi"
    and waits: "r = PutWaits \<longrightarrow> batchSizeBytes b \<le> maxSizeBytes (pfIndex s) \<and> put_result b pi pi PutWaits"
  shows "prefetch_inv p maxSize (after_put b (pi, r) s)"
proof -
  have "stored pi \<subseteq> set (puts s)"
    using pi(3) b(2) inv by (auto simp: prefetch_inv_def)
  then have next_inv: "prefetch_inv p maxSize (s\<lparr>pfIndex := pi\<rparr>)"
    using pi by (intro prefetch_advance_index [OF inv]) auto
  show ?thesis
  proof (cases r)
    case PutWaits
    then have "putter_ok p (s\<lparr>pfIndex := pi\<rparr>) (b, stateCond pi)"
      using waits b pi(2) by (auto simp: putter_ok_def settled_def put_result_def)
    then show ?thesis
      using prefetch_fields(5) [OF next_inv] PutWaits by (simp add: after_put_def)
  qed (use next_inv in \<open>simp add: after_put_def\<close>)
qed

lemma cancel_inv:
  assumes "prefetch_inv p maxSize s"
  shows "prefetch_inv p maxSize (s\<lparr>pfIndex := Stop_cancel (pfIndex s), stopping := True\<rparr>)"
proof -
  have "index_inv p (Stop_cancel (pfIndex s))" "stored (Stop_cancel (pfIndex s)) = stored (pfIndex s)"
    using assms by (simp_all add: prefetch_inv_def index_inv_def Stop_cancel_def stored_def)
  then show ?thesis
    using assms by (auto simp: prefetch_inv_def popper_ok_def putter_ok_def fired_ok_def Stop_cancel_def)
qed

lemma stop_inv:
  assumes inv: "prefetch_inv p maxSize s" and stopping: "stopping s" and locked: "Stop_locked (pfIndex s) = Inr pi"
  shows "prefetch_inv p maxSize (s\<lparr>pfIndex := pi, stopping := False\<rparr>)"
proof -
  let ?pi = "broadcast (pfIndex s)"
  have stop: "index_inv p ?pi" "cancelled ?pi"
    using inv stopping by (simp_all add: prefetch_inv_def)
  from stop_timers_spec [OF stop] obtain h where "pi = ?pi\<lparr>sequenceHeap := h, running := []\<rparr>" "index_inv p pi"
    using locked by (auto simp: Stop_locked_def)
  then show ?thesis
    using inv stop(2) by (auto simp: prefetch_inv_def popper_ok_def putter_ok_def fired_ok_def stored_def)
qed

lemma monitor_inv:
  assumes inv: "prefetch_inv p maxSize s" and w: "w \<in> set (poppers s)"
  shows "prefetch_inv p maxSize (s\<lparr>pfIndex := broadcast (pfIndex s), requested := popId w # requested s,
    poppers := w\<lparr>popRequested := True, popMonitors := n\<rparr> # remove1 w (poppers s)\<rparr>)" (is "prefetch_inv p maxSize ?s'")
proof -
  have ok: "popper_ok p s w"
    using inv w by (simp add: prefetch_inv_def)
  let ?s = "s\<lparr>pfIndex := broadcast (pfIndex s)\<rparr>" and ?w = "w\<lparr>popRequested := True, popMonitors := n\<rparr>"
  have 1: "prefetch_inv p maxSize ?s"
    using inv by (intro prefetch_advance_index [OF inv]) (auto simp: prefetch_inv_def settled_def)
  have "popId w \<in> set (asked s)"
    using ok by (simp add: popper_ok_def)
  then have 2: "prefetch_inv p maxSize (?s\<lparr>requested := popId w # requested s\<rparr>)"
    using prefetch_fields(8) [OF 1] by simp
  have 3: "prefetch_inv p maxSize (?s\<lparr>requested := popId w # requested s, poppers := remove1 w (poppers s)\<rparr>)"
    by (rule prefetch_fields(1) [OF 2]) (simp add: set_remove1_subset)
  have "popper_ok p (?s\<lparr>requested := popId w # requested s, poppers := remove1 w (poppers s)\<rparr>) ?w"
    using ok by (simp add: popper_ok_def)
  from prefetch_fields(4) [OF 3 this] show ?thesis
    by simp
qed

lemma prefetch_index: "prefetch_inv p maxSize s \<Longrightarrow> index_inv p (pfIndex s)" "prefetch_inv p maxSize s \<Longrightarrow> stored (pfIndex s) \<subseteq> set (puts s)"
  by (simp_all add: prefetch_inv_def)

lemma pop_call_inv:
  assumes inv: "prefetch_inv p maxSize s" and i: "in_partition p i"
    and enter: "PopOrWait_enter i (pfIndex s) = Inr pi" and turn: "PopOrWait_turn i False pi = Inr out"
  shows "prefetch_inv p maxSize (after_pop i 0 out (s\<lparr>asked := i # asked s\<rparr>))"
proof -
  let ?s = "s\<lparr>asked := i # asked s\<rparr>"
  have inv': "prefetch_inv p maxSize ?s"
    by (rule prefetch_fields(7) [OF inv i])
  obtain pi' where "PopOrWait_enter i (pfIndex s) = Inr pi'" "index_inv p pi'" "settled (pfIndex s) pi'" "stored pi' = stored (pfIndex s)"
      "running pi' = running (pfIndex s)" "nextTimer pi' = nextTimer (pfIndex s)"
    by (rule PopOrWait_enter_spec [OF prefetch_index(1) [OF inv] i])
  with enter prefetch_index(2) [OF inv] have "prefetch_inv p maxSize (?s\<lparr>pfIndex := pi\<rparr>)"
    by (intro prefetch_advance_index [OF inv']) auto
  from after_pop_inv [OF this i, of False out] turn show ?thesis
    by (simp add: after_pop_index)
qed

lemma pop_wake_inv:
  assumes inv: "prefetch_inv p maxSize s" and w: "w \<in> set (poppers s)"
    and turn: "PopOrWait_turn (popId w) (popRequested w) (pfIndex s) = Inr out"
  shows "prefetch_inv p maxSize (after_pop (popId w) m out (s\<lparr>poppers := remove1 w (poppers s)\<rparr>))"
proof -
  have "popper_ok p s w"
    using inv w by (simp add: prefetch_inv_def)
  moreover have "prefetch_inv p maxSize (s\<lparr>poppers := remove1 w (poppers s)\<rparr>)"
    by (rule prefetch_fields(1) [OF inv set_remove1_subset])
  ultimately show ?thesis
    using turn by (intro after_pop_inv) (auto simp: popper_ok_def)
qed

lemma late_monitor_inv:
  assumes inv: "prefetch_inv p maxSize s" and "i \<in> set (asked s)"
  shows "prefetch_inv p maxSize (s\<lparr>pfIndex := broadcast (pfIndex s), requested := i # requested s\<rparr>)"
proof -
  have "prefetch_inv p maxSize (s\<lparr>pfIndex := broadcast (pfIndex s)\<rparr>)"
    using prefetch_index [OF inv] by (intro prefetch_advance_index [OF inv]) (auto simp: settled_def)
  from prefetch_fields(8) [OF this] assms(2) show ?thesis
    by simp
qed

lemma put_call_inv:
  assumes inv: "prefetch_inv p maxSize s" and b: "in_partition p b" and put: "Put b (pfIndex s) = Inr out"
  shows "prefetch_inv p maxSize (after_put b out (s\<lparr>puts := b # puts s\<rparr>))"
proof -
  note idx = prefetch_index [OF inv]
  have inv': "prefetch_inv p maxSize (s\<lparr>puts := b # puts s\<rparr>)"
    using prefetch_advance [OF inv idx(1) settled_refl, of "b # puts s"] idx(2) by auto
  obtain pi r where "Put b (pfIndex s) = Inr (pi, r)" and r: "index_inv p pi" "settled (pfIndex s) pi" "stored pi \<subseteq> insert b (stored (pfIndex s))"
      "set (running pi) \<subseteq> insert (nextTimer (pfIndex s), b) (set (running (pfIndex s)))" "nextTimer (pfIndex s) \<le> nextTimer pi"
      "r = PutWaits \<longrightarrow> batchSizeBytes b \<le> maxSizeBytes (pfIndex s) \<and> put_result b pi pi PutWaits"
    by (rule Put_spec [OF idx(1) b])
  then show ?thesis
    using after_put_inv [OF inv' b _ r(1), of r] r(2-6) put by simp
qed

lemma put_wake_inv:
  assumes inv: "prefetch_inv p maxSize s" and bt: "(b, ticket) \<in> set (putters s)" and put: "Put_loop b (pfIndex s) = Inr out"
  shows "prefetch_inv p maxSize (after_put b out (s\<lparr>putters := remove1 (b, ticket) (putters s)\<rparr>))"
proof -
  have inv': "prefetch_inv p maxSize (s\<lparr>putters := remove1 (b, ticket) (putters s)\<rparr>)"
    by (rule prefetch_fields(2) [OF inv set_remove1_subset])
  have "putter_ok p s (b, ticket)"
    using inv bt by (simp add: prefetch_inv_def)
  then have b: "in_partition p b" "b \<in> set (puts s)" "batchSizeBytes b \<le> maxSizeBytes (pfIndex s)"
    by (auto simp: putter_ok_def)
  obtain pi r where r: "out = (pi, r)" "put_frame p b (pfIndex s) pi" "put_result b (pfIndex s) pi r"
    using Put_loop_spec [OF prefetch_index(1) [OF inv] b(1,3)] put by auto
  have "put_result b pi pi PutWaits" if "r = PutWaits"
    using r(3) that by (simp add: put_result_def)
  then show ?thesis
    using after_put_inv [OF inv' b(1), of pi r] b(2,3) r(1,2) by (simp add: put_frame_def)
qed

lemma put_force_inv:
  assumes inv: "prefetch_inv p maxSize s" and b: "in_partition p b" and put: "PutForce b (pfIndex s) = Inr (pi, e)"
  shows "prefetch_inv p maxSize (s\<lparr>pfIndex := pi, puts := b # puts s\<rparr>)"
proof -
  note idx = prefetch_index [OF inv]
  obtain pi' e' where "PutForce b (pfIndex s) = Inr (pi', e')" "index_inv p pi'" "settled (pfIndex s) pi'" "stored pi' \<subseteq> insert b (stored (pfIndex s))"
      "running pi' = running (pfIndex s)" "nextTimer pi' = nextTimer (pfIndex s)"
    by (rule PutForce_spec [OF idx(1) b])
  then show ?thesis
    using put idx(2) by (intro prefetch_advance [OF inv]) auto
qed

lemma expire_inv:
  assumes inv: "prefetch_inv p maxSize s" and tb: "tb \<in> set (firedTimers s)" and ttl: "ttl_handler tb (pfIndex s) = Inr pi"
  shows "prefetch_inv p maxSize (s\<lparr>pfIndex := pi, firedTimers := remove1 tb (firedTimers s)\<rparr>)"
proof -
  note idx = prefetch_index [OF inv]
  have "fired_ok p s tb"
    using inv tb by (simp add: prefetch_inv_def)
  then have ok: "in_partition p (snd tb)" "fst tb \<in> fst ` set (running (pfIndex s)) \<Longrightarrow> (fst tb, snd tb) \<in> set (running (pfIndex s))"
    by (simp_all add: fired_ok_def)
  obtain pi' where "ttl_handler (fst tb, snd tb) (pfIndex s) = Inr pi'" "index_inv p pi'" "index_frame (pfIndex s) pi'"
      "settled (pfIndex s) pi'" "set (running pi') \<subseteq> set (running (pfIndex s))" "nextTimer pi' = nextTimer (pfIndex s)"
    by (rule ttl_handler_spec [OF idx(1) ok])
  then have "prefetch_inv p maxSize (s\<lparr>pfIndex := pi\<rparr>)"
    using ttl idx(2) by (intro prefetch_advance_index [OF inv]) (auto simp: index_frame_def)
  from prefetch_fields(3) [OF this] show ?thesis
    by (simp add: set_remove1_subset)
qed

lemma fire_inv:
  assumes inv: "prefetch_inv p maxSize s" and tb: "tb \<in> set (running (pfIndex s))"
  shows "prefetch_inv p maxSize (s\<lparr>firedTimers := tb # firedTimers s\<rparr>)"
proof (rule prefetch_fields(6) [OF inv])
  note idx = prefetch_index(1) [OF inv]
  obtain item where item: "item \<in># heap_items (pfIndex s)" "hiBatch item = snd tb"
    using running_items [OF idx] tb by auto
  have "in_partition p (snd tb)"
    using cache_lookup_key [OF index_parts(1) [OF idx] index_item [OF idx item(1)]] item(2) by simp
  moreover have "fst tb < nextTimer (pfIndex s)"
    using idx tb by (simp add: index_inv_def)
  ultimately show "fired_ok p s tb"
    using tb by (simp add: fired_ok_def)
qed

lemma prefetch_step_inv: "prefetch_step p s s' \<Longrightarrow> prefetch_inv p maxSize s \<Longrightarrow> prefetch_inv p maxSize s'"
  by (induction rule: prefetch_step.induct)
    (blast intro: pop_call_inv pop_wake_inv monitor_inv late_monitor_inv put_call_inv put_wake_inv put_force_inv fire_inv expire_inv cancel_inv stop_inv)+

lemma prefetch_reachable_inv: "prefetch_reachable p maxSize s \<Longrightarrow> 0 \<le> maxSize \<Longrightarrow> prefetch_inv p maxSize s"
  by (induction rule: rtranclp_induct) (auto intro: prefetch_start_inv prefetch_step_inv)

section \<open>What the callers get\<close>

definition no_panic :: "ShardPrimary \<Rightarrow> PrefetchState \<Rightarrow> bool" where
  "no_panic p s \<longleftrightarrow>
     (\<forall>i was. in_partition p i \<longrightarrow> (\<exists>pi out. PopOrWait_enter i (pfIndex s) = Inr pi \<and> PopOrWait_turn i was (pfIndex s) = Inr out)) \<and>
     (\<forall>b. in_partition p b \<longrightarrow> (\<exists>out out'. Put b (pfIndex s) = Inr out \<and> PutForce b (pfIndex s) = Inr out')) \<and>
     (\<forall>(b, ticket) \<in> set (putters s). \<exists>out. Put_loop b (pfIndex s) = Inr out) \<and>
     (\<forall>tb \<in> set (firedTimers s). \<exists>pi. ttl_handler tb (pfIndex s) = Inr pi) \<and>
     (stopping s \<longrightarrow> (\<exists>pi. Stop_locked (pfIndex s) = Inr pi))"

lemma prefetch_no_panic:
  assumes inv: "prefetch_inv p maxSize s"
  shows "no_panic p s"
proof -
  note idx = prefetch_index(1) [OF inv]
  have "\<exists>out. Put_loop b (pfIndex s) = Inr out" if "(b, ticket) \<in> set (putters s)" for b ticket
  proof -
    have "putter_ok p s (b, ticket)"
      using inv that by (simp add: prefetch_inv_def)
    then show ?thesis
      using Put_loop_spec [OF idx, of b] by (auto simp: putter_ok_def)
  qed
  moreover have "\<exists>pi. ttl_handler tb (pfIndex s) = Inr pi" if tb: "tb \<in> set (firedTimers s)" for tb
  proof -
    have "fired_ok p s tb"
      using inv tb by (simp add: prefetch_inv_def)
    then have "in_partition p (snd tb)" "fst tb \<in> fst ` set (running (pfIndex s)) \<Longrightarrow> (fst tb, snd tb) \<in> set (running (pfIndex s))"
      by (simp_all add: fired_ok_def)
    from ttl_handler_spec [OF idx this] show ?thesis
      by (metis prod.collapse)
  qed
  moreover have "\<exists>pi. Stop_locked (pfIndex s) = Inr pi" if "stopping s"
    using inv that stop_timers_spec [of p "broadcast (pfIndex s)"] by (auto simp: prefetch_inv_def Stop_locked_def)
  moreover have "\<exists>pi out. PopOrWait_enter i (pfIndex s) = Inr pi \<and> PopOrWait_turn i was (pfIndex s) = Inr out" if "in_partition p i" for i was
    using PopOrWait_enter_spec [OF idx that] PopOrWait_turn_spec [OF idx that, of was] by metis
  moreover have "\<exists>out out'. Put b (pfIndex s) = Inr out \<and> PutForce b (pfIndex s) = Inr out'" if "in_partition p b" for b
    using Put_spec [OF idx that] PutForce_spec [OF idx that] by metis
  ultimately show ?thesis
    by (auto simp: no_panic_def)
qed

text \<open>
  (C14) Whatever the calls, the timers and the stops, in whatever order: no call panics; every batch that a caller of
  \<^verbatim>\<open>PopOrWait\<close> is given is one that was put in, with the shard, primary, sequence and digest it asked for;
  the streamed batches fit the size of the index; and a caller that waits has requested its batch from the fetcher, or has a
  monitor running that will.
\<close>

theorem prefetch_safe:
  assumes "0 \<le> maxSize" "prefetch_reachable p maxSize s"
  shows "no_panic p s \<and>
    (\<forall>(i, b) \<in> set (delivered s). BatchIDEqual i b \<and> b \<in> set (puts s)) \<and>
    (\<Sum>k \<in> streamed (pfIndex s). batchSizeBytes (the (cache_lookup (piCache (pfIndex s)) k))) \<le> maxSize \<and>
    (\<forall>w \<in> set (poppers s). popId w \<in> set (requested s) \<or> 0 < popMonitors w)"
proof -
  have inv: "prefetch_inv p maxSize s"
    by (rule prefetch_reachable_inv [OF assms(2,1)])
  have "bcSizeBytes (piCache (pfIndex s)) \<le> maxSize" "cache_inv p (piCache (pfIndex s))"
    using inv by (auto simp: prefetch_inv_def index_inv_def)
  then have "(\<Sum>k \<in> streamed (pfIndex s). batchSizeBytes (the (cache_lookup (piCache (pfIndex s)) k))) \<le> maxSize"
    by (simp add: cache_inv_def)
  moreover have "BatchIDEqual i b \<and> b \<in> set (puts s)" if "(i, b) \<in> set (delivered s)" for i b
  proof -
    have "in_partition p i \<and> in_partition p b \<and> batch_key b = batch_key i \<and> b \<in> set (puts s)"
      using inv that by (auto simp: prefetch_inv_def)
    then show ?thesis
      by (auto simp: BatchIDEqual_def in_partition_def batch_key_def)
  qed
  moreover have "\<forall>w \<in> set (poppers s). popper_ok p s w"
    using inv by (simp add: prefetch_inv_def)
  ultimately show ?thesis
    using prefetch_no_panic [OF inv] by (auto simp: popper_ok_def)
qed

text \<open>
  (C15) No wake-up is lost. Unless a \<^verbatim>\<open>Stop\<close> has cancelled the context and not taken the lock yet, a caller that waits and that
  no broadcast has reached would only wait again if it ran: its batch is not there, or there is no room for the batch that
  it puts in ahead of the callers of \<^verbatim>\<open>PopOrWait\<close>, and then a timer is running that makes room. In particular, every caller
  of a stopped index has been woken.
\<close>

theorem prefetch_no_lost_wakeup:
  assumes "0 \<le> maxSize" "prefetch_reachable p maxSize s" "\<not> stopping s"
  shows "(\<forall>w \<in> set (poppers s). popTicket w = stateCond (pfIndex s) \<longrightarrow>
      \<not> cancelled (pfIndex s) \<and> (\<exists>request. PopOrWait_turn (popId w) (popRequested w) (pfIndex s) = Inr (pfIndex s, PopWaits request (popRequested w \<or> request)))) \<and>
    (\<forall>(b, ticket) \<in> set (putters s). ticket = stateCond (pfIndex s) \<longrightarrow>
      \<not> cancelled (pfIndex s) \<and> Put_loop b (pfIndex s) = Inr (pfIndex s, PutWaits) \<and> running (pfIndex s) \<noteq> [])"
proof (intro conjI ballI)
  have inv: "prefetch_inv p maxSize s"
    by (rule prefetch_reachable_inv [OF assms(2,1)])
  note idx = prefetch_index(1) [OF inv]
  {
    fix w
    assume "w \<in> set (poppers s)"
    then have ok: "popper_ok p s w"
      using inv by (simp add: prefetch_inv_def)
    then have "in_partition p (popId w)"
      by (simp add: popper_ok_def)
    then obtain pi t where t: "PopOrWait_turn (popId w) (popRequested w) (pfIndex s) = Inr (pi, t)" "pop_result (popId w) (popRequested w) (pfIndex s) pi t"
      using PopOrWait_turn_spec [OF idx] by metis
    then show "popTicket w = stateCond (pfIndex s) \<longrightarrow>
      \<not> cancelled (pfIndex s) \<and> (\<exists>request. PopOrWait_turn (popId w) (popRequested w) (pfIndex s) = Inr (pfIndex s, PopWaits request (popRequested w \<or> request)))"
      using ok assms(3) by (auto simp: popper_ok_def pop_result_def split: if_splits pop_turn.splits sum.splits)
  }
  fix bt
  assume "bt \<in> set (putters s)"
  then have ok: "putter_ok p s bt"
    using inv by (simp add: prefetch_inv_def)
  show "case bt of (b, ticket) \<Rightarrow> ticket = stateCond (pfIndex s) \<longrightarrow>
      \<not> cancelled (pfIndex s) \<and> Put_loop b (pfIndex s) = Inr (pfIndex s, PutWaits) \<and> running (pfIndex s) \<noteq> []"
  proof (clarify)
    fix b ticket
    assume "bt = (b, stateCond (pfIndex s))"
    then have b: "\<not> cancelled (pfIndex s)" "put_result b (pfIndex s) (pfIndex s) PutWaits" "batchSizeBytes b \<le> maxSizeBytes (pfIndex s)"
      using ok assms(3) by (auto simp: putter_ok_def split: if_splits)
    then have "hData (sequenceHeap (pfIndex s)) \<noteq> []"
      using heap_nonempty [OF idx] by (simp add: put_result_def)
    then show "\<not> cancelled (pfIndex s) \<and> Put_loop b (pfIndex s) = Inr (pfIndex s, PutWaits) \<and> running (pfIndex s) \<noteq> []"
      using b running_items [OF idx] by (auto simp: put_result_def Put_loop.simps [of b])
  qed
qed

lemma found_returns:
  assumes inv: "index_inv p pi" and live: "\<not> cancelled pi" and i: "in_partition p i" "found pi (batch_key i) = Some b"
  shows "\<exists>pi'. PopOrWait_turn i was pi = Inr (pi', PopReturns (Inr b))"
proof -
  obtain pi' t where "PopOrWait_turn i was pi = Inr (pi', t)" "pop_result i was pi pi' t"
    using PopOrWait_turn_spec [OF inv i(1), of was] by metis
  then show ?thesis
    using live i(2) by (auto simp: pop_result_def split: pop_turn.splits sum.splits)
qed

text \<open>
  A batch that is not ahead of the callers, that is, whose sequence is at most the highest one that a caller has asked for,
  never waits for room. The comments in the body of \<^verbatim>\<open>Put\<close> say so, and the tests of the index
  (\<^verbatim>\<open>raiseMaxPoppedSeq\<close>) rely on it; item 6a of the comment of the type has the comparison the other way round.
\<close>

lemma put_not_ahead:
  assumes "0 \<le> maxSize" "prefetch_reachable p maxSize s" "in_partition p b" "\<not> cancelled (pfIndex s)"
    "batchSizeBytes b \<le> maxSize" "batch_key b \<notin> streamed (pfIndex s)" "Seq b \<le> maxPoppedCallSeq (pfIndex s)"
  shows "\<exists>pi. Put b (pfIndex s) = Inr (pi, PutReturns None) \<and> cache_lookup (piCache pi) (batch_key b) = Some b \<and>
    oldest_left b (pfIndex s) pi \<and> stateCond (pfIndex s) < stateCond pi \<and>
    (\<forall>i was. BatchIDEqual i b \<longrightarrow> (\<exists>pi'. PopOrWait_turn i was pi = Inr (pi', PopReturns (Inr b))))"
proof -
  have inv: "prefetch_inv p maxSize s"
    by (rule prefetch_reachable_inv [OF assms(2,1)])
  let ?pi = "(pfIndex s)\<lparr>lastPutSeqRequest := Seq b\<rparr>"
  have idx: "index_inv p (pfIndex s)" "index_inv p ?pi" "maxSizeBytes (pfIndex s) = maxSize"
    using inv by (simp_all add: prefetch_inv_def index_inv_def)
  then obtain pi r where r: "Put_loop b ?pi = Inr (pi, r)" "put_frame p b ?pi pi" "put_result b ?pi pi r"
    using Put_loop_spec [of p ?pi b] assms(3,5) by auto
  have "Put b (pfIndex s) = Inr (pi, r)"
    using r(1) assms(5,6) idx(3) partition_ok [OF idx(1) assms(3)] cache_Has_spec [OF index_parts(1) [OF idx(1)] assms(3)]
    by (auto simp: Put_def dom_def)
  moreover have ret: "r = PutReturns None" "cache_lookup (piCache pi) (batch_key b) = Some b" "stateCond (pfIndex s) < stateCond pi"
    using r(3) assms(4,6,7) by (auto simp: put_result_def split: put_turn.splits option.splits)
  moreover have "oldest_left b (pfIndex s) pi" "index_inv p pi" "\<not> cancelled pi"
    using r(2) assms(4) by (simp_all add: put_frame_def oldest_left_def settled_def)
  moreover have "in_partition p i \<and> found pi (batch_key i) = Some b" if "BatchIDEqual i b" for i :: BatchID
    using that assms(3) ret(2) by (simp add: BatchIDEqual_def in_partition_def batch_key_def found_def)
  ultimately show ?thesis
    using found_returns [of p pi] by blast
qed

text \<open>
  (C16) The batch that the callers wait for gets into the index. Let the sequence of a batch be the highest one that a caller
  has asked for, let the index not be stopped, and let the batch not be in the index and not be larger than the index may
  become. Then \<^verbatim>\<open>Put\<close> does not wait: it returns with the batch in the index, having evicted no batch that is after one
  that stays, and having woken the callers, and the next turn of a \<^verbatim>\<open>PopOrWait\<close> for it returns it.
\<close>

theorem put_progress:
  assumes "0 \<le> maxSize" "prefetch_reachable p maxSize s" "in_partition p b" "\<not> cancelled (pfIndex s)"
    "batchSizeBytes b \<le> maxSize" "batch_key b \<notin> streamed (pfIndex s)" "Seq b = maxPoppedCallSeq (pfIndex s)"
  shows "\<exists>pi. Put b (pfIndex s) = Inr (pi, PutReturns None) \<and> cache_lookup (piCache pi) (batch_key b) = Some b \<and>
    oldest_left b (pfIndex s) pi \<and> stateCond (pfIndex s) < stateCond pi \<and>
    (\<forall>i was. BatchIDEqual i b \<longrightarrow> (\<exists>pi'. PopOrWait_turn i was pi = Inr (pi', PopReturns (Inr b))))"
  using put_not_ahead [OF assms(1-6)] assms(7) by simp

section \<open>An example\<close>

text \<open>A batch is asked for, put in, and given to the caller that waited.\<close>

definition ex_id :: BatchID where
  "ex_id = \<lparr>Shard = 1, Primary = 2, Seq = 7, Digest = [7]\<rparr>"

definition ex_asked :: PrefetchState where
  "ex_asked =
     (let s = prefetch_start ex_partition 10 in
      after_pop ex_id 0 (projr (PopOrWait_turn ex_id False (projr (PopOrWait_enter ex_id (pfIndex s))))) (s\<lparr>asked := ex_id # asked s\<rparr>))"

definition ex_put :: PrefetchState where
  "ex_put = after_put (ex_batch 7 [[1]]) (projr (Put (ex_batch 7 [[1]]) (pfIndex ex_asked))) (ex_asked\<lparr>puts := ex_batch 7 [[1]] # puts ex_asked\<rparr>)"

definition ex_given :: PrefetchState where
  "ex_given =
     (let w = hd (poppers ex_put) in
      after_pop (popId w) (popMonitors w) (projr (PopOrWait_turn (popId w) (popRequested w) (pfIndex ex_put)))
        (ex_put\<lparr>poppers := remove1 w (poppers ex_put)\<rparr>))"

lemma not_isl_projr: "\<not> isl x \<Longrightarrow> x = Inr (projr x)"
  by (cases x) simp_all

lemma ex_asked_reachable: "prefetch_reachable ex_partition 10 ex_asked"
proof -
  have "in_partition ex_partition ex_id" "\<not> isl (PopOrWait_enter ex_id (pfIndex (prefetch_start ex_partition 10)))"
    "\<not> isl (PopOrWait_turn ex_id False (projr (PopOrWait_enter ex_id (pfIndex (prefetch_start ex_partition 10)))))"
    by code_simp+
  from prefetch_step.pop_call [OF this(1) not_isl_projr [OF this(2)] not_isl_projr [OF this(3)]] show ?thesis
    unfolding ex_asked_def Let_def by (rule r_into_rtranclp)
qed

lemma ex_put_reachable: "prefetch_reachable ex_partition 10 ex_put"
proof -
  have "in_partition ex_partition (ex_batch 7 [[1]])" "\<not> isl (Put (ex_batch 7 [[1]]) (pfIndex ex_asked))"
    by code_simp+
  from prefetch_step.put_call [OF this(1) not_isl_projr [OF this(2)]] ex_asked_reachable show ?thesis
    unfolding ex_put_def by (rule rtranclp.rtrancl_into_rtrancl [rotated])
qed

lemma ex_given_reachable: "prefetch_reachable ex_partition 10 ex_given"
proof -
  let ?w = "hd (poppers ex_put)"
  have "poppers ex_put \<noteq> []" "popTicket ?w < stateCond (pfIndex ex_put)"
    "\<not> isl (PopOrWait_turn (popId ?w) (popRequested ?w) (pfIndex ex_put))"
    by code_simp+
  from prefetch_step.pop_wake [OF hd_in_set [OF this(1)] this(2) not_isl_projr [OF this(3)]] ex_put_reachable show ?thesis
    unfolding ex_given_def Let_def by (rule rtranclp.rtrancl_into_rtrancl [rotated])
qed

theorem prefetch_safe_witness:
  "delivered ex_given = [(ex_id, ex_batch 7 [[1]])] \<and> no_panic ex_partition ex_given \<and> BatchIDEqual ex_id (ex_batch 7 [[1]])"
proof -
  have given: "delivered ex_given = [(ex_id, ex_batch 7 [[1]])]"
    by code_simp
  show ?thesis
    using prefetch_safe [OF _ ex_given_reachable] given by simp
qed

theorem prefetch_no_lost_wakeup_witness:
  "poppers ex_asked \<noteq> [] \<and> \<not> cancelled (pfIndex ex_asked) \<and> (\<exists>request. PopOrWait_turn ex_id False (pfIndex ex_asked) = Inr (pfIndex ex_asked, PopWaits request request))"
proof -
  let ?w = "hd (poppers ex_asked)"
  have ex: "poppers ex_asked \<noteq> []" "popTicket ?w = stateCond (pfIndex ex_asked)" "popId ?w = ex_id" "popRequested ?w = False" "\<not> stopping ex_asked"
    by code_simp+
  show ?thesis
    using prefetch_no_lost_wakeup [OF _ ex_asked_reachable ex(5)] hd_in_set [OF ex(1)] ex(1-4) by fastforce
qed

theorem put_progress_witness:
  "\<exists>pi. Put (ex_batch 7 [[1]]) (pfIndex ex_asked) = Inr (pi, PutReturns None) \<and> cache_lookup (piCache pi) (7, [7]) = Some (ex_batch 7 [[1]])"
proof -
  have ex: "in_partition ex_partition (ex_batch 7 [[1]])" "\<not> cancelled (pfIndex ex_asked)" "batchSizeBytes (ex_batch 7 [[1]]) \<le> 10"
    "cache_lookup (piCache (pfIndex ex_asked)) (7, [7]) = None" "Seq (ex_batch 7 [[1]]) = maxPoppedCallSeq (pfIndex ex_asked)"
    "batch_key (ex_batch 7 [[1]]) = (7, [7])"
    by code_simp+
  show ?thesis
    using put_progress [OF _ ex_asked_reachable ex(1-3) _ ex(5)] ex(4,6) by (auto simp: dom_def)
qed

end
