(* ===== verification/Assembler.thy ===== *)
theory Assembler
  imports Consensus Prefetch
begin

text \<open>
  The path of an assembler from the decisions of consensus to its ledger: the replicator
  (\<^verbatim>\<open>src/node/delivery/consensus_ba_deliver_client.go\<close>) turns decisions into ordered batches and skips those that the
  ledger has, the collator (\<^verbatim>\<open>src/node/assembler/collator.go\<close>) asks the prefetch index for their batches, and the ledger
  (\<^verbatim>\<open>src/node/ledger/assembler_ledger.go\<close>) appends a block for each. After a restart the replicator finds its position in
  the last block.
\<close>

section \<open>The store of blocks\<close>

text \<open>
  The block files (\<^verbatim>\<open>src/common/ledger/blkstorage/blockfile_mgr.go\<close>) are the list of the blocks in them; blocks below
  \<open>firstReadable\<close> have been pruned. The checks of an append are those of the code, input and output do not fail.
\<close>

record BlockStore =
  stBlocks :: "Block list"
  firstReadable :: u64

definition store_Height :: "BlockStore \<Rightarrow> u64" where
  "store_Height st = of_nat (length (stBlocks st))"

definition addBlock :: "(bytes \<Rightarrow> bytes) \<Rightarrow> Block \<Rightarrow> BlockStore \<Rightarrow> failure + BlockStore" where
  "addBlock sha block st =
     (case blkHeader block of
        None \<Rightarrow> Inl (Fault NilDereference)
      | Some header \<Rightarrow>
          if bhNumber header \<noteq> store_Height st then fail ''block number should have been''
          else if bhPreviousHash header \<noteq> last_hash sha (stBlocks st) [] then fail ''unexpected Previous block hash''
          else if blkData block = None then Inl (Fault NilDereference)
          else Inr (st\<lparr>stBlocks := stBlocks st @ [block]\<rparr>))"

definition ErrPruned :: error where
  "ErrPruned = ErrNew ''block has been pruned''"

definition retrieveBlockByNumber :: "u64 \<Rightarrow> BlockStore \<Rightarrow> error + Block" where
  "retrieveBlockByNumber num st =
     (let blockNum = (if num = - 1 then store_Height st - 1 else num) in
      if blockNum < firstReadable st then Inl (ErrWrap ErrPruned ''cannot serve block'')
      else if unat blockNum < length (stBlocks st) then Inr (stBlocks st ! unat blockNum)
      else Inl (ErrNew ''no such block number''))"

section \<open>The ledger of the assembler\<close>

text \<open>\<open>a_headerSize\<close> is \<^verbatim>\<open>proto.Size\<close> of a header; the counters of the metrics are numbers.\<close>

record assembler_env =
  a_sha :: "bytes \<Rightarrow> bytes"
  a_wire :: ledger_wire
  a_lib :: fabric_lib
  a_headerSize :: "BlockHeader option \<Rightarrow> nat"
  a_configBlockNumber :: u64

record AssemblerLedger =
  alStore :: BlockStore
  TransactionCount :: nat
  TransactionsSize :: nat
  BlocksSize :: nat
  BlocksCount :: nat

definition updateMetrics :: "assembler_env \<Rightarrow> Block \<Rightarrow> AssemblerLedger \<Rightarrow> AssemblerLedger" where
  "updateMetrics E block l =
     (let transactionsSize = sum_list (map length (nil_list (blkData block)));
          metadataSize = sum_list (map length (nil_list (blkMetadata block)))
      in l\<lparr>TransactionCount := TransactionCount l + length (nil_list (blkData block)),
           TransactionsSize := TransactionsSize l + transactionsSize,
           BlocksSize := BlocksSize l + (transactionsSize + metadataSize + a_headerSize E (blkHeader block)),
           BlocksCount := BlocksCount l + 1\<rparr>)"

definition AppendBlock :: "assembler_env \<Rightarrow> Block \<Rightarrow> AssemblerLedger \<Rightarrow> fault + AssemblerLedger" where
  "AppendBlock E block l =
     (case addBlock (a_sha E) block (alStore l) of
        Inl (Fault f) \<Rightarrow> Inl f
      | Inl (Err e) \<Rightarrow> Inl (Panicked ''failed to append block'')
      | Inr st \<Rightarrow> Inr (updateMetrics E block (l\<lparr>alStore := st\<rparr>)))"

text \<open>The loop over the signatures; the metadata of the first message is kept.\<close>

fun arrange_loop ::
  "Signature list \<Rightarrow> MetadataSignature list \<times> u64 list \<times> bytes option \<Rightarrow> fault + MetadataSignature list \<times> u64 list \<times> bytes option" where
  "arrange_loop [] acc = Inr acc"
| "arrange_loop (s # ss) (sigs, signers, ordererBlockMetadata) =
     (case MessageToSign_parse (sigMsg s) of
        None \<Rightarrow> Inl (Panicked ''asn1'')
      | Some msg \<Rightarrow>
          arrange_loop ss
            (sigs @ [\<lparr>msSignatureHeader = [], msSignature = sigValue s, msIdentifierHeader = msgIdentifierHeader msg\<rparr>],
             signers @ [sigID s],
             (case ordererBlockMetadata of None \<Rightarrow> Some (msgOrdererBlockMetadata msg) | Some md \<Rightarrow> Some md)))"

definition arrangeSignatures :: "OrderingInformation \<Rightarrow> fault + MetadataSignature list \<times> u64 list \<times> bytes option" where
  "arrangeSignatures orderingInfo = arrange_loop (oiSignatures orderingInfo) ([], [], None)"

definition set_signatures :: "assembler_env \<Rightarrow> MetadataSignature list \<Rightarrow> bytes option \<Rightarrow> Block \<Rightarrow> fault + Block" where
  "set_signatures E sigs ordererBlockMetadata block =
     res_bind (MarshalOrPanic (wMetadata (a_wire E)) \<lparr>mdValue = nil_bytes ordererBlockMetadata, mdSignatures = sigs\<rparr>) (\<lambda>bs.
       case blkMetadata block of
         None \<Rightarrow> Inl NilDereference
       | Some mds \<Rightarrow>
           if BlockMetadataIndex_SIGNATURES < length mds
           then Inr (block\<lparr>blkMetadata := Some (mds[BlockMetadataIndex_SIGNATURES := bs])\<rparr>)
           else Inl IndexOutOfRange)"

definition Append :: "assembler_env \<Rightarrow> SimpleBatch \<Rightarrow> OrderingInformation \<Rightarrow> AssemblerLedger \<Rightarrow> fault + AssemblerLedger" where
  "Append E batch ordInfo l =
     (case oiCommonBlock ordInfo of
        None \<Rightarrow> Inl NilDereference
      | Some commonBlock \<Rightarrow>
          res_bind (arrangeSignatures ordInfo) (\<lambda>(sigs, signers, ordererBlockMetadata).
          res_bind (set_signatures E sigs ordererBlockMetadata (commonBlock\<lparr>blkData := Some (Requests batch)\<rparr>)) (\<lambda>blockToAppend.
          AppendBlock E blockToAppend l)))"

definition IsConfigBlock :: "fabric_lib \<Rightarrow> Block \<Rightarrow> bool" where
  "IsConfigBlock L block =
     (case nil_list (blkData block) of
        [marshaledEnvelope] \<Rightarrow>
          (case UnmarshalEnvelope L marshaledEnvelope of
             Inl _ \<Rightarrow> False
           | Inr envelope \<Rightarrow>
               (case UnmarshalPayload L (envPayload envelope) of
                  Inl _ \<Rightarrow> False
                | Inr payload \<Rightarrow>
                    (case plHeader payload of
                       None \<Rightarrow> False
                     | Some header \<Rightarrow>
                         (case UnmarshalChannelHeader L (phChannelHeader header) of
                            Inl _ \<Rightarrow> False
                          | Inr hdr \<Rightarrow> chType hdr = HeaderType_CONFIG))))
      | _ \<Rightarrow> False)"

definition AppendConfig :: "assembler_env \<Rightarrow> OrderingInformation \<Rightarrow> AssemblerLedger \<Rightarrow> fault + AssemblerLedger" where
  "AppendConfig E orderingInfo l =
     (case oiCommonBlock orderingInfo of
        None \<Rightarrow> Inl (Panicked ''attempting to AppendConfig with nil block'')
      | Some configBlock \<Rightarrow>
          if \<not> IsConfigBlock (a_lib E) configBlock
          then Inl (Panicked ''attempting to AppendConfig a block which is not a config block'')
          else
            res_bind (arrangeSignatures orderingInfo) (\<lambda>(sigs, signers, ordererBlockMetadata).
            res_bind (if sigs \<noteq> [] then set_signatures E sigs ordererBlockMetadata configBlock else Inr configBlock) (\<lambda>block.
            AppendBlock E block l)))"

text \<open>What is read back on recovery.\<close>

definition LastOrderingInfo :: "assembler_env \<Rightarrow> AssemblerLedger \<Rightarrow> error + OrderingInformation option" where
  "LastOrderingInfo E l =
     (let h = store_Height (alStore l) in
      if h = 0 then Inr None
      else
        res_bind (retrieveBlockByNumber (h - 1) (alStore l)) (\<lambda>block.
        res_bind (AssemblerBatchIdOrderingInfoAndTxCountFromBlock (a_wire E) (Some block)) (\<lambda>(_, ordInfo, _).
        Inr (Some ordInfo))))"

type_synonym PartySequenceMap = "(PartyID \<times> BatchSequence) list"
type_synonym BatchFrontierMap = "(ShardID \<times> PartySequenceMap) list"

text \<open>
  The scan from the last block down: \<open>expired h\<close> says whether the deadline has passed when block \<open>h - 1\<close> was counted, and
  \<open>counter\<close> is the number of combinations that are missing.
\<close>

fun frontier_loop ::
  "assembler_env \<Rightarrow> ShardID list \<Rightarrow> PartyID list \<Rightarrow> (nat \<Rightarrow> bool) \<Rightarrow> BlockStore \<Rightarrow> nat \<Rightarrow> int \<Rightarrow> BatchFrontierMap \<Rightarrow> error + BatchFrontierMap" where
  "frontier_loop E shards parties expired st 0 counter shardParty2Seq = Inr shardParty2Seq"
| "frontier_loop E shards parties expired st (Suc h) counter shardParty2Seq =
     res_bind (retrieveBlockByNumber (of_nat h) st) (\<lambda>block.
     res_bind (AssemblerBatchIdOrderingInfoAndTxCountFromBlock (a_wire E) (Some block)) (\<lambda>(batchID, _, _).
       if Shard batchID = ShardIDConsensus \<or> Primary batchID = 0
       then frontier_loop E shards parties expired st h counter shardParty2Seq
       else if Primary batchID \<notin> set parties \<or> Shard batchID \<notin> set shards
       then frontier_loop E shards parties expired st h counter shardParty2Seq
       else
         let shardMap = (case map_of shardParty2Seq (Shard batchID) of None \<Rightarrow> [] | Some m \<Rightarrow> m);
             frontier = (case map_of shardParty2Seq (Shard batchID) of
                 None \<Rightarrow> AList.update (Shard batchID) [] shardParty2Seq | Some _ \<Rightarrow> shardParty2Seq)
         in if map_of shardMap (Primary batchID) \<noteq> None
            then frontier_loop E shards parties expired st h counter frontier
            else
              let frontier' = AList.update (Shard batchID) (AList.update (Primary batchID) (Seq batchID) shardMap) frontier in
              if counter - 1 = 0 then Inr frontier'
              else if expired (Suc h) then Inr frontier'
              else frontier_loop E shards parties expired st h (counter - 1) frontier'))"

definition BatchFrontier ::
  "assembler_env \<Rightarrow> ShardID list \<Rightarrow> PartyID list \<Rightarrow> (nat \<Rightarrow> bool) \<Rightarrow> AssemblerLedger \<Rightarrow> error + BatchFrontierMap option" where
  "BatchFrontier E shards parties expired l =
     (let height = store_Height (alStore l) in
      if height = 0 then Inr None
      else
        res_bind (frontier_loop E shards parties expired (alStore l) (unat height) (int (length shards) * int (length parties)) []) (\<lambda>frontier.
        Inr (Some frontier)))"

section \<open>From decisions to ordered batches\<close>

record AssemblerConsensusPosition =
  posDecisionNum :: DecisionNum
  posBatchIndex :: int

definition createAssemblerConsensusPosition :: "OrderingInformation option \<Rightarrow> AssemblerConsensusPosition" where
  "createAssemblerConsensusPosition ordInfo =
     (case ordInfo of
        None \<Rightarrow> \<lparr>posDecisionNum = 0, posBatchIndex = 0\<rparr>
      | Some oi \<Rightarrow>
          if oiBatchIndex oi \<noteq> oiBatchCount oi - 1
          then \<lparr>posDecisionNum = oiDecisionNum oi, posBatchIndex = oiBatchIndex oi + 1\<rparr>
          else \<lparr>posDecisionNum = oiDecisionNum oi + 1, posBatchIndex = 0\<rparr>)"

definition extractHeaderAndSigsFromBlock :: "assembler_env \<Rightarrow> Block \<Rightarrow> error + Header \<times> Signature list list" where
  "extractHeaderAndSigsFromBlock E block =
     (case blkHeader block of
        None \<Rightarrow> Inl (ErrNew ''block header is nil'')
      | Some blockHeader \<Rightarrow>
          res_bind (wrap_err (\<lambda>e. ErrWrap e ''failed to extract decision from consenter block'')
            (ConsenterBlockToDecision (Some block))) (\<lambda>decision.
          res_bind (wrap_err (\<lambda>e. ErrWrap e ''failed to deserialize proposal header from block'')
            (Header_Deserialize (a_wire E) (prHeader (decProposal decision)))) (\<lambda>header.
          if bhNumber blockHeader = 0 then Inr (header, [[]])
          else
            res_bind (wrap_err (\<lambda>e. ErrWrap e ''failed to extract header signatures from compound signature'')
              (UnpackBlockHeaderSigs (decSignatures decision) (length (hAvailableCommonBlocks header)))) (\<lambda>sigs.
            Inr (header, sigs)))))"

record AvailableBatchOrdered =
  aboBatch :: BatchID
  aboInfo :: OrderingInformation

definition ordered_batch :: "assembler_env \<Rightarrow> Header \<Rightarrow> Signature list list \<Rightarrow> nat \<Rightarrow> Block \<Rightarrow> fault + AvailableBatchOrdered" where
  "ordered_batch E header sigs i acb =
     (case blkMetadata acb of
        None \<Rightarrow> Inl NilDereference
      | Some mds \<Rightarrow>
          res_bind (index mds BlockMetadataIndex_ORDERER) (\<lambda>bs.
          case AssemblerBlockMetadataFromBytes (a_wire E) (Some bs) of
            Inl e \<Rightarrow> Inl (Panicked ''Failed extracting info from metadata'')
          | Inr am \<Rightarrow>
              (case blkHeader acb of
                 None \<Rightarrow> Inl NilDereference
               | Some acbHeader \<Rightarrow>
                   res_bind (index sigs i) (\<lambda>blockSigs.
                   Inr \<lparr>aboBatch = NewAvailableBatch (amPrimary am) (amShard am) (amSeq am) (bhDataHash acbHeader),
                        aboInfo = \<lparr>oiCommonBlock = Some acb, oiSignatures = blockSigs, oiDecisionNum = hNum header,
                          oiBatchIndex = int i, oiBatchCount = int (length (hAvailableCommonBlocks header))\<rparr>\<rparr>))))"

definition already_committed :: "AssemblerConsensusPosition \<Rightarrow> AvailableBatchOrdered \<Rightarrow> bool" where
  "already_committed pos abo \<longleftrightarrow>
     oiDecisionNum (aboInfo abo) = posDecisionNum pos \<and> oiBatchIndex (aboInfo abo) < posBatchIndex pos"

definition blockHandlerFunc :: "assembler_env \<Rightarrow> AssemblerConsensusPosition \<Rightarrow> Block \<Rightarrow> fault + AvailableBatchOrdered list" where
  "blockHandlerFunc E initPosition block =
     (case extractHeaderAndSigsFromBlock E block of
        Inl e \<Rightarrow> Inl (Panicked ''Failed extracting ordered batch attestation from decision'')
      | Inr (header, sigs) \<Rightarrow>
          res_bind (map_res (\<lambda>(i, acb). ordered_batch E header sigs i acb) (List.enumerate 0 (hAvailableCommonBlocks header))) (\<lambda>abos.
          Inr (filter (\<lambda>abo. \<not> already_committed initPosition abo) abos)))"

text \<open>
  A connection to the consenter: it asks for the decisions from the position of the ledger at that time, and gets some of
  them before it breaks; a decision without data breaks it. The replicator connects again and again.
\<close>

definition ledger_position :: "assembler_env \<Rightarrow> AssemblerLedger \<Rightarrow> fault + AssemblerConsensusPosition" where
  "ledger_position E l =
     (case LastOrderingInfo E l of
        Inl e \<Rightarrow> Inl (Panicked ''Failed fetching last ordering info'')
      | Inr ordInfo \<Rightarrow> Inr (createAssemblerConsensusPosition ordInfo))"

definition pullBlocks ::
  "assembler_env \<Rightarrow> AssemblerConsensusPosition \<Rightarrow> Block list \<Rightarrow> AssemblerLedger \<times> nat \<Rightarrow> fault + AvailableBatchOrdered list" where
  "pullBlocks E initPosition decisions = (\<lambda>(l, received).
     res_bind (ledger_position E l) (\<lambda>position.
     res_bind (map_res (blockHandlerFunc E initPosition)
       (takeWhile (\<lambda>b. nil_list (blkData b) \<noteq> []) (take received (drop (unat (posDecisionNum position)) decisions)))) (\<lambda>aboss.
     Inr (concat aboss))))"

definition Replicate ::
  "assembler_env \<Rightarrow> Block list \<Rightarrow> AssemblerLedger \<Rightarrow> (AssemblerLedger \<times> nat) list \<Rightarrow> fault + AvailableBatchOrdered list" where
  "Replicate E decisions l connections =
     res_bind (ledger_position E l) (\<lambda>initPosition.
     res_bind (map_res (pullBlocks E initPosition decisions) connections) (\<lambda>aboss.
     Inr (concat aboss)))"

section \<open>Collation\<close>

text \<open>
  The answers of the prefetch index are given with the ordered batches. \<open>AppendConfig\<close> writes the signatures into the block that it is
  given, so the config block that is processed next is the one that was appended.
\<close>

datatype collator_end = ChannelClosed | NewConfig Block | Cancelled

fun processOrderedBatchAttestations ::
  "assembler_env \<Rightarrow> (AvailableBatchOrdered \<times> (error + SimpleBatch)) list \<Rightarrow> AssemblerLedger \<Rightarrow> fault + AssemblerLedger \<times> collator_end" where
  "processOrderedBatchAttestations E [] l = Inr (l, ChannelClosed)"
| "processOrderedBatchAttestations E ((oba, answer) # obas) l =
     (if Shard (aboBatch oba) = ShardIDConsensus then
        res_bind (AppendConfig E (aboInfo oba) l) (\<lambda>l'.
          case oiCommonBlock (aboInfo oba) of
            None \<Rightarrow> Inl NilDereference
          | Some configBlock \<Rightarrow>
              if (case blkHeader configBlock of None \<Rightarrow> 0 | Some h \<Rightarrow> bhNumber h) > a_configBlockNumber E
              then Inr (l', NewConfig (last (stBlocks (alStore l'))))
              else processOrderedBatchAttestations E obas l')
      else
        (case answer of
           Inl e \<Rightarrow>
             if errors_Is e ErrOperationCancelled then Inr (l, Cancelled)
             else Inl (Panicked ''Something went wrong while fetching the batch'')
         | Inr batch \<Rightarrow>
             res_bind (Append E batch (aboInfo oba) l) (\<lambda>l'. processOrderedBatchAttestations E obas l')))"

section \<open>What is appended, and what is read back\<close>

lemma AppendBlock_spec:
  assumes "AppendBlock E block l = Inr l'"
  shows "stBlocks (alStore l') = stBlocks (alStore l) @ [block]" "firstReadable (alStore l') = firstReadable (alStore l)"
    and "\<exists>h. blkHeader block = Some h \<and> bhNumber h = store_Height (alStore l) \<and> bhPreviousHash h = last_hash (a_sha E) (stBlocks (alStore l)) []"
  using assms
  by (auto simp: AppendBlock_def addBlock_def updateMetrics_def Let_def split: option.splits if_splits sum.splits failure.splits)

text \<open>The metadata of a common block says where in which decision it is, as consensus verifies.\<close>

definition placed :: "assembler_env \<Rightarrow> Block \<Rightarrow> OrderingInformation \<Rightarrow> bool" where
  "placed E block oi \<longleftrightarrow>
     (case blkMetadata block of
        None \<Rightarrow> False
      | Some mds \<Rightarrow>
          BlockMetadataIndex_ORDERER < length mds \<and>
          (case AssemblerBlockMetadataFromBytes (a_wire E) (Some (mds ! BlockMetadataIndex_ORDERER)) of
             Inl _ \<Rightarrow> False
           | Inr am \<Rightarrow> amNum am = oiDecisionNum oi \<and> uint (amBatchIndex am) = oiBatchIndex oi \<and> uint (amBatchCount am) = oiBatchCount oi))"

definition signatures_readable :: "assembler_env \<Rightarrow> Block \<Rightarrow> bool" where
  "signatures_readable E block \<longleftrightarrow>
     (case GetMetadataFromBlock (a_wire E) block BlockMetadataIndex_SIGNATURES of
        Inl _ \<Rightarrow> False
      | Inr md \<Rightarrow> \<not> isl (map_res (metadata_signature (a_wire E)) (mdSignatures md)))"

definition same_place :: "OrderingInformation \<Rightarrow> OrderingInformation \<Rightarrow> bool" where
  "same_place oi oi' \<longleftrightarrow> oiDecisionNum oi = oiDecisionNum oi' \<and> oiBatchIndex oi = oiBatchIndex oi' \<and> oiBatchCount oi = oiBatchCount oi'"

lemma not_isl_iff: "\<not> isl x \<longleftrightarrow> (\<exists>y. x = Inr y)"
  by (cases x) simp_all

lemma block_info_read:
  assumes "placed E block oi" "signatures_readable E block" "blkHeader block = Some h"
  obtains bid oi' tx where "AssemblerBatchIdOrderingInfoAndTxCountFromBlock (a_wire E) (Some block) = Inr (bid, oi', tx)" "same_place oi' oi"
proof -
  obtain mds am where am: "blkMetadata block = Some mds" "BlockMetadataIndex_ORDERER < length mds"
      "AssemblerBlockMetadataFromBytes (a_wire E) (Some (mds ! BlockMetadataIndex_ORDERER)) = Inr am"
      "amNum am = oiDecisionNum oi" "uint (amBatchIndex am) = oiBatchIndex oi" "uint (amBatchCount am) = oiBatchCount oi"
    using assms(1) by (auto simp: placed_def split: option.splits sum.splits)
  obtain md sigs where md: "GetMetadataFromBlock (a_wire E) block BlockMetadataIndex_SIGNATURES = Inr md"
      "map_res (metadata_signature (a_wire E)) (mdSignatures md) = Inr sigs"
    using assms(2) by (auto simp: signatures_readable_def not_isl_iff split: sum.splits)
  have "AssemblerBatchIdOrderingInfoAndTxCountFromBlock (a_wire E) (Some block) =
    Inr (NewAvailableBatch (amPrimary am) (amShard am) (amSeq am) (bhDataHash h),
      \<lparr>oiCommonBlock = Some block, oiSignatures = sigs, oiDecisionNum = amNum am,
       oiBatchIndex = uint (amBatchIndex am), oiBatchCount = uint (amBatchCount am)\<rparr>, amTransactionCount am)"
    using am(1-3) md assms(3) by (auto simp: AssemblerBatchIdOrderingInfoAndTxCountFromBlock_def Let_def)
  then show thesis
    using that am(4-6) by (simp add: same_place_def)
qed

lemma set_signatures_spec:
  assumes "set_signatures E msigs md block = Inr block'" "wire_faithful (wMetadata (a_wire E)) \<lparr>mdValue = nil_bytes md, mdSignatures = msigs\<rparr>"
    and "\<not> isl (map_res (metadata_signature (a_wire E)) msigs)"
  shows "blkHeader block' = blkHeader block" "blkData block' = blkData block" "signatures_readable E block'" "placed E block' oi = placed E block oi"
proof -
  obtain bs mds where b: "Marshal (wMetadata (a_wire E)) \<lparr>mdValue = nil_bytes md, mdSignatures = msigs\<rparr> = Inr bs" "blkMetadata block = Some mds"
      "BlockMetadataIndex_SIGNATURES < length mds" "block' = block\<lparr>blkMetadata := Some (mds[BlockMetadataIndex_SIGNATURES := bs])\<rparr>"
    using assms(1) by (auto simp: set_signatures_def MarshalOrPanic_def wrap_err_def split: sum.splits option.splits if_splits)
  have "Unmarshal (wMetadata (a_wire E)) bs = Inr \<lparr>mdValue = nil_bytes md, mdSignatures = msigs\<rparr>"
    using assms(2) b(1) by (auto elim: wire_faithfulE)
  then show "signatures_readable E block'"
    using b(3,4) assms(3) by (auto simp: signatures_readable_def GetMetadataFromBlock_def)
  show "blkHeader block' = blkHeader block" "blkData block' = blkData block" "placed E block' oi = placed E block oi"
    using b by (auto simp: placed_def BlockMetadataIndex_SIGNATURES_def BlockMetadataIndex_ORDERER_def)
qed

lemma unat_of_nat64: "n < 2 ^ 64 \<Longrightarrow> unat (of_nat n :: u64) = n"
  by (simp add: unat_of_nat take_bit_nat_eq_self)

lemma LastOrderingInfo_appended:
  assumes "AppendBlock E block l = Inr l'" "placed E block oi" "signatures_readable E block"
    and "length (stBlocks (alStore l)) + 1 < 2 ^ 64" "firstReadable (alStore l) = 0"
  obtains oi' where "LastOrderingInfo E l' = Inr (Some oi')" "same_place oi' oi"
proof -
  note app = AppendBlock_spec [OF assms(1)]
  obtain h where header: "blkHeader block = Some h"
    using app(3) by blast
  obtain bid oi' tx where info: "AssemblerBatchIdOrderingInfoAndTxCountFromBlock (a_wire E) (Some block) = Inr (bid, oi', tx)" "same_place oi' oi"
    by (rule block_info_read [OF assms(2,3) header])
  let ?n = "length (stBlocks (alStore l))"
  have h: "store_Height (alStore l') = of_nat (?n + 1)" "store_Height (alStore l') - 1 = of_nat ?n"
    using app(1) by (simp_all add: store_Height_def)
  have n: "unat (of_nat (?n + 1) :: u64) = ?n + 1" "unat (of_nat ?n :: u64) = ?n"
    by (rule unat_of_nat64, use assms(4) in simp)+
  have "store_Height (alStore l') \<noteq> 0" "of_nat ?n \<noteq> (- 1 :: u64)"
    using n(1) unfolding h(1) by auto
  moreover from this have "retrieveBlockByNumber (store_Height (alStore l') - 1) (alStore l') = Inr block"
    unfolding h(2) using app(1,2) n(2) assms(5) by (simp add: retrieveBlockByNumber_def)
  ultimately show thesis
    using that info by (simp add: LastOrderingInfo_def Let_def)
qed

text \<open>
  What an assembler relies on to store an ordered batch: its common block says where it is, its signatures are messages that can be
  read back from the metadata of a block, and so can the signatures of a block that comes without any.
\<close>

definition storable :: "assembler_env \<Rightarrow> AvailableBatchOrdered \<Rightarrow> bool" where
  "storable E abo \<longleftrightarrow>
     (case oiCommonBlock (aboInfo abo) of
        None \<Rightarrow> False
      | Some block \<Rightarrow>
          placed E block (aboInfo abo) \<and>
          (case arrangeSignatures (aboInfo abo) of
             Inl _ \<Rightarrow> False
           | Inr (msigs, signers, md) \<Rightarrow>
               wire_faithful (wMetadata (a_wire E)) \<lparr>mdValue = nil_bytes md, mdSignatures = msigs\<rparr> \<and>
               \<not> isl (map_res (metadata_signature (a_wire E)) msigs) \<and> (msigs = [] \<longrightarrow> signatures_readable E block)))"

lemma storableE:
  assumes "storable E abo"
  obtains block msigs signers md where "oiCommonBlock (aboInfo abo) = Some block" "placed E block (aboInfo abo)"
    "arrangeSignatures (aboInfo abo) = Inr (msigs, signers, md)"
    "wire_faithful (wMetadata (a_wire E)) \<lparr>mdValue = nil_bytes md, mdSignatures = msigs\<rparr>"
    "\<not> isl (map_res (metadata_signature (a_wire E)) msigs)" "msigs = [] \<longrightarrow> signatures_readable E block"
  using assms by (auto simp: storable_def split: option.splits sum.splits)

lemma Append_block:
  assumes "storable E abo" "Append E batch (aboInfo abo) l = Inr l'"
  obtains cb block where "oiCommonBlock (aboInfo abo) = Some cb" "AppendBlock E block l = Inr l'" "placed E block (aboInfo abo)" "signatures_readable E block"
    "blkHeader block = blkHeader cb" "blkData block = Some (Requests batch)"
proof -
  obtain cb msigs signers md where cb: "oiCommonBlock (aboInfo abo) = Some cb" "placed E cb (aboInfo abo)"
      "arrangeSignatures (aboInfo abo) = Inr (msigs, signers, md)"
      "wire_faithful (wMetadata (a_wire E)) \<lparr>mdValue = nil_bytes md, mdSignatures = msigs\<rparr>"
      "\<not> isl (map_res (metadata_signature (a_wire E)) msigs)"
    by (rule storableE [OF assms(1)])
  obtain block where block: "set_signatures E msigs md (cb\<lparr>blkData := Some (Requests batch)\<rparr>) = Inr block" "AppendBlock E block l = Inr l'"
    using assms(2) cb(1,3) by (auto simp: Append_def res_bind_Inr_iff)
  show thesis
    using that [OF cb(1) block(2)] set_signatures_spec [OF block(1) cb(4,5)] cb(2) by (simp add: placed_def)
qed

lemma AppendConfig_block:
  assumes "storable E abo" "AppendConfig E (aboInfo abo) l = Inr l'"
  obtains cb block where "oiCommonBlock (aboInfo abo) = Some cb" "AppendBlock E block l = Inr l'" "placed E block (aboInfo abo)" "signatures_readable E block"
    "blkHeader block = blkHeader cb" "blkData block = blkData cb"
proof -
  obtain cb msigs signers md where cb: "oiCommonBlock (aboInfo abo) = Some cb" "placed E cb (aboInfo abo)"
      "arrangeSignatures (aboInfo abo) = Inr (msigs, signers, md)"
      "wire_faithful (wMetadata (a_wire E)) \<lparr>mdValue = nil_bytes md, mdSignatures = msigs\<rparr>"
      "\<not> isl (map_res (metadata_signature (a_wire E)) msigs)" "msigs = [] \<longrightarrow> signatures_readable E cb"
    by (rule storableE [OF assms(1)])
  obtain block where block: "(if msigs \<noteq> [] then set_signatures E msigs md cb else Inr cb) = Inr block" "AppendBlock E block l = Inr l'"
    using assms(2) cb(1,3) by (auto simp: AppendConfig_def res_bind_Inr_iff split: if_splits)
  show thesis
  proof (cases "msigs = []")
    case True
    then show thesis
      using that [OF cb(1) block(2)] block(1) cb(2,6) by simp
  next
    case False
    then have "set_signatures E msigs md cb = Inr block"
      using block(1) by simp
    from set_signatures_spec [OF this cb(4,5)] show thesis
      using that [OF cb(1) block(2)] cb(2) by simp
  qed
qed

lemma collate_append:
  "processOrderedBatchAttestations E (xs @ ys) l =
     res_bind (processOrderedBatchAttestations E xs l) (\<lambda>(l', e). if e = ChannelClosed then processOrderedBatchAttestations E ys l' else Inr (l', e))"
proof (induction E xs l rule: processOrderedBatchAttestations.induct)
  case (2 E oba answer obas l)
  show ?case
  proof (cases "Shard (aboBatch oba) = ShardIDConsensus")
    case True
    then show ?thesis
      using 2(1) by (cases "AppendConfig E (aboInfo oba) l") (auto split: option.split)
  next
    case False
    then show ?thesis
      using 2(2) by (cases answer; cases "Append E (projr answer) (aboInfo oba) l") auto
  qed
qed simp

lemma collate_split:
  assumes "processOrderedBatchAttestations E (xs @ ys) l = Inr (l', ChannelClosed)"
  obtains l1 where "processOrderedBatchAttestations E xs l = Inr (l1, ChannelClosed)" "processOrderedBatchAttestations E ys l1 = Inr (l', ChannelClosed)"
  using assms unfolding collate_append by (auto simp: res_bind_Inr_iff split: if_splits)

lemma collate_one:
  assumes "processOrderedBatchAttestations E [(oba, answer)] l = Inr (l', ChannelClosed)"
  shows "if Shard (aboBatch oba) = ShardIDConsensus then AppendConfig E (aboInfo oba) l = Inr l'
    else \<exists>batch. answer = Inr batch \<and> Append E batch (aboInfo oba) l = Inr l'"
  using assms by (auto simp: res_bind_Inr_iff split: if_splits option.splits sum.splits)

lemma appended_length:
  "Append E batch oi l = Inr l' \<Longrightarrow> length (stBlocks (alStore l')) = Suc (length (stBlocks (alStore l))) \<and> firstReadable (alStore l') = firstReadable (alStore l)"
  "AppendConfig E oi l = Inr l' \<Longrightarrow> length (stBlocks (alStore l')) = Suc (length (stBlocks (alStore l))) \<and> firstReadable (alStore l') = firstReadable (alStore l)"
  by (auto simp: Append_def AppendConfig_def res_bind_Inr_iff AppendBlock_spec(1,2) split: option.splits if_splits)

lemma collated_length:
  assumes "processOrderedBatchAttestations E feed l = Inr (l', ChannelClosed)"
  shows "length (stBlocks (alStore l')) = length (stBlocks (alStore l)) + length feed \<and> firstReadable (alStore l') = firstReadable (alStore l)"
  using assms
proof (induction feed arbitrary: l)
  case (Cons x xs)
  obtain oba answer where x: "x = (oba, answer)"
    by (cases x)
  obtain l1 where l1: "processOrderedBatchAttestations E [(oba, answer)] l = Inr (l1, ChannelClosed)"
      "processOrderedBatchAttestations E xs l1 = Inr (l', ChannelClosed)"
    using Cons.prems collate_split [of E "[x]" xs l l'] x by auto
  have "length (stBlocks (alStore l1)) = Suc (length (stBlocks (alStore l))) \<and> firstReadable (alStore l1) = firstReadable (alStore l)"
    using collate_one [OF l1(1)] appended_length by (auto split: if_splits)
  then show ?case
    using Cons.IH [OF l1(2)] by simp
qed simp

lemma collated_last:
  assumes run: "processOrderedBatchAttestations E (feed @ [(oba, answer)]) l = Inr (l', ChannelClosed)"
    and oba: "storable E oba" and l: "length (stBlocks (alStore l)) + length feed + 1 < 2 ^ 64" "firstReadable (alStore l) = 0"
  obtains oi where "LastOrderingInfo E l' = Inr (Some oi)" "same_place oi (aboInfo oba)"
proof -
  obtain l1 where l1: "processOrderedBatchAttestations E feed l = Inr (l1, ChannelClosed)"
      "processOrderedBatchAttestations E [(oba, answer)] l1 = Inr (l', ChannelClosed)"
    by (rule collate_split [OF run])
  obtain block where block: "AppendBlock E block l1 = Inr l'" "placed E block (aboInfo oba)" "signatures_readable E block"
    using collate_one [OF l1(2)] Append_block [OF oba] AppendConfig_block [OF oba] by (metis (full_types))
  show thesis
    by (rule LastOrderingInfo_appended [OF block]) (use collated_length [OF l1(1)] l that in auto)
qed

section \<open>Where a restart resumes\<close>

text \<open>
  The decision that an assembler asks for once it has appended \<open>n\<close> of the ordered batches: the one of the next batch if it
  is in the middle of a decision, and the one after the last batch otherwise.
\<close>

primrec next_decision :: "'a list list \<Rightarrow> nat \<Rightarrow> nat" where
  "next_decision [] n = 0"
| "next_decision (xs # xss) n = (if n = 0 \<or> n < length xs then 0 else Suc (next_decision xss (n - length xs)))"

text \<open>The number of ordered batches in the first decisions.\<close>

abbreviation batches_before :: "nat \<Rightarrow> 'a list list \<Rightarrow> nat" where
  "batches_before d xss \<equiv> length (concat (take d xss))"

lemma next_decision_0 [simp]: "next_decision xss 0 = 0"
  by (cases xss) simp_all

lemma next_decision_le: "batches_before (next_decision xss n) xss \<le> n"
proof (induction xss arbitrary: n)
  case (Cons xs xss)
  show ?case
    using Cons.IH [of "n - length xs"] by auto
qed simp

lemma next_decision_mono: "n \<le> n' \<Longrightarrow> next_decision xss n \<le> next_decision xss n'"
  by (induction xss arbitrary: n n') auto

lemma next_decision_less:
  "n \<le> length (concat xss) \<Longrightarrow> next_decision xss n < d \<Longrightarrow> n \<le> batches_before d xss"
proof (induction xss arbitrary: n d)
  case (Cons xs xss)
  then obtain d' where d: "d = Suc d'"
    by (cases d) auto
  have "n - length xs \<le> length (concat xss)"
    using Cons.prems(1) by simp
  from Cons.IH [OF this, of d'] show ?case
    using Cons.prems(2) d by (auto split: if_splits)
qed simp

lemma concat_locate:
  assumes "k < length (concat xss)"
  obtains d j where "d < length xss" "j < length (xss ! d)" "concat xss ! k = xss ! d ! j" "k = batches_before d xss + j"
    "next_decision xss (Suc k) = (if Suc j = length (xss ! d) then Suc d else d)"
  using assms
proof (induction xss arbitrary: k thesis)
  case (Cons xs xss)
  show ?case
  proof (cases "k < length xs")
    case True
    then show ?thesis
      by (intro Cons.prems(1) [of 0 k]) (auto simp: nth_append not_less)
  next
    case False
    then have "k - length xs < length (concat xss)"
      using Cons.prems(2) by simp
    then obtain d j where "d < length xss" "j < length (xss ! d)" "concat xss ! (k - length xs) = xss ! d ! j"
        "k - length xs = batches_before d xss + j" "next_decision xss (Suc (k - length xs)) = (if Suc j = length (xss ! d) then Suc d else d)"
      by (rule Cons.IH [rotated])
    then show ?thesis
      using False by (intro Cons.prems(1) [of "Suc d" j]) (auto simp: nth_append Suc_diff_le)
  qed
qed simp

lemma concat_drop: "concat (drop d xss) = drop (batches_before d xss) (concat xss)"
  by (metis append_eq_conv_conj append_take_drop_id concat_append)

lemma batches_before_le: "batches_before d xss \<le> length (concat xss)"
  by (metis append_take_drop_id concat_append le_add1 length_append)

lemma concat_take: "concat (take d xss) = take (batches_before d xss) (concat xss)"
  by (metis append_eq_conv_conj append_take_drop_id concat_append)

abbreviation start_position :: AssemblerConsensusPosition where
  "start_position \<equiv> \<lparr>posDecisionNum = 0, posBatchIndex = 0\<rparr>"

lemma ordered_batch_place:
  assumes "ordered_batch E header sigs i acb = Inr abo"
  shows "oiBatchIndex (aboInfo abo) = int i \<and> oiBatchCount (aboInfo abo) = int (length (hAvailableCommonBlocks header)) \<and> oiCommonBlock (aboInfo abo) = Some acb"
proof -
  obtain bs where bs: "(case AssemblerBlockMetadataFromBytes (a_wire E) (Some bs) of
      Inl e \<Rightarrow> Inl (Panicked ''Failed extracting info from metadata'')
    | Inr am \<Rightarrow>
        (case blkHeader acb of
           None \<Rightarrow> Inl NilDereference
         | Some acbHeader \<Rightarrow>
             res_bind (index sigs i) (\<lambda>blockSigs.
             Inr \<lparr>aboBatch = NewAvailableBatch (amPrimary am) (amShard am) (amSeq am) (bhDataHash acbHeader),
                  aboInfo = \<lparr>oiCommonBlock = Some acb, oiSignatures = blockSigs, oiDecisionNum = hNum header,
                    oiBatchIndex = int i, oiBatchCount = int (length (hAvailableCommonBlocks header))\<rparr>\<rparr>))) = Inr abo"
    using assms by (auto simp: ordered_batch_def res_bind_Inr_iff split: option.splits)
  then show ?thesis
    by (cases "AssemblerBlockMetadataFromBytes (a_wire E) (Some bs)"; cases "blkHeader acb") (auto simp: res_bind_Inr_iff)
qed

lemma blockHandler_spec:
  assumes "blockHandlerFunc E start_position b = Inr abos"
  shows "\<forall>j < length abos. oiBatchIndex (aboInfo (abos ! j)) = int j \<and> oiBatchCount (aboInfo (abos ! j)) = int (length abos)"
    and "blockHandlerFunc E pos b = Inr (filter (\<lambda>abo. \<not> already_committed pos abo) abos)" and "nil_list (blkData b) \<noteq> []"
proof -
  obtain header sigs abos0 where h: "extractHeaderAndSigsFromBlock E b = Inr (header, sigs)"
      "map_res (\<lambda>(i, acb). ordered_batch E header sigs i acb) (List.enumerate 0 (hAvailableCommonBlocks header)) = Inr abos0"
      "abos = filter (\<lambda>abo. \<not> already_committed start_position abo) abos0"
    using assms by (auto simp: blockHandlerFunc_def res_bind_Inr_iff split: sum.splits)
  have len: "length abos0 = length (hAvailableCommonBlocks header)"
    using map_res_length [OF h(2)] by simp
  have at: "oiBatchIndex (aboInfo (abos0 ! j)) = int j \<and> oiBatchCount (aboInfo (abos0 ! j)) = int (length abos0)" if "j < length abos0" for j
  proof -
    have "ordered_batch E header sigs j (hAvailableCommonBlocks header ! j) = Inr (abos0 ! j)"
      using h(2) that unfolding map_res_Inr_iff list_all2_conv_all_nth by (auto simp: nth_enumerate_eq len)
    then show ?thesis
      using ordered_batch_place len by simp
  qed
  then have "abos = abos0"
    using h(3) by (auto simp: already_committed_def in_set_conv_nth intro!: filter_True)
  then show "\<forall>j < length abos. oiBatchIndex (aboInfo (abos ! j)) = int j \<and> oiBatchCount (aboInfo (abos ! j)) = int (length abos)"
    and "blockHandlerFunc E pos b = Inr (filter (\<lambda>abo. \<not> already_committed pos abo) abos)"
    using at h(1,2) by (simp_all add: blockHandlerFunc_def)
  show "nil_list (blkData b) \<noteq> []"
    using h(1) by (auto simp: extractHeaderAndSigsFromBlock_def ConsenterBlockToDecision_def ConsenterBlockToProposal_def res_bind_Inr_iff nil_list_def wrap_err_def
        split: option.splits sum.splits list.splits if_splits)
qed

text \<open>The ordered batches of the decisions, each decision with its own number.\<close>

definition decided :: "assembler_env \<Rightarrow> Block list \<Rightarrow> AvailableBatchOrdered list list \<Rightarrow> bool" where
  "decided E decisions aboss \<longleftrightarrow>
     map_res (blockHandlerFunc E start_position) decisions = Inr aboss \<and> length decisions < 2 ^ 64 \<and>
     (\<forall>d < length aboss. \<forall>abo \<in> set (aboss ! d). oiDecisionNum (aboInfo abo) = of_nat d)"

lemma decided_length: "decided E decisions aboss \<Longrightarrow> length aboss = length decisions"
  by (auto simp: decided_def dest: map_res_length)

lemma decided_handler:
  assumes "decided E decisions aboss" "d < length aboss"
  shows "blockHandlerFunc E start_position (decisions ! d) = Inr (aboss ! d)" "length aboss = length decisions"
  using assms unfolding decided_def map_res_Inr_iff list_all2_conv_all_nth by simp_all

lemma pullBlocks_decided:
  assumes dec: "decided E decisions aboss" and pos: "ledger_position E l = Inr pos"
  shows "pullBlocks E init decisions (l, received) =
    Inr (concat (map (filter (\<lambda>abo. \<not> already_committed init abo)) (take received (drop (unat (posDecisionNum pos)) aboss))))"
proof -
  let ?k = "unat (posDecisionNum pos)"
  have len: "length aboss = length decisions"
    using dec by (auto simp: decided_def dest: map_res_length)
  have at: "blockHandlerFunc E start_position (decisions ! d) = Inr (aboss ! d)" if "d < length decisions" for d
    using decided_handler(1) [OF dec] that len by simp
  have "nil_list (blkData b) \<noteq> []" if "b \<in> set decisions" for b
    using that at blockHandler_spec(3) by (metis in_set_conv_nth)
  then have "\<forall>b \<in> set (take received (drop ?k decisions)). nil_list (blkData b) \<noteq> []"
    by (meson in_set_dropD in_set_takeD)
  moreover have "blockHandlerFunc E init (decisions ! d) = Inr (filter (\<lambda>abo. \<not> already_committed init abo) (aboss ! d))" if "d < length decisions" for d
    by (rule blockHandler_spec(2) [OF at [OF that]])
  then have "map_res (blockHandlerFunc E init) (take received (drop ?k decisions)) =
      Inr (map (filter (\<lambda>abo. \<not> already_committed init abo)) (take received (drop ?k aboss)))"
    unfolding map_res_Inr_iff list_all2_conv_all_nth using len by auto
  ultimately show ?thesis
    using pos by (simp add: pullBlocks_def takeWhile_eq_all_conv [THEN iffD2])
qed

lemma filter_drop:
  assumes "\<And>i. i < length xs \<Longrightarrow> P (xs ! i) \<longleftrightarrow> i < n"
  shows "filter (\<lambda>x. \<not> P x) xs = drop n xs"
proof -
  have "filter (\<lambda>x. \<not> P x) (take n xs) = []" "filter (\<lambda>x. \<not> P x) (drop n xs) = drop n xs"
    using assms by (auto simp: filter_empty_conv filter_id_conv in_set_conv_nth)
  then show ?thesis
    by (metis append_Nil append_take_drop_id filter_append)
qed

text \<open>The position of a ledger with the first \<open>n\<close> ordered batches.\<close>

definition position_after :: "AvailableBatchOrdered list list \<Rightarrow> nat \<Rightarrow> AssemblerConsensusPosition" where
  "position_after aboss n =
     \<lparr>posDecisionNum = of_nat (next_decision aboss n), posBatchIndex = int (n - batches_before (next_decision aboss n) aboss)\<rparr>"

text \<open>What the handler leaves of the decisions from the position on: the rest of the first one, and all of the others.\<close>

lemma committed_filter:
  assumes dec: "decided E decisions aboss" and d: "d < length aboss"
  shows "filter (\<lambda>abo. \<not> already_committed (position_after aboss n) abo) (aboss ! d) =
    (if d = next_decision aboss n then drop (n - batches_before d aboss) (aboss ! d) else aboss ! d)"
proof -
  let ?D = "next_decision aboss n" and ?pos = "position_after aboss n"
  have len: "length aboss < 2 ^ 64"
    using dec by (auto simp: decided_def dest: map_res_length)
  have le: "?D \<le> length aboss"
    by (induction aboss arbitrary: n) auto
  have num: "(of_nat d = (of_nat ?D :: u64)) \<longleftrightarrow> d = ?D"
    using d le len unat_of_nat64 [of d] unat_of_nat64 [of ?D] by (metis le_less_trans less_trans)
  have at: "oiBatchIndex (aboInfo (aboss ! d ! i)) = int i" "oiDecisionNum (aboInfo (aboss ! d ! i)) = of_nat d" if "i < length (aboss ! d)" for i
    using blockHandler_spec(1) [OF decided_handler(1) [OF dec d]] dec d that by (simp_all add: decided_def)
  have "already_committed ?pos (aboss ! d ! i) \<longleftrightarrow> i < (if d = ?D then n - batches_before d aboss else 0)" if "i < length (aboss ! d)" for i
    using at [OF that] num by (auto simp: already_committed_def position_after_def)
  then show ?thesis
    using filter_drop [of "aboss ! d" "already_committed ?pos"] by fastforce
qed

lemma committed_concat:
  assumes dec: "decided E decisions aboss" and n: "n \<le> length (concat aboss)" and a: "next_decision aboss n \<le> a"
  shows "concat (map (filter (\<lambda>abo. \<not> already_committed (position_after aboss n) abo)) (take r (drop a aboss))) =
    drop (max n (batches_before a aboss)) (concat (take (a + r) aboss))"
proof -
  let ?f = "filter (\<lambda>abo. \<not> already_committed (position_after aboss n) abo)" and ?D = "next_decision aboss n"
  have rest: "map ?f (take r (drop b aboss)) = take r (drop b aboss)" if "?D < b" for b r
    using that committed_filter [OF dec] by (intro nth_equalityI) auto
  have "concat (map ?f (take r (drop a aboss))) = drop (n - batches_before a aboss) (concat (take r (drop a aboss)))"
  proof (cases "a = ?D \<and> a < length aboss \<and> 0 < r")
    case True
    then obtain r' where t: "take r (drop a aboss) = aboss ! a # take r' (drop (Suc a) aboss)"
      by (cases r) (auto simp: Cons_nth_drop_Suc [symmetric])
    have "n \<le> batches_before (Suc a) aboss"
      using next_decision_less [OF n] True by simp
    then have "n - batches_before a aboss \<le> length (aboss ! a)"
      using True by (simp add: take_Suc_conv_app_nth)
    moreover have "?f (aboss ! a) = drop (n - batches_before a aboss) (aboss ! a)"
        "map ?f (take r' (drop (Suc a) aboss)) = take r' (drop (Suc a) aboss)"
      using True committed_filter [OF dec, of a n] rest [of "Suc a" r'] by simp_all
    ultimately show ?thesis
      by (simp add: t)
  next
    case False
    then consider "take r (drop a aboss) = []" | "?D < a"
      using a by (cases "a = ?D") auto
    then show ?thesis
    proof cases
      case 2
      then show ?thesis
        using next_decision_less [OF n 2] rest by simp
    qed auto
  qed
  also have "\<dots> = drop (max n (batches_before a aboss)) (concat (take (a + r) aboss))"
    by (auto simp: take_add max_def)
  finally show ?thesis .
qed

lemma empty_position: "stBlocks (alStore l) = [] \<Longrightarrow> ledger_position E l = Inr start_position"
  by (simp add: ledger_position_def LastOrderingInfo_def store_Height_def createAssemblerConsensusPosition_def)

definition empty_ledger :: AssemblerLedger where
  "empty_ledger =
     \<lparr>alStore = \<lparr>stBlocks = [], firstReadable = 0\<rparr>, TransactionCount = 0, TransactionsSize = 0, BlocksSize = 0, BlocksCount = 0\<rparr>"

lemma collated_position:
  assumes dec: "decided E decisions aboss" and small: "length (concat aboss) < 2 ^ 64" and storable: "\<forall>abo \<in> set (concat aboss). storable E abo"
    and n: "n \<le> length (concat aboss)" "length answers = length (concat aboss)"
    and run: "processOrderedBatchAttestations E (take n (zip (concat aboss) answers)) empty_ledger = Inr (l, ChannelClosed)"
  shows "ledger_position E l = Inr (position_after aboss n)"
proof (cases n)
  case 0
  then show ?thesis
    using run empty_position [of l E] by (auto simp: empty_ledger_def position_after_def)
next
  case (Suc k)
  then have k: "k < length (concat aboss)"
    using n(1) by simp
  have "take n (zip (concat aboss) answers) = take k (zip (concat aboss) answers) @ [(concat aboss ! k, answers ! k)]"
    using Suc k n(2) by (simp add: take_Suc_conv_app_nth)
  note run' = run [unfolded this]
  have "storable E (concat aboss ! k)"
    using storable nth_mem [OF k] by blast
  then obtain oi where oi: "LastOrderingInfo E l = Inr (Some oi)" "same_place oi (aboInfo (concat aboss ! k))"
    using collated_last [OF run'] small k n(2) by (auto simp: empty_ledger_def)
  obtain d j where d: "d < length aboss" "j < length (aboss ! d)" "concat aboss ! k = aboss ! d ! j" "k = batches_before d aboss + j"
      "next_decision aboss (Suc k) = (if Suc j = length (aboss ! d) then Suc d else d)"
    by (rule concat_locate [OF k])
  have at: "oiDecisionNum oi = of_nat d" "oiBatchIndex oi = int j" "oiBatchCount oi = int (length (aboss ! d))"
    using oi(2) d(1-3) dec blockHandler_spec(1) [OF decided_handler(1) [OF dec d(1)]] by (auto simp: same_place_def decided_def)
  have "int j = int (length (aboss ! d)) - 1 \<longleftrightarrow> Suc j = length (aboss ! d)"
    by linarith
  then show ?thesis
    using d at oi(1) Suc
    by (auto simp: ledger_position_def createAssemblerConsensusPosition_def position_after_def take_Suc_conv_app_nth)
qed

lemma next_decision_bound: "next_decision xss n \<le> length xss"
  by (induction xss arbitrary: n) auto

text \<open>What a connection brings to a replicator that was created on a ledger with \<open>n0\<close> batches.\<close>

lemma pullBlocks_after:
  assumes dec: "decided E decisions aboss" and n: "n0 \<le> n" "n \<le> length (concat aboss)"
    and pos: "ledger_position E l = Inr (position_after aboss n)"
  shows "pullBlocks E (position_after aboss n0) decisions (l, received) =
    Inr (drop (max n0 (batches_before (next_decision aboss n) aboss)) (concat (take (next_decision aboss n + received) aboss)))"
proof -
  have "length aboss < 2 ^ 64"
    using dec by (auto simp: decided_def dest: map_res_length)
  then have "unat (posDecisionNum (position_after aboss n)) = next_decision aboss n"
    using next_decision_bound [of aboss n] by (simp add: position_after_def unat_of_nat64)
  then show ?thesis
    using pullBlocks_decided [OF dec pos, of "position_after aboss n0" received] committed_concat [OF dec _ next_decision_mono [OF n(1)]] n
    by simp
qed

text \<open>
  (C17) An assembler that stops after any number of ordered batches and starts again resumes exactly there. From its ledger the replicator
  delivers the ordered batches that are missing, also in the middle of a decision, no more and no fewer, and the
  collator that takes them ends with the ledger that it would have without the restart.
\<close>

theorem restart_resumes:
  assumes dec: "decided E decisions aboss" and small: "length (concat aboss) < 2 ^ 64"
    and storable: "\<forall>abo \<in> set (concat aboss). storable E abo"
    and n: "n \<le> length (concat aboss)" "length answers = length (concat aboss)"
    and run: "processOrderedBatchAttestations E (take n (zip (concat aboss) answers)) empty_ledger = Inr (l, ChannelClosed)"
  shows "Replicate E decisions l [(l, length decisions)] = Inr (drop n (concat aboss)) \<and>
    processOrderedBatchAttestations E (zip (drop n (concat aboss)) (drop n answers)) l =
      processOrderedBatchAttestations E (zip (concat aboss) answers) empty_ledger"
proof
  let ?feed = "zip (concat aboss) answers"
  show "processOrderedBatchAttestations E (zip (drop n (concat aboss)) (drop n answers)) l = processOrderedBatchAttestations E ?feed empty_ledger"
    using collate_append [of E "take n ?feed" "drop n ?feed" empty_ledger] run unfolding append_take_drop_id by (simp add: drop_zip)
  show "Replicate E decisions l [(l, length decisions)] = Inr (drop n (concat aboss))"
    using collated_position [OF dec small storable n run] pullBlocks_after [OF dec order_refl n(1), of l "length decisions"]
      next_decision_le [of aboss n] decided_length [OF dec] by (simp add: Replicate_def max_def)
qed

section \<open>What the ledger becomes\<close>

text \<open>
  Ordered batches that continue a ledger of \<open>n\<close> blocks whose last one has the hash \<open>prev\<close>: the headers of their common blocks are numbered
  and linked, as consensus makes them, and the index answers with batches of the ids asked for, whose digests are those of their
  requests.
\<close>

definition continues :: "assembler_env \<Rightarrow> nat \<Rightarrow> bytes \<Rightarrow> AvailableBatchOrdered \<Rightarrow> error + SimpleBatch \<Rightarrow> BlockHeader option" where
  "continues E n prev oba answer =
     (case oiCommonBlock (aboInfo oba) of
        None \<Rightarrow> None
      | Some block \<Rightarrow>
          (case (blkHeader block, nil_list (blkMetadata block), arrangeSignatures (aboInfo oba)) of
             (Some header, mds, Inr (msigs, signers, md)) \<Rightarrow>
               if mds \<noteq> [] \<and> \<not> isl (Marshal (wMetadata (a_wire E)) \<lparr>mdValue = nil_bytes md, mdSignatures = msigs\<rparr>) \<and>
                 bhNumber header = of_nat n \<and> bhPreviousHash header = prev \<and> bhDataHash header = Digest (aboBatch oba) \<and>
                 (if Shard (aboBatch oba) = ShardIDConsensus
                  then IsConfigBlock (a_lib E) block \<and> bhNumber header \<le> a_configBlockNumber E \<and>
                    Digest (aboBatch oba) = BatchedRequests_Digest (a_sha E) (nil_list (blkData block))
                  else
                    (case answer of
                       Inl _ \<Rightarrow> False
                     | Inr batch \<Rightarrow> BatchIDEqual (aboBatch oba) batch \<and> Digest batch = BatchedRequests_Digest (a_sha E) (Requests batch)))
               then Some header else None
           | _ \<Rightarrow> None))"

fun continued :: "assembler_env \<Rightarrow> nat \<Rightarrow> bytes \<Rightarrow> (AvailableBatchOrdered \<times> (error + SimpleBatch)) list \<Rightarrow> bool" where
  "continued E n prev [] = True"
| "continued E n prev ((oba, answer) # obas) =
     (case continues E n prev oba answer of
        None \<Rightarrow> False
      | Some header \<Rightarrow> continued E (Suc n) (BlockHeaderHash (a_sha E) header) obas)"

lemma continuesE:
  assumes "continues E n prev oba answer = Some header"
  obtains block mds msigs signers md bs where
    "oiCommonBlock (aboInfo oba) = Some block" "blkHeader block = Some header" "blkMetadata block = Some mds" "mds \<noteq> []"
    "bhNumber header = of_nat n" "bhPreviousHash header = prev" "bhDataHash header = Digest (aboBatch oba)"
    "arrangeSignatures (aboInfo oba) = Inr (msigs, signers, md)"
    "Marshal (wMetadata (a_wire E)) \<lparr>mdValue = nil_bytes md, mdSignatures = msigs\<rparr> = Inr bs"
    "if Shard (aboBatch oba) = ShardIDConsensus
     then IsConfigBlock (a_lib E) block \<and> bhNumber header \<le> a_configBlockNumber E \<and>
       Digest (aboBatch oba) = BatchedRequests_Digest (a_sha E) (nil_list (blkData block))
     else \<exists>batch. answer = Inr batch \<and> BatchIDEqual (aboBatch oba) batch \<and> Digest batch = BatchedRequests_Digest (a_sha E) (Requests batch)"
proof -
  obtain block where block: "oiCommonBlock (aboInfo oba) = Some block" "blkHeader block = Some header"
    using assms by (auto simp: continues_def split: option.splits sum.splits if_splits)
  moreover obtain mds where "blkMetadata block = Some mds" "mds \<noteq> []"
    using assms block by (cases "blkMetadata block") (auto simp: continues_def nil_list_def split: sum.splits if_splits)
  moreover obtain msigs signers md bs where "arrangeSignatures (aboInfo oba) = Inr (msigs, signers, md)"
      "Marshal (wMetadata (a_wire E)) \<lparr>mdValue = nil_bytes md, mdSignatures = msigs\<rparr> = Inr bs"
    using assms block by (auto simp: continues_def not_isl_iff split: sum.splits if_splits)
  ultimately show thesis
    using that assms by (auto simp: continues_def split: sum.splits if_splits)
qed

text \<open>The block that stands for an ordered batch: the header of consensus over the data that it is the hash of.\<close>

definition block_for :: "assembler_env \<Rightarrow> AvailableBatchOrdered \<times> (error + SimpleBatch) \<Rightarrow> Block \<Rightarrow> bool" where
  "block_for E = (\<lambda>(oba, answer) block.
     \<exists>cb header. oiCommonBlock (aboInfo oba) = Some cb \<and> blkHeader cb = Some header \<and> blkHeader block = Some header \<and>
       blkData block = (if Shard (aboBatch oba) = ShardIDConsensus then blkData cb else Some (Requests (projr answer))) \<and>
       bhDataHash header = BatchedRequests_Digest (a_sha E) (nil_list (blkData block)))"

lemma IsConfigBlock_data: "IsConfigBlock L block \<Longrightarrow> blkData block \<noteq> None"
  by (cases "blkData block") (simp_all add: IsConfigBlock_def nil_list_def)

lemma AppendBlock_ok:
  assumes "blkHeader block = Some header" "bhNumber header = store_Height (alStore l)" "bhPreviousHash header = last_hash (a_sha E) (stBlocks (alStore l)) []"
    and "blkData block \<noteq> None"
  shows "\<exists>l'. AppendBlock E block l = Inr l'"
  using assms by (auto simp: AppendBlock_def addBlock_def)

lemma collate_step:
  assumes cont: "continues E (length (stBlocks (alStore l))) (last_hash (a_sha E) (stBlocks (alStore l)) []) oba answer = Some header"
  obtains block l' where "processOrderedBatchAttestations E [(oba, answer)] l = Inr (l', ChannelClosed)"
    "stBlocks (alStore l') = stBlocks (alStore l) @ [block]" "block_for E (oba, answer) block" "blkHeader block = Some header"
proof -
  obtain cb mds msigs signers md bs where c: "oiCommonBlock (aboInfo oba) = Some cb" "blkHeader cb = Some header" "blkMetadata cb = Some mds" "mds \<noteq> []"
      "bhNumber header = store_Height (alStore l)" "bhPreviousHash header = last_hash (a_sha E) (stBlocks (alStore l)) []" "bhDataHash header = Digest (aboBatch oba)"
      "arrangeSignatures (aboInfo oba) = Inr (msigs, signers, md)"
      "Marshal (wMetadata (a_wire E)) \<lparr>mdValue = nil_bytes md, mdSignatures = msigs\<rparr> = Inr bs"
      "if Shard (aboBatch oba) = ShardIDConsensus
       then IsConfigBlock (a_lib E) cb \<and> bhNumber header \<le> a_configBlockNumber E \<and> Digest (aboBatch oba) = BatchedRequests_Digest (a_sha E) (nil_list (blkData cb))
       else \<exists>batch. answer = Inr batch \<and> BatchIDEqual (aboBatch oba) batch \<and> Digest batch = BatchedRequests_Digest (a_sha E) (Requests batch)"
    unfolding store_Height_def by (rule continuesE [OF cont])
  have set: "set_signatures E msigs md (cb\<lparr>blkData := d\<rparr>) = Inr (cb\<lparr>blkData := d, blkMetadata := Some (mds[BlockMetadataIndex_SIGNATURES := bs])\<rparr>)" for d
    using c(3,4,9) by (simp add: set_signatures_def MarshalOrPanic_def BlockMetadataIndex_SIGNATURES_def)
  show thesis
  proof (cases "Shard (aboBatch oba) = ShardIDConsensus")
    case True
    let ?block = "if msigs = [] then cb else cb\<lparr>blkMetadata := Some (mds[BlockMetadataIndex_SIGNATURES := bs])\<rparr>"
    have conf: "IsConfigBlock (a_lib E) cb" "bhNumber header \<le> a_configBlockNumber E" "Digest (aboBatch oba) = BatchedRequests_Digest (a_sha E) (nil_list (blkData cb))"
      using c(10) True by simp_all
    have block: "blkHeader ?block = Some header" "blkData ?block = blkData cb"
      using c(2) by simp_all
    then obtain l' where l': "AppendBlock E ?block l = Inr l'"
      using AppendBlock_ok [OF block(1) c(5,6)] IsConfigBlock_data [OF conf(1)] by metis
    have "AppendConfig E (aboInfo oba) l = Inr l'"
      using c(1,8) conf(1) set [of "blkData cb"] l' by (auto simp: AppendConfig_def split: if_splits)
    then show thesis
      using that [of l' ?block] c(1,2,7) conf block AppendBlock_spec(1) [OF l'] True by (simp add: block_for_def)
  next
    case False
    then obtain batch where b: "answer = Inr batch" "Digest (aboBatch oba) = BatchedRequests_Digest (a_sha E) (Requests batch)"
      using c(10) by (auto simp: BatchIDEqual_def)
    let ?block = "cb\<lparr>blkData := Some (Requests batch), blkMetadata := Some (mds[BlockMetadataIndex_SIGNATURES := bs])\<rparr>"
    obtain l' where l': "AppendBlock E ?block l = Inr l'"
      using AppendBlock_ok [of ?block header l E] c(2,5,6) by auto
    have "Append E batch (aboInfo oba) l = Inr l'"
      using c(1,8) set [of "Some (Requests batch)"] l' by (simp add: Append_def)
    then show thesis
      using that [of l' ?block] c(1,2,7) b AppendBlock_spec(1) [OF l'] False by (auto simp: block_for_def)
  qed
qed

lemma last_hash_snoc: "blkHeader b = Some h \<Longrightarrow> last_hash sha (bs @ [b]) prev = BlockHeaderHash sha h"
  by (simp add: last_hash_def)

text \<open>
  (C18) The collator turns ordered batches into blocks. For ordered batches that continue the ledger, it runs to the end without a panic and
  appends one block for each, in their order: with the header that consensus made, over the requests of the batch, whose hash the
  header has. The ledger stays a hash chain.
\<close>

theorem collated_ledger:
  assumes "continued E (length (stBlocks (alStore l))) (last_hash (a_sha E) (stBlocks (alStore l)) []) feed"
    and "hash_chained (a_sha E) (stBlocks (alStore l)) []"
  shows "\<exists>l' blocks. processOrderedBatchAttestations E feed l = Inr (l', ChannelClosed) \<and>
    stBlocks (alStore l') = stBlocks (alStore l) @ blocks \<and> list_all2 (block_for E) feed blocks \<and>
    hash_chained (a_sha E) (stBlocks (alStore l')) []"
  using assms
proof (induction feed arbitrary: l)
  case (Cons x feed)
  obtain oba answer where x: "x = (oba, answer)"
    by (cases x)
  then obtain header where h: "continues E (length (stBlocks (alStore l))) (last_hash (a_sha E) (stBlocks (alStore l)) []) oba answer = Some header"
      "continued E (Suc (length (stBlocks (alStore l)))) (BlockHeaderHash (a_sha E) header) feed"
    using Cons.prems(1) by (auto split: option.splits)
  obtain block l1 where l1: "processOrderedBatchAttestations E [(oba, answer)] l = Inr (l1, ChannelClosed)"
      "stBlocks (alStore l1) = stBlocks (alStore l) @ [block]" "block_for E (oba, answer) block" "blkHeader block = Some header"
    by (rule collate_step [OF h(1)])
  have "bhPreviousHash header = last_hash (a_sha E) (stBlocks (alStore l)) []"
    by (rule continuesE [OF h(1)])
  then have "hash_chained (a_sha E) (stBlocks (alStore l1)) []"
    using Cons.prems(2) l1(2,4) by (simp add: hash_chained_snoc)
  moreover have "continued E (length (stBlocks (alStore l1))) (last_hash (a_sha E) (stBlocks (alStore l1)) []) feed"
    using h(2) l1(2) last_hash_snoc [OF l1(4)] by simp
  ultimately obtain l' blocks where "processOrderedBatchAttestations E feed l1 = Inr (l', ChannelClosed)"
      "stBlocks (alStore l') = stBlocks (alStore l1) @ blocks" "list_all2 (block_for E) feed blocks" "hash_chained (a_sha E) (stBlocks (alStore l')) []"
    using Cons.IH by blast
  then show ?case
    using l1(1-3) collate_append [of E "[x]" feed l] x by (auto intro!: exI [of _ "block # blocks"] simp del: processOrderedBatchAttestations.simps)
qed simp

section \<open>What a broken connection does\<close>

lemma set_signatures_header: "set_signatures E msigs md block = Inr block' \<Longrightarrow> blkHeader block' = blkHeader block"
  by (auto simp: set_signatures_def res_bind_Inr_iff split: option.splits if_splits)

definition common_number :: "OrderingInformation \<Rightarrow> u64 option" where
  "common_number oi = map_option bhNumber (Option.bind (oiCommonBlock oi) blkHeader)"

lemma AppendBlock_number: "AppendBlock E block l = Inr l' \<Longrightarrow> map_option bhNumber (blkHeader block) = Some (store_Height (alStore l))"
  using AppendBlock_spec(3) by fastforce

lemma appended_number:
  "Append E batch oi l = Inr l' \<Longrightarrow> common_number oi = Some (store_Height (alStore l))"
  "AppendConfig E oi l = Inr l' \<Longrightarrow> common_number oi = Some (store_Height (alStore l))"
  by (auto simp: Append_def AppendConfig_def common_number_def res_bind_Inr_iff set_signatures_header dest!: AppendBlock_number
      split: option.splits if_splits)

lemma collated_number:
  assumes "processOrderedBatchAttestations E feed l = Inr (l', ChannelClosed)" "k < length feed"
  shows "common_number (aboInfo (fst (feed ! k))) = Some (of_nat (length (stBlocks (alStore l)) + k))"
proof -
  have "processOrderedBatchAttestations E (take k feed @ [feed ! k] @ drop (Suc k) feed) l = Inr (l', ChannelClosed)"
    using assms id_take_nth_drop [OF assms(2)] by simp
  then obtain l1 where l1: "processOrderedBatchAttestations E (take k feed) l = Inr (l1, ChannelClosed)"
      and "processOrderedBatchAttestations E ([feed ! k] @ drop (Suc k) feed) l1 = Inr (l', ChannelClosed)"
    by (rule collate_split)
  from this(2) obtain l2 where "processOrderedBatchAttestations E [feed ! k] l1 = Inr (l2, ChannelClosed)"
    by (rule collate_split)
  then have l2: "processOrderedBatchAttestations E [(fst (feed ! k), snd (feed ! k))] l1 = Inr (l2, ChannelClosed)"
    by simp
  have "common_number (aboInfo (fst (feed ! k))) = Some (store_Height (alStore l1))"
    using collate_one [OF l2] appended_number by (auto split: if_splits)
  then show ?thesis
    using collated_length [OF l1] assms(2) by (simp add: store_Height_def)
qed

lemma number_mismatch_fails:
  assumes "common_number (aboInfo oba) \<noteq> Some (store_Height (alStore l))"
  shows "\<exists>f. processOrderedBatchAttestations E ((oba, Inr batch) # feed) l = Inl f"
proof (cases "Shard (aboBatch oba) = ShardIDConsensus")
  case True
  then show ?thesis
    using assms appended_number(2) [of E "aboInfo oba" l] by (cases "AppendConfig E (aboInfo oba) l") auto
next
  case False
  then show ?thesis
    using assms appended_number(1) [of E batch "aboInfo oba" l] by (cases "Append E batch (aboInfo oba) l") auto
qed

lemma redelivered_fails:
  assumes run: "processOrderedBatchAttestations E (take p (zip A answers)) empty_ledger = Inr (l', ChannelClosed)"
    and "k < p" "p \<le> length A \<and> length answers = length A \<and> length A < 2 ^ 64" "length batches = length A - k"
  shows "\<exists>f. processOrderedBatchAttestations E (zip (drop k A) (map Inr batches)) l' = Inl f"
proof -
  have "common_number (aboInfo (A ! k)) = Some (of_nat k)"
    using collated_number [OF run, of k] assms(2,3) by (simp add: empty_ledger_def)
  moreover have "store_Height (alStore l') = of_nat p"
    using collated_length [OF run] assms(3) by (simp add: store_Height_def empty_ledger_def)
  moreover have "(of_nat k :: u64) \<noteq> of_nat p"
    using unat_of_nat64 [of k] unat_of_nat64 [of p] assms(2,3) by (metis le_less_trans less_trans nat_neq_iff)
  ultimately have "common_number (aboInfo (A ! k)) \<noteq> Some (store_Height (alStore l'))"
    by simp
  from number_mismatch_fails [OF this, of E "hd batches" "zip (drop (Suc k) A) (map Inr (tl batches))"] show ?thesis
    using assms(2-4) by (cases batches) (auto simp: Cons_nth_drop_Suc [symmetric])
qed

text \<open>
  (C19) The replicator asks for the decisions from the position of the ledger each time it connects, but it skips only what the
  ledger had when it was created. Let it be created on a ledger with the first \<open>n0\<close> ordered batches, let the first connection
  bring some decisions and break, and let the ledger have the first \<open>n\<close> batches when the next connection is made, while at
  least one of those that came is not appended yet. Then the ordered batches from the start of the decision of batch \<open>n\<close> on
  (or from \<open>n0\<close> on, if that is later) are delivered a second time, among them all those that came and are not appended. A
  collator that goes on from the first ledger, and that appends the batches of the first connection, panics at the first of
  those that come again, whatever batches it is given for them.
\<close>

theorem reconnect_redelivers:
  assumes dec: "decided E decisions aboss" and small: "length (concat aboss) < 2 ^ 64"
    and storable: "\<forall>abo \<in> set (concat aboss). storable E abo" and answers: "length answers = length (concat aboss)"
    and p: "p = batches_before (next_decision aboss n0 + received) aboss" and n: "n0 \<le> n" "n < p"
    and run: "processOrderedBatchAttestations E (take n0 (zip (concat aboss) answers)) empty_ledger = Inr (l0, ChannelClosed)"
      "processOrderedBatchAttestations E (take n (zip (concat aboss) answers)) empty_ledger = Inr (l, ChannelClosed)"
      "processOrderedBatchAttestations E (take p (zip (concat aboss) answers)) empty_ledger = Inr (l', ChannelClosed)"
    and k: "k = max n0 (batches_before (next_decision aboss n) aboss)"
  shows "k \<le> n \<and>
    Replicate E decisions l0 [(l0, received), (l, length decisions)] = Inr (drop n0 (take p (concat aboss)) @ drop k (concat aboss)) \<and>
    (\<forall>batches. length batches = length (concat aboss) - k \<longrightarrow>
       (\<exists>f. processOrderedBatchAttestations E
          (zip (drop n0 (take p (concat aboss)) @ drop k (concat aboss)) (drop n0 (take p answers) @ map Inr batches)) l0 = Inl f))"
proof -
  let ?A = "concat aboss" and ?F = "zip (concat aboss) answers"
  have le: "k \<le> n" "p \<le> length ?A" "n \<le> length ?A" "n0 \<le> length ?A"
    using next_decision_le [of aboss n] n batches_before_le [of "next_decision aboss n0 + received" aboss] by (auto simp: k p)
  note pos = collated_position [OF dec small storable le(4) answers run(1)] collated_position [OF dec small storable le(3) answers run(2)]
  have "pullBlocks E (position_after aboss n0) decisions (l0, received) = Inr (drop n0 (take p ?A))"
    using pullBlocks_after [OF dec order_refl le(4) pos(1), of received] next_decision_le [of aboss n0]
    by (simp add: max_def p concat_take [symmetric])
  moreover have "pullBlocks E (position_after aboss n0) decisions (l, length decisions) = Inr (drop k ?A)"
    using pullBlocks_after [OF dec n(1) le(3) pos(2), of "length decisions"] decided_length [OF dec] by (simp add: k)
  ultimately have "Replicate E decisions l0 [(l0, received), (l, length decisions)] = Inr (drop n0 (take p ?A) @ drop k ?A)"
    using pos(1) by (simp add: Replicate_def)
  moreover have "\<exists>f. processOrderedBatchAttestations E (zip (drop n0 (take p ?A) @ drop k ?A) (drop n0 (take p answers) @ map Inr batches)) l0 = Inl f"
    if len: "length batches = length ?A - k" for batches
  proof -
    have "\<exists>f. processOrderedBatchAttestations E (zip (drop k ?A) (map Inr batches)) l' = Inl f"
      using redelivered_fails [OF run(3) _ _ len] le n(2) small answers by simp
    moreover have "take p ?F = take n0 ?F @ drop n0 (take p ?F)"
      using append_take_drop_id [of n0 "take p ?F"] n by (simp add: min_def)
    then have "take p ?F = take n0 ?F @ zip (drop n0 (take p ?A)) (drop n0 (take p answers))"
      by (simp only: take_zip drop_zip)
    then have "processOrderedBatchAttestations E (zip (drop n0 (take p ?A)) (drop n0 (take p answers))) l0 = Inr (l', ChannelClosed)"
      using run(3) collate_append [of E "take n0 ?F" _ empty_ledger] run(1) by simp
    ultimately show ?thesis
      using le answers by (auto simp: collate_append)
  qed
  ultimately show ?thesis
    using le(1) by blast
qed

section \<open>An example\<close>

text \<open>Two decisions: the first has one batch and no signatures, the second has two batches and one signer.\<close>

definition ex_common :: "bytes \<Rightarrow> Block" where
  "ex_common bs =
     \<lparr>blkHeader = Some \<lparr>bhNumber = ucast (bs ! 0), bhPreviousHash = (if bs ! 0 = 0 then [] else [7]), bhDataHash = [7]\<rparr>,
      blkData = Some [], blkMetadata = Some [[], [], [], drop 1 bs, []]\<rparr>"

definition ex_message :: bytes where
  "ex_message = MessageToSign_asn1 \<lparr>msgIdentifierHeader = [1], msgBlockHeader = [2], msgOrdererBlockMetadata = [3]\<rparr>"

definition ex_metadata :: "bytes \<Rightarrow> Metadata" where
  "ex_metadata bs =
     (if bs = [] then \<lparr>mdValue = [], mdSignatures = []\<rparr>
      else \<lparr>mdValue = [3], mdSignatures = [\<lparr>msSignatureHeader = [], msSignature = bs, msIdentifierHeader = [1]\<rparr>]\<rparr>)"

definition ex_assembler_wire :: ledger_wire where
  "ex_assembler_wire = ex_node_wire
     \<lparr>wMetadata := \<lparr>Marshal = \<lambda>m. Inr (case mdSignatures m of [] \<Rightarrow> [] | s # _ \<Rightarrow> msSignature s), Unmarshal = \<lambda>bs. Inr (ex_metadata bs)\<rparr>,
      wBlock := \<lparr>Marshal = \<lambda>_. Inr [], Unmarshal = \<lambda>bs. Inr (ex_common bs)\<rparr>,
      wHeader := \<lparr>Marshal = \<lambda>_. Inr [],
        Unmarshal = \<lambda>bs. Inr \<lparr>phNum = (if bs = [1] then 0 else 1), phDecisionNumOfLastConfigBlock = 0, phPrevHash = [],
          phAvailableCommonBlocks = (if bs = [1] then [[0, 0, 0, 1]] else [[1, 1, 0, 2], [2, 1, 1, 2]]), phState = []\<rparr>\<rparr>,
      wAssemblerBlockMetadata := \<lparr>Marshal = \<lambda>_. Inr [],
        Unmarshal = \<lambda>bs. Inr \<lparr>pmPrimary = 2, pmShard = 1, pmSequence = 7, pmDecisionNum = ucast (bs ! 0), pmBatchIndex = ucast (bs ! 1),
          pmBatchCount = ucast (bs ! 2), pmTransactionCount = 0\<rparr>\<rparr>\<rparr>"

definition ex_assembler :: assembler_env where
  "ex_assembler = \<lparr>a_sha = \<lambda>_. [7], a_wire = ex_assembler_wire, a_lib = ex_lib, a_headerSize = \<lambda>_. 3, a_configBlockNumber = 0\<rparr>"

definition ex_decision :: "u64 \<Rightarrow> bytes \<Rightarrow> Signature list \<Rightarrow> Block" where
  "ex_decision n header sigs =
     \<lparr>blkHeader = Some \<lparr>bhNumber = n, bhPreviousHash = [], bhDataHash = []\<rparr>,
      blkData = Some [ProposalToBytes \<lparr>prPayload = Some [], prHeader = Some header, prMetadata = Some [], prVerificationSequence = 0\<rparr>],
      blkMetadata = Some [DecisionSignaturesToBytes sigs]\<rparr>"

definition ex_compound_sig :: Signature where
  "ex_compound_sig = \<lparr>sigID = 1, sigValue = marshal_octets_list [[4], [5], [6]], sigMsg = marshal_octets_list [ex_message, ex_message, ex_message]\<rparr>"

definition ex_decisions :: "Block list" where
  "ex_decisions =
     [ex_decision 0 [1] [],
      ex_decision 1 [2] [ex_compound_sig]]"

definition ex_abo :: "bytes \<Rightarrow> Signature list \<Rightarrow> AvailableBatchOrdered" where
  "ex_abo bs sigs =
     \<lparr>aboBatch = NewAvailableBatch 2 1 7 [7],
      aboInfo = \<lparr>oiCommonBlock = Some (ex_common bs), oiSignatures = sigs, oiDecisionNum = ucast (bs ! 1), oiBatchIndex = uint (bs ! 2), oiBatchCount = uint (bs ! 3)\<rparr>\<rparr>"

definition ex_ordered :: "AvailableBatchOrdered list list" where
  "ex_ordered =
     [[ex_abo [0, 0, 0, 1] []],
      [ex_abo [1, 1, 0, 2] [\<lparr>sigID = 1, sigValue = [5], sigMsg = ex_message\<rparr>],
       ex_abo [2, 1, 1, 2] [\<lparr>sigID = 1, sigValue = [6], sigMsg = ex_message\<rparr>]]]"

definition ex_answers :: "(error + SimpleBatch) list" where
  "ex_answers = map (\<lambda>r. Inr ((ex_batch 7 [[r]])\<lparr>Digest := [7]\<rparr>)) [1, 2, 3]"

lemma ex_message_parse: "MessageToSign_parse ex_message = Some \<lparr>msgIdentifierHeader = [1], msgBlockHeader = [2], msgOrdererBlockMetadata = [3]\<rparr>"
  and ex_message_length: "length ex_message = 11"
proof -
  show "length ex_message = 11"
    by (simp add: ex_message_def MessageToSign_asn1_def der_seq_def der_octets_def tlv_def der_len_def)
  then show "MessageToSign_parse ex_message = Some \<lparr>msgIdentifierHeader = [1], msgBlockHeader = [2], msgOrdererBlockMetadata = [3]\<rparr>"
    unfolding ex_message_def by (intro MessageToSign_round_trip) simp
qed

lemma ex_decision_read:
  assumes "length header < 100" "signatures_fit sigs"
  shows "ConsenterBlockToDecision (Some (ex_decision n header sigs)) =
    Inr \<lparr>decProposal = \<lparr>prPayload = Some [], prHeader = Some header, prMetadata = Some [], prVerificationSequence = 0\<rparr>, decSignatures = sigs\<rparr>"
proof -
  let ?p = "\<lparr>prPayload = Some [], prHeader = Some header, prMetadata = Some [], prVerificationSequence = 0\<rparr>"
  have "BytesToProposal (ProposalToBytes ?p) = Inr ?p"
    using BytesToProposal_ToBytes [of ?p] assms(1) by (simp add: proposal_fits_def nonnil_def nil_bytes_def)
  moreover have "DecisionSignaturesToBytes sigs \<noteq> []"
    by (simp add: DecisionSignaturesToBytes_def marshal_octets_list_def der_seq_def)
  ultimately show ?thesis
    using BytesToDecisionSignatures_ToBytes [OF assms(2)]
    by (simp add: ConsenterBlockToDecision_def ConsenterBlockToProposal_def ex_decision_def BlockMetadataIndex_SIGNATURES_def)
qed

lemma ex_compound_lengths: "length (sigValue ex_compound_sig) = 11" "length (sigMsg ex_compound_sig) = 41"
  by (simp_all add: ex_compound_sig_def marshal_octets_list_def der_seq_def der_octets_def tlv_def der_len_def ex_message_length)

lemma ex_compound_unpacked:
  "UnpackBlockHeaderSigs [ex_compound_sig] 2 = Inr [[\<lparr>sigID = 1, sigValue = [5], sigMsg = ex_message\<rparr>], [\<lparr>sigID = 1, sigValue = [6], sigMsg = ex_message\<rparr>]]"
proof -
  have "unmarshal_octets_list (sigValue ex_compound_sig) = Some [[4], [5], [6]]" "unmarshal_octets_list (sigMsg ex_compound_sig) = Some [ex_message, ex_message, ex_message]"
    using ex_compound_lengths unfolding ex_compound_sig_def by (simp_all add: unmarshal_marshal_short)
  then show ?thesis
    using ex_compound_lengths
    by (simp add: UnpackBlockHeaderSigs_def unpack_party_def CompoundSig_UnPack_def of_asn1_def upt_rec) (simp add: ex_compound_sig_def)
qed

lemma ex_assembler_simps [simp]:
  "a_wire ex_assembler = ex_assembler_wire" "a_sha ex_assembler = (\<lambda>_. [7])"
  "Marshal (wMetadata ex_assembler_wire) m = Inr (case mdSignatures m of [] \<Rightarrow> [] | s # _ \<Rightarrow> msSignature s)"
  "Unmarshal (wMetadata ex_assembler_wire) bs = Inr (ex_metadata bs)"
  "Unmarshal (wBlock ex_assembler_wire) bs = Inr (ex_common bs)"
  "Unmarshal (wHeader ex_assembler_wire) bs = Inr \<lparr>phNum = (if bs = [1] then 0 else 1), phDecisionNumOfLastConfigBlock = 0, phPrevHash = [],
     phAvailableCommonBlocks = (if bs = [1] then [[0, 0, 0, 1]] else [[1, 1, 0, 2], [2, 1, 1, 2]]), phState = []\<rparr>"
  "Unmarshal (wAssemblerBlockMetadata ex_assembler_wire) bs = Inr \<lparr>pmPrimary = 2, pmShard = 1, pmSequence = 7, pmDecisionNum = ucast (bs ! 0),
     pmBatchIndex = ucast (bs ! 1), pmBatchCount = ucast (bs ! 2), pmTransactionCount = 0\<rparr>"
  "UnmarshalIdentifierHeader ex_assembler_wire bs = Inr (ucast (hd bs))"
  by (simp_all add: ex_assembler_def ex_assembler_wire_def ex_node_wire_def)

lemma ex_decision_header: "blkHeader (ex_decision n header sigs) = Some \<lparr>bhNumber = n, bhPreviousHash = [], bhDataHash = []\<rparr>"
  by (simp add: ex_decision_def)

lemma ex_extract:
  "extractHeaderAndSigsFromBlock ex_assembler (ex_decision 0 [1] []) =
     Inr (\<lparr>hNum = 0, hPrevHash = [], hAvailableCommonBlocks = [ex_common [0, 0, 0, 1]], hState = None, hDecisionNumOfLastConfigBlock = 0\<rparr>, [[]])"
  "extractHeaderAndSigsFromBlock ex_assembler (ex_decision 1 [2] [ex_compound_sig]) =
     Inr (\<lparr>hNum = 1, hPrevHash = [], hAvailableCommonBlocks = [ex_common [1, 1, 0, 2], ex_common [2, 1, 1, 2]], hState = None, hDecisionNumOfLastConfigBlock = 0\<rparr>,
       [[\<lparr>sigID = 1, sigValue = [5], sigMsg = ex_message\<rparr>], [\<lparr>sigID = 1, sigValue = [6], sigMsg = ex_message\<rparr>]])"
proof -
  have "signatures_fit []" "signatures_fit [ex_compound_sig]"
    by (simp_all add: signatures_fit_def ex_compound_lengths)
  then have "ConsenterBlockToDecision (Some (ex_decision 0 [1] [])) =
      Inr \<lparr>decProposal = \<lparr>prPayload = Some [], prHeader = Some [1], prMetadata = Some [], prVerificationSequence = 0\<rparr>, decSignatures = []\<rparr>"
    "ConsenterBlockToDecision (Some (ex_decision 1 [2] [ex_compound_sig])) =
      Inr \<lparr>decProposal = \<lparr>prPayload = Some [], prHeader = Some [2], prMetadata = Some [], prVerificationSequence = 0\<rparr>, decSignatures = [ex_compound_sig]\<rparr>"
    by (intro ex_decision_read; simp)+
  then show "extractHeaderAndSigsFromBlock ex_assembler (ex_decision 0 [1] []) =
     Inr (\<lparr>hNum = 0, hPrevHash = [], hAvailableCommonBlocks = [ex_common [0, 0, 0, 1]], hState = None, hDecisionNumOfLastConfigBlock = 0\<rparr>, [[]])"
    "extractHeaderAndSigsFromBlock ex_assembler (ex_decision 1 [2] [ex_compound_sig]) =
     Inr (\<lparr>hNum = 1, hPrevHash = [], hAvailableCommonBlocks = [ex_common [1, 1, 0, 2], ex_common [2, 1, 1, 2]], hState = None, hDecisionNumOfLastConfigBlock = 0\<rparr>,
       [[\<lparr>sigID = 1, sigValue = [5], sigMsg = ex_message\<rparr>], [\<lparr>sigID = 1, sigValue = [6], sigMsg = ex_message\<rparr>]])"
    using ex_compound_unpacked
    by (simp_all add: extractHeaderAndSigsFromBlock_def Header_Deserialize_def ex_decision_header numeral_2_eq_2)
qed

lemma ex_decided: "decided ex_assembler ex_decisions ex_ordered"
proof -
  have "blockHandlerFunc ex_assembler start_position (ex_decision 0 [1] []) = Inr (ex_ordered ! 0)"
    "blockHandlerFunc ex_assembler start_position (ex_decision 1 [2] [ex_compound_sig]) = Inr (ex_ordered ! 1)"
    by (simp_all add: blockHandlerFunc_def ex_extract ordered_batch_def ex_common_def index_def BlockMetadataIndex_ORDERER_def
        AssemblerBlockMetadataFromBytes_def MaxUint16_def already_committed_def ex_ordered_def ex_abo_def)
  then show ?thesis
    by (auto simp: decided_def ex_decisions_def ex_ordered_def ex_abo_def less_Suc_eq)
qed

lemmas ex_ordered_simps = ex_ordered_def ex_abo_def ex_answers_def ex_common_def ex_batch_def arrangeSignatures_def ex_message_parse nil_list_def nil_bytes_def
  NewAvailableBatch_def BatchIDEqual_def BatchedRequests_Digest_def

lemma ex_storable: "\<forall>abo \<in> set (concat ex_ordered). storable ex_assembler abo"
  by (simp add: storable_def placed_def signatures_readable_def GetMetadataFromBlock_def metadata_signature_def wire_faithful_def ex_metadata_def
      AssemblerBlockMetadataFromBytes_def MaxUint16_def BlockMetadataIndex_ORDERER_def BlockMetadataIndex_SIGNATURES_def ex_ordered_simps)

lemma continued_runs:
  assumes "continued E (length (stBlocks (alStore l))) (last_hash (a_sha E) (stBlocks (alStore l)) []) feed"
  shows "\<exists>l'. processOrderedBatchAttestations E feed l = Inr (l', ChannelClosed)"
  using assms
proof (induction feed arbitrary: l)
  case (Cons x feed)
  then obtain header where h: "continues E (length (stBlocks (alStore l))) (last_hash (a_sha E) (stBlocks (alStore l)) []) (fst x) (snd x) = Some header"
      "continued E (Suc (length (stBlocks (alStore l)))) (BlockHeaderHash (a_sha E) header) feed"
    by (cases x) (auto split: option.splits)
  obtain block l1 where "processOrderedBatchAttestations E [(fst x, snd x)] l = Inr (l1, ChannelClosed)"
      "stBlocks (alStore l1) = stBlocks (alStore l) @ [block]" "blkHeader block = Some header"
    by (rule collate_step [OF h(1)])
  then show ?case
    using Cons.IH [of l1] h(2) last_hash_snoc [of block header] collate_append [of E "[x]" feed l] by (simp del: processOrderedBatchAttestations.simps)
qed simp

lemma continued_take: "continued E n prev feed \<Longrightarrow> continued E n prev (take k feed)"
  by (induction E n prev feed arbitrary: k rule: continued.induct) (auto simp: take_Cons' split: option.splits)

lemma ex_continued: "continued ex_assembler 0 [] (zip (concat ex_ordered) ex_answers)"
  by (simp add: continues_def ShardIDConsensus_def BlockHeaderHash_def ex_ordered_simps)

lemma ex_runs:
  "\<exists>l. processOrderedBatchAttestations ex_assembler (take 2 (zip (concat ex_ordered) ex_answers)) empty_ledger = Inr (l, ChannelClosed)"
  "\<exists>l. processOrderedBatchAttestations ex_assembler (zip (concat ex_ordered) ex_answers) empty_ledger = Inr (l, ChannelClosed)"
  by (rule continued_runs, use ex_continued continued_take [OF ex_continued] in \<open>simp add: empty_ledger_def last_hash_def\<close>)+

theorem restart_resumes_witness:
  "\<exists>l. processOrderedBatchAttestations ex_assembler (take 2 (zip (concat ex_ordered) ex_answers)) empty_ledger = Inr (l, ChannelClosed) \<and>
     Replicate ex_assembler ex_decisions l [(l, length ex_decisions)] = Inr [ex_ordered ! 1 ! 1]"
proof -
  obtain l where l: "processOrderedBatchAttestations ex_assembler (take 2 (zip (concat ex_ordered) ex_answers)) empty_ledger = Inr (l, ChannelClosed)"
    using ex_runs(1) by blast
  have "Replicate ex_assembler ex_decisions l [(l, length ex_decisions)] = Inr (drop 2 (concat ex_ordered))"
    using restart_resumes [OF ex_decided _ ex_storable _ _ l] by (simp add: ex_ordered_def ex_answers_def)
  then show ?thesis
    using l by (simp add: ex_ordered_def numeral_2_eq_2)
qed

theorem collated_ledger_witness:
  "\<exists>l blocks. processOrderedBatchAttestations ex_assembler (zip (concat ex_ordered) ex_answers) empty_ledger = Inr (l, ChannelClosed) \<and>
     stBlocks (alStore l) = blocks \<and> length blocks = 3 \<and> hash_chained (\<lambda>_. [7]) blocks []"
proof -
  have "continued ex_assembler (length (stBlocks (alStore empty_ledger))) (last_hash (a_sha ex_assembler) (stBlocks (alStore empty_ledger)) []) (zip (concat ex_ordered) ex_answers)"
    using ex_continued by (simp add: empty_ledger_def last_hash_def)
  from collated_ledger [OF this] show ?thesis
    by (fastforce simp: empty_ledger_def ex_ordered_def ex_answers_def dest: list_all2_lengthD)
qed

theorem reconnect_redelivers_witness:
  "\<exists>l. Replicate ex_assembler ex_decisions empty_ledger [(empty_ledger, 2), (l, 2)] =
       Inr (concat ex_ordered @ [ex_ordered ! 1 ! 0, ex_ordered ! 1 ! 1]) \<and>
     (\<forall>batches. length batches = 2 \<longrightarrow>
       (\<exists>f. processOrderedBatchAttestations ex_assembler
          (zip (concat ex_ordered @ [ex_ordered ! 1 ! 0, ex_ordered ! 1 ! 1]) (ex_answers @ map Inr batches)) empty_ledger = Inl f))"
proof -
  obtain l l' where l: "processOrderedBatchAttestations ex_assembler (take 2 (zip (concat ex_ordered) ex_answers)) empty_ledger = Inr (l, ChannelClosed)"
      "processOrderedBatchAttestations ex_assembler (zip (concat ex_ordered) ex_answers) empty_ledger = Inr (l', ChannelClosed)"
    using ex_runs by blast
  have len: "length (concat ex_ordered) = 3" "length ex_answers = 3" "length ex_decisions = 2"
      "batches_before (next_decision ex_ordered 0 + 2) ex_ordered = 3" "batches_before (next_decision ex_ordered 2) ex_ordered = 1"
      "drop 1 (concat ex_ordered) = [ex_ordered ! 1 ! 0, ex_ordered ! 1 ! 1]"
    by (simp_all add: ex_ordered_def ex_answers_def ex_decisions_def numeral_2_eq_2)
  show ?thesis
    using reconnect_redelivers [OF ex_decided _ ex_storable _ len(4) [symmetric], of ex_answers 2 empty_ledger l l' 1] l len by auto
qed

end
