(* ===== verification/Spec2Isabelle.thy ===== *)
theory Spec2Isabelle
  imports StateProcess PoolCallers Assembler
begin

text \<open>
  Verification of the Arma ordering service (\<^verbatim>\<open>fabric-x-orderer\<close>).

  \<^bold>\<open>The program.\<close> Clients submit requests to routers, which send each to the shard it belongs to. In a
  shard every party runs a batcher. The batcher of the primary party collects requests in a pool
  (\<^verbatim>\<open>src/request\<close>), cuts batches and sends them to the others; each batcher signs a batch attestation
  fragment (BAF) for a batch it has seen and submits it to consensus. The consenters
  (\<^verbatim>\<open>src/node/consensus\<close>) order fragments, complaints about primaries, reports of assemblers and config
  requests with the SmartBFT library, whose application they are: a round of ordered requests moves the
  consensus state (\<^verbatim>\<open>src/node/consensus/state\<close>), and a batch with fragments of a threshold of parties
  becomes a block of the decision. Assemblers join the ordered headers with the batches they fetch.

  \<^bold>\<open>Theories\<close>, in the order of their imports:

  \<^item> \<open>Prelude\<close>, \<open>Asn1\<close>: bytes, errors and panics as values, association lists, big-endian integers and the
    DER encoding of the Go package \<^verbatim>\<open>encoding/asn1\<close> with its strict parser.

  \<^item> \<open>Types\<close> (\<^verbatim>\<open>src/common/types\<close>, \<^verbatim>\<open>src/common/utils/state.go\<close>): identifiers, batches of requests and their codec and
    digest, fragments, signature domains, the fault tolerance parameters.

  \<^item> \<open>Fabric\<close>: the Fabric messages and the block utilities of \<^verbatim>\<open>protoutil\<close> that the code calls. Parsers of
    Fabric and every protobuf codec are parameters; \<open>wire_faithful\<close> says that a message is read back from
    its bytes and is a hypothesis where a property needs it.

  \<^item> \<open>ControlEvents\<close> (\<^verbatim>\<open>available_batch.go\<close>, \<^verbatim>\<open>complaint.go\<close>, \<^verbatim>\<open>assembler_decision_report.go\<close>, \<^verbatim>\<open>config_request.go\<close>,
    \<^verbatim>\<open>control_event.go\<close>): what consensus orders, with codecs, signed bytes and identifiers.

  \<^item> \<open>ConsensusState\<close>, \<open>StateProcess\<close> (\<^verbatim>\<open>state.go\<close>, \<^verbatim>\<open>pruning.go\<close>): the state and \<open>Process\<close>, step by step, with
    closed forms of its loops; the invariant \<open>wf_state\<close> and what a round does to fragments, terms,
    complaints, heights and the watermark.

  \<^item> \<open>StateCodec\<close> (\<^verbatim>\<open>state.go\<close>, \<^verbatim>\<open>header.go\<close>, \<^verbatim>\<open>decision.go\<close>, \<^verbatim>\<open>compound_sig.go\<close>, \<^verbatim>\<open>consenter_block_operations.go\<close>): wire
    forms of states, headers and decisions, and the block that stores a decision.

  \<^item> \<open>Blocks\<close> (\<^verbatim>\<open>src/node/consensus/utils.go\<close>, \<^verbatim>\<open>src/node/ledger/assembler_ledger_util.go\<close>): the blocks of a
    decision, their verification and the ordering information in their metadata.

  \<^item> \<open>BADB\<close> (\<^verbatim>\<open>badb.go\<close>): the database of ordered digests over a key-value store. The interface locales are
    \<open>kv_failing\<close>, what the code relies on of a leveldb whose calls may fail, \<open>kv_store\<close>, the same without failures,
    and \<open>attestation_db\<close>, what consensus relies on.

  \<^item> \<open>Consenter\<close> (\<^verbatim>\<open>consenter.go\<close>, \<^verbatim>\<open>consensus_config_applier.go\<close>): the transition of a round, the grouping of
    fragments, the application of a configuration; reachable states and sequences of rounds.

  \<^item> \<open>Consensus\<close> (\<^verbatim>\<open>consensus.go\<close>): the consensus node: verification of requests, proposals and signatures, assembly
    and signing of proposals, delivery and synchronization of decisions.

  \<^item> \<open>BatchStore\<close> (\<^verbatim>\<open>src/request/batch.go\<close>, \<^verbatim>\<open>batchstore.go\<close>, \<^verbatim>\<open>utils.go\<close>): the store in which a primary fills its
    batches, with batches shared by pointers; when an insertion ends and when it does not. The interfaces
    \<open>request_store\<close> and \<open>releasing\<close> say what a pool relies on when a store lets go of requests.
  \<^item> \<open>BatchStoreCallers\<close>: the same insertion cut into its atomic steps, many callers interleaved; the batches stay
    within their limits as long as the packed size of a batch cannot carry over.
  \<^item> \<open>PendingStore\<close> (\<^verbatim>\<open>src/request/pending.go\<close>, \<^verbatim>\<open>bucket.go\<close>): the store of a secondary, with its buckets, epochs,
    tombstones and strikes; it provides the same interfaces.
  \<^item> \<open>Pool\<close> (\<^verbatim>\<open>src/request/pool.go\<close>): the pool over both stores and its semaphore; the permits taken, the size and the
    requests held agree after any calls that run one at a time, also when the requests move between the stores with the role.
  \<^item> \<open>PoolCallers\<close>: the calls of the pool of a primary that share its lock, cut into their atomic steps, with the queue
    of the semaphore (\<^verbatim>\<open>golang.org/x/sync/semaphore\<close>); the accounts hold in every interleaving and no permit is left unused
    while a submission waits.
  \<^item> \<open>BatchIndex\<close> (\<^verbatim>\<open>src/node/assembler/batch_mapper.go\<close>, \<^verbatim>\<open>batch_cache.go\<close>, \<^verbatim>\<open>batch_heap.go\<close>): the containers in which an
    assembler keeps batches; the indexed heap is a priority queue.
  \<^item> \<open>Prefetch\<close> (\<^verbatim>\<open>src/node/assembler/partition_prefetch_index.go\<close>): the index that pairs ordered batch ids with
    batches. Callers, timers, monitors and stops interleave at the lock; the index never panics, hands out the
    batch that was asked for, stays within its size, and loses no wake-up.
  \<^item> \<open>Assembler\<close> (\<^verbatim>\<open>src/node/ledger/assembler_ledger.go\<close>, \<^verbatim>\<open>src/node/delivery/consensus_ba_deliver_client.go\<close>,
    \<^verbatim>\<open>src/node/assembler/collator.go\<close>): the ledger of an assembler, the replicator that turns decisions into ordered batches
    and the collator between them. The ledger stays a hash chain and a restart resumes exactly where the ledger ends;
    a broken connection delivers again what is not appended yet, from the start of its decision on.

  \<^bold>\<open>Reading the model.\<close> A Go slice is a list, with nil as the empty list except where the code tells them
  apart. A panic is a value of type \<open>fault\<close>, an error one of type \<open>error\<close>; an operation that may do both
  has a \<open>failure\<close>. Texts made for logs are left out, operands of error messages too. Fixed-width integers
  are words and wrap. A Go map that is iterated is an association list; no property depends on the
  order. Operations under a lock are atomic; where calls share a lock or take none, their atomic steps are interleaved
  (\<open>BatchStoreCallers\<close>, \<open>PoolCallers\<close>, \<open>Prefetch\<close>). Channels never block: a connection of the replicator may bring
  more ordered batches than its channel holds, and the request channel of the prefetch index takes every request. The
  ledger of a consenter takes every block that \<open>Deliver\<close> appends, without the checks of the block store. Sizes that
  only logs use (\<open>BatchedRequests_SizeBytes\<close>) are unbounded. Time is an integer of nanoseconds given by the caller.

  \<^bold>\<open>Loops.\<close> Loops over data are structural recursion or have a termination proof. Loops that may not end are
  \<^theory_text>\<open>partial_function\<close>s with no result for divergence (\<open>Insert\<close> of the batch store, the submission loop of the pending store).

  \<^bold>\<open>Not modelled.\<close> gRPC services and streams, connection management, TLS (\<^verbatim>\<open>src/node/comm\<close>, the rest of \<^verbatim>\<open>src/node/delivery\<close>,
  \<^verbatim>\<open>src/common/deliver\<close>, \<^verbatim>\<open>src/common/deliverclient\<close>): their behaviour is that of the network library. Block files and
  leveldb (\<^verbatim>\<open>src/common/ledger\<close>): input and output; the ledger of a node is a list of blocks, with the checks of an append. The construction
  of nodes, loading of configuration files and metrics: wiring. Dynamic reconfiguration of a running node:
  goroutines and channels around the operations that are modelled. The SmartBFT library, the Fabric policy engine
  and protobuf: parameters. Command line tools and test utilities are no part of the service.
\<close>

end
